theory Spec2Isabelle
  imports Main "HOL-Library.Sublist" "HOL-Library.Word"
begin

section \<open>JavaScript values, as the structured-clone polyfill sees them\<close>

text \<open>
  A value is a primitive or a reference to an object of the heap. Two references are the
  same value exactly when they hold the same address, which is the identity the polyfill's
  \<^verbatim>\<open>Map\<close> registers compare. Numbers are the integer-valued ones (the
  polyfill does no arithmetic on them, and \<^verbatim>\<open>NaN\<close> and the signed zero
  are left out), functions and symbols carry only their identity.
\<close>

datatype val =
    Undefined
  | Null
  | Bool bool
  | Num int
  | Str string
  | BigInt int
  | Func nat
  | Sym nat
  | Ref nat

text \<open>
  The integer typed arrays. The float and big-integer typed arrays are left out.
\<close>

datatype ta_kind = Int8 | Uint8 | Uint8Clamped | Int16 | Uint16 | Int32 | Uint32

text \<open>
  The objects of the heap.
  \<^item> \<open>ArrayO xs\<close>: a dense array with the elements \<open>xs\<close>.
  \<^item> \<open>ObjectO props tj\<close>: an ordinary object; \<open>props\<close> are its own enumerable
    string-keyed properties in the order of \<^verbatim>\<open>Object.keys\<close>; \<open>tj = Some r\<close> when
    \<^verbatim>\<open>'toJSON' in value\<close> holds, \<open>r\<close> being what \<^verbatim>\<open>value.toJSON()\<close> returns.
  \<^item> \<open>DateO t\<close>: a date with the time value \<open>t\<close> in milliseconds, \<open>None\<close> for an
    invalid date.
  \<^item> \<open>RegExpO source flags\<close>.
  \<^item> \<open>MapO kvs\<close> and \<open>SetO xs\<close>: the entries in insertion order.
  \<^item> \<open>ErrorO name message\<close>: an error object, of any of the native error classes;
    \<open>name\<close> is its \<^verbatim>\<open>name\<close> property (\<^verbatim>\<open>"TypeError"\<close> for a TypeError).
  \<^item> \<open>BooleanO\<close>, \<open>NumberO\<close>, \<open>StringO\<close>, \<open>BigIntO\<close>: the boxed primitives.
  \<^item> \<open>TypedArrayO k xs\<close>: a typed array of kind \<open>k\<close> with the elements \<open>xs\<close>.
  \<^item> \<open>ArrayBufferO bytes\<close>.
  \<^item> \<open>DataViewO buffer byteOffset byteLength\<close>: a view on the buffer at the address
    \<open>buffer\<close>.
\<close>

datatype obj =
    ArrayO "val list"
  | ObjectO "(string \<times> val) list" "val option"
  | DateO "int option"
  | RegExpO string string
  | MapO "(val \<times> val) list"
  | SetO "val list"
  | ErrorO string string
  | BooleanO bool
  | NumberO int
  | StringO string
  | BigIntO int
  | TypedArrayO ta_kind "int list"
  | ArrayBufferO "8 word list"
  | DataViewO nat nat nat

text \<open>The heap: the object at address \<open>a\<close> is \<open>h ! a\<close>; a new object is appended.\<close>

type_synonym heap = "obj list"

definition valid :: "heap \<Rightarrow> val \<Rightarrow> bool" where
  "valid h v = (case v of Ref a \<Rightarrow> a < length h | _ \<Rightarrow> True)"

section \<open>Errors and results\<close>

text \<open>
  \<open>TypeError\<close>, \<open>RangeError\<close> and \<open>SyntaxError\<close> are the JavaScript exceptions, with
  their message. \<open>Unmodelled\<close> marks a path of the code that the embedding does not cover (a
  dangling address, a wire record whose payload does not have the shape of its tag, a
  constructor the table of globals below does not hold). A result is a value, a thrown
  error, or \<open>OutOfFuel\<close> when the recursion went deeper than the fuel given.
\<close>

datatype error = TypeError string | RangeError string | SyntaxError string | Unmodelled

datatype 'a result = OutOfFuel | Throw error | Ok 'a

fun rbind :: "'a result \<Rightarrow> ('a \<Rightarrow> 'b result) \<Rightarrow> 'b result" where
  "rbind OutOfFuel f = OutOfFuel"
| "rbind (Throw e) f = Throw e"
| "rbind (Ok x) f = f x"

section \<open>Type detection\<close>

definition VOID :: int where "VOID = -1"
definition PRIMITIVE :: int where "PRIMITIVE = 0"
definition ARRAY :: int where "ARRAY = 1"
definition OBJECT :: int where "OBJECT = 2"
definition DATE :: int where "DATE = 3"
definition REGEXP :: int where "REGEXP = 4"
definition MAP :: int where "MAP = 5"
definition SET :: int where "SET = 6"
definition ERROR :: int where "ERROR = 7"
definition BIGINT :: int where "BIGINT = 8"

definition EMPTY :: string where "EMPTY = []"

text \<open>\<^verbatim>\<open>typeof value\<close>.\<close>

fun typeof :: "val \<Rightarrow> string" where
  "typeof Undefined = ''undefined''"
| "typeof Null = ''object''"
| "typeof (Bool b) = ''boolean''"
| "typeof (Num n) = ''number''"
| "typeof (Str s) = ''string''"
| "typeof (BigInt i) = ''bigint''"
| "typeof (Func f) = ''function''"
| "typeof (Sym y) = ''symbol''"
| "typeof (Ref a) = ''object''"

fun ta_name :: "ta_kind \<Rightarrow> string" where
  "ta_name Int8 = ''Int8Array''"
| "ta_name Uint8 = ''Uint8Array''"
| "ta_name Uint8Clamped = ''Uint8ClampedArray''"
| "ta_name Int16 = ''Int16Array''"
| "ta_name Uint16 = ''Uint16Array''"
| "ta_name Int32 = ''Int32Array''"
| "ta_name Uint32 = ''Uint32Array''"

text \<open>
  \<^verbatim>\<open>toString.call(value).slice(8, -1)\<close>: the class name that
  \<^verbatim>\<open>Object.prototype.toString\<close> reports. It is \<^verbatim>\<open>Error\<close> for an object of
  every native error class.
\<close>

fun asString_of :: "obj \<Rightarrow> string" where
  "asString_of (ArrayO xs) = ''Array''"
| "asString_of (ObjectO props tj) = ''Object''"
| "asString_of (DateO t) = ''Date''"
| "asString_of (RegExpO src fl) = ''RegExp''"
| "asString_of (MapO kvs) = ''Map''"
| "asString_of (SetO xs) = ''Set''"
| "asString_of (ErrorO n m) = ''Error''"
| "asString_of (BooleanO b) = ''Boolean''"
| "asString_of (NumberO n) = ''Number''"
| "asString_of (StringO s) = ''String''"
| "asString_of (BigIntO i) = ''BigInt''"
| "asString_of (TypedArrayO k xs) = ta_name k"
| "asString_of (ArrayBufferO bs) = ''ArrayBuffer''"
| "asString_of (DataViewO b off len) = ''DataView''"

text \<open>\<^verbatim>\<open>s.includes(sub)\<close>.\<close>

fun str_includes :: "string \<Rightarrow> string \<Rightarrow> bool" where
  "str_includes [] sub = (sub = [])"
| "str_includes (c # cs) sub = (prefix sub (c # cs) \<or> str_includes cs sub)"

text \<open>
  \<^verbatim>\<open>typeOf\<close>: the pair of the type constant and the refined type string. A primitive
  (and \<^verbatim>\<open>null\<close>, which is falsy) is \<open>PRIMITIVE\<close> with its \<^verbatim>\<open>typeof\<close>.
\<close>

definition typeOf :: "heap \<Rightarrow> val \<Rightarrow> int \<times> string" where
  "typeOf h v =
    (case v of
      Ref a \<Rightarrow>
        (let asString = asString_of (h ! a) in
         if asString = ''Array'' then (ARRAY, EMPTY)
         else if asString = ''Object'' then (OBJECT, EMPTY)
         else if asString = ''Date'' then (DATE, EMPTY)
         else if asString = ''RegExp'' then (REGEXP, EMPTY)
         else if asString = ''Map'' then (MAP, EMPTY)
         else if asString = ''Set'' then (SET, EMPTY)
         else if asString = ''DataView'' then (ARRAY, asString)
         else if str_includes asString ''Array'' then (ARRAY, asString)
         else if str_includes asString ''Error'' then (ERROR, asString)
         else (OBJECT, asString))
    | _ \<Rightarrow> (PRIMITIVE, typeof v))"

definition shouldSkip :: "int \<times> string \<Rightarrow> bool" where
  "shouldSkip p = (case p of (TYPE', type') \<Rightarrow>
     TYPE' = PRIMITIVE \<and> (type' = ''function'' \<or> type' = ''symbol''))"

section \<open>The wire format\<close>

text \<open>
  A record is the two-element array \<^verbatim>\<open>[tag, payload]\<close>; the tag is a number (one of the
  type constants) or a string (the refined type). The payloads the serializer writes:
  \<^item> \<open>PNone\<close>: no payload (the record \<^verbatim>\<open>[VOID]\<close>);
  \<^item> \<open>PVal v\<close>: a primitive value;
  \<^item> \<open>PIso t\<close>: the ISO string of the time value \<open>t\<close>. The strings that
    \<^verbatim>\<open>toISOString\<close> writes and \<^verbatim>\<open>new Date\<close> reads are the platform's, and
    are represented by the time value they denote;
  \<^item> \<open>PSlots is\<close>: a list of slots (array, Set);
  \<^item> \<open>PPairs ps\<close>: a list of pairs of slots (object, Map);
  \<^item> \<open>PRegExp source flags\<close> and \<open>PError name message\<close>: the two small objects;
  \<^item> \<open>PItems xs\<close>: the numbers of a typed array or the bytes of a buffer.
\<close>

datatype tag = NumTag int | StrTag string

datatype payload =
    PNone
  | PVal val
  | PIso int
  | PSlots "nat list"
  | PPairs "(nat \<times> nat) list"
  | PRegExp string string
  | PError string string
  | PItems "int list"

type_synonym wrecord = "tag \<times> payload"

subsection \<open>Decimal strings of big integers\<close>

definition digit_char :: "nat \<Rightarrow> char" where
  "digit_char d = ''0123456789'' ! d"

fun digits :: "nat \<Rightarrow> string" where
  "digits n = (if n < 10 then [digit_char n] else digits (n div 10) @ [digit_char (n mod 10)])"

text \<open>\<^verbatim>\<open>value.toString()\<close> of a big integer.\<close>

definition bigint_toString :: "int \<Rightarrow> string" where
  "bigint_toString i = (if i < 0 then CHR ''-'' # digits (nat (- i)) else digits (nat i))"

section \<open>The serializer\<close>

text \<open>
  The state of one \<^verbatim>\<open>serialize\<close> call: \<open>ids\<close> is the register \<^verbatim>\<open>$\<close> (value to
  slot) and \<open>recs\<close> the output \<^verbatim>\<open>_\<close>.
\<close>

record ser_state =
  ids :: "val \<Rightarrow> nat option"
  recs :: "wrecord list"

text \<open>\<^verbatim>\<open>as(out, value)\<close> of the serializer: push the record, register the value.\<close>

definition as_s :: "wrecord \<Rightarrow> val \<Rightarrow> ser_state \<Rightarrow> nat \<times> ser_state" where
  "as_s outr value s =
    (let index = length (recs s @ [outr]) - 1
     in (index, \<lparr>ids = (ids s)(value \<mapsto> index), recs = recs s @ [outr]\<rparr>))"

text \<open>
  \<^verbatim>\<open>arr.push(i)\<close> and \<^verbatim>\<open>entries.push([k, e])\<close>, where the array is the payload of
  the record in slot \<open>index\<close>: the record holds the very array the loop fills.
\<close>

definition push_slot :: "nat \<Rightarrow> nat \<Rightarrow> ser_state \<Rightarrow> ser_state" where
  "push_slot index i s =
    (case recs s ! index of
      (t, PSlots xs) \<Rightarrow> s\<lparr>recs := (recs s)[index := (t, PSlots (xs @ [i]))]\<rparr>
    | _ \<Rightarrow> s)"

definition push_pair :: "nat \<Rightarrow> nat \<times> nat \<Rightarrow> ser_state \<Rightarrow> ser_state" where
  "push_pair index p s =
    (case recs s ! index of
      (t, PPairs ps) \<Rightarrow> s\<lparr>recs := (recs s)[index := (t, PPairs (ps @ [p]))]\<rparr>
    | _ \<Rightarrow> s)"

text \<open>
  The loops of \<^verbatim>\<open>pair\<close>. \<open>rec\<close> is the recursive call, \<open>keep\<close> the test of the
  \<^verbatim>\<open>if\<close> in the loop body (constantly true for an array).
\<close>

primrec pair_each ::
  "(val \<Rightarrow> ser_state \<Rightarrow> (nat \<times> ser_state) result) \<Rightarrow> (val \<Rightarrow> bool) \<Rightarrow> nat \<Rightarrow> val list \<Rightarrow>
   ser_state \<Rightarrow> ser_state result" where
  "pair_each rec keep index [] s = Ok s"
| "pair_each rec keep index (entry # rest) s =
    (if keep entry then
       rbind (rec entry s) (\<lambda>(i, s1). pair_each rec keep index rest (push_slot index i s1))
     else pair_each rec keep index rest s)"

primrec pair_entries ::
  "(val \<Rightarrow> ser_state \<Rightarrow> (nat \<times> ser_state) result) \<Rightarrow> (val \<Rightarrow> val \<Rightarrow> bool) \<Rightarrow> nat \<Rightarrow>
   (val \<times> val) list \<Rightarrow> ser_state \<Rightarrow> ser_state result" where
  "pair_entries rec keep index [] s = Ok s"
| "pair_entries rec keep index (kv # rest) s =
    (if keep (fst kv) (snd kv) then
       rbind (rec (fst kv) s) (\<lambda>(k, s1).
       rbind (rec (snd kv) s1) (\<lambda>(e, s2).
       pair_entries rec keep index rest (push_pair index (k, e) s2)))
     else pair_entries rec keep index rest s)"

text \<open>The object a reference points to (only read at a reference inside the heap).\<close>

definition deref :: "heap \<Rightarrow> val \<Rightarrow> obj" where
  "deref h v = (case v of Ref a \<Rightarrow> h ! a | _ \<Rightarrow> ObjectO [] None)"

text \<open>\<^verbatim>\<open>keys(value)\<close> and \<^verbatim>\<open>value[key]\<close> of an ordinary object.\<close>

definition keys :: "(string \<times> val) list \<Rightarrow> string list" where
  "keys props = map fst props"

definition get_prop :: "(string \<times> val) list \<Rightarrow> string \<Rightarrow> val" where
  "get_prop props key = (case map_of props key of Some v \<Rightarrow> v | None \<Rightarrow> Undefined)"

text \<open>
  \<^verbatim>\<open>[...spread]\<close> in the \<open>ARRAY\<close> case with a refined type: the bytes of the whole
  buffer of a DataView, the bytes of an ArrayBuffer, the elements of a typed array.
\<close>

definition spread :: "heap \<Rightarrow> string \<Rightarrow> val \<Rightarrow> int list result" where
  "spread h type' value =
    (if type' = ''DataView'' then
       (case deref h value of
         DataViewO b off len \<Rightarrow>
           (if b < length h then
              (case h ! b of ArrayBufferO bytes \<Rightarrow> Ok (map uint bytes) | _ \<Rightarrow> Throw Unmodelled)
            else Throw Unmodelled)
       | _ \<Rightarrow> Throw Unmodelled)
     else if type' = ''ArrayBuffer'' then
       (case deref h value of ArrayBufferO bytes \<Rightarrow> Ok (map uint bytes) | _ \<Rightarrow> Throw Unmodelled)
     else
       (case deref h value of TypedArrayO k xs \<Rightarrow> Ok xs | _ \<Rightarrow> Throw Unmodelled))"

text \<open>\<^verbatim>\<open>value.valueOf()\<close> of a boxed boolean, number or string.\<close>

fun valueOf :: "obj \<Rightarrow> val option" where
  "valueOf (BooleanO b) = Some (Bool b)"
| "valueOf (NumberO n) = Some (Num n)"
| "valueOf (StringO str) = Some (Str str)"
| "valueOf ob = None"

text \<open>
  The body of \<^verbatim>\<open>pair\<close>, with the recursive call as the parameter \<open>rec\<close>. The cases
  follow the source in its order; the last lines are the code after the \<^verbatim>\<open>switch\<close>,
  which only an \<open>ERROR\<close> value reaches.
\<close>

definition pair_body ::
  "(val \<Rightarrow> ser_state \<Rightarrow> (nat \<times> ser_state) result) \<Rightarrow> heap \<Rightarrow> bool \<Rightarrow> bool \<Rightarrow> val \<Rightarrow>
   ser_state \<Rightarrow> (nat \<times> ser_state) result" where
  "pair_body rec h strict json value s =
    (case ids s value of
      Some i \<Rightarrow> Ok (i, s)
    | None \<Rightarrow>
       if \<not> valid h value then Throw Unmodelled
       else
        (case typeOf h value of (TYPE', type') \<Rightarrow>
          if TYPE' = PRIMITIVE then
            (if type' = ''bigint'' then
               (case value of
                 BigInt b \<Rightarrow> Ok (as_s (NumTag BIGINT, PVal (Str (bigint_toString b))) value s)
               | _ \<Rightarrow> Throw Unmodelled)
             else if type' = ''function'' \<or> type' = ''symbol'' then
               (if strict then Throw (TypeError (''unable to serialize '' @ type'))
                else Ok (as_s (NumTag TYPE', PVal Null) value s))
             else if type' = ''undefined'' then Ok (as_s (NumTag VOID, PNone) value s)
             else Ok (as_s (NumTag TYPE', PVal value) value s))
          else if TYPE' = ARRAY then
            (if type' \<noteq> EMPTY then
               rbind (spread h type' value) (\<lambda>items.
               Ok (as_s (StrTag type', PItems items) value s))
             else
               (case deref h value of
                 ArrayO xs \<Rightarrow>
                   (case as_s (NumTag TYPE', PSlots []) value s of (index, s1) \<Rightarrow>
                      rbind (pair_each rec (\<lambda>entry. True) index xs s1) (\<lambda>s2. Ok (index, s2)))
               | _ \<Rightarrow> Throw Unmodelled))
          else if TYPE' = OBJECT then
            (if type' = ''BigInt'' then
               (case deref h value of
                 BigIntO b \<Rightarrow> Ok (as_s (StrTag type', PVal (Str (bigint_toString b))) value s)
               | _ \<Rightarrow> Throw Unmodelled)
             else if type' = ''Boolean'' \<or> type' = ''Number'' \<or> type' = ''String'' then
               (case valueOf (deref h value) of
                 Some v \<Rightarrow> Ok (as_s (StrTag type', PVal v) value s)
               | None \<Rightarrow> Throw Unmodelled)
             else
               (case deref h value of
                 ObjectO props tj \<Rightarrow>
                   (if json \<and> tj \<noteq> None then rec (the tj) s
                    else
                      (case as_s (NumTag TYPE', PPairs []) value s of (index, s1) \<Rightarrow>
                         rbind
                           (pair_entries rec
                             (\<lambda>key entry. strict \<or> \<not> shouldSkip (typeOf h entry)) index
                             (map (\<lambda>key. (Str key, get_prop props key)) (keys props)) s1)
                           (\<lambda>s2. Ok (index, s2))))
               | _ \<Rightarrow> Throw Unmodelled))
          else if TYPE' = DATE then
            (case deref h value of
              DateO (Some t) \<Rightarrow> Ok (as_s (NumTag TYPE', PIso t) value s)
            | DateO None \<Rightarrow> Throw (RangeError ''Invalid time value'')
            | _ \<Rightarrow> Throw Unmodelled)
          else if TYPE' = REGEXP then
            (case deref h value of
              RegExpO source flags \<Rightarrow> Ok (as_s (NumTag TYPE', PRegExp source flags) value s)
            | _ \<Rightarrow> Throw Unmodelled)
          else if TYPE' = MAP then
            (case deref h value of
              MapO kvs \<Rightarrow>
                (case as_s (NumTag TYPE', PPairs []) value s of (index, s1) \<Rightarrow>
                   rbind
                     (pair_entries rec
                       (\<lambda>key entry. strict \<or>
                          \<not> (shouldSkip (typeOf h key) \<or> shouldSkip (typeOf h entry)))
                       index kvs s1)
                     (\<lambda>s2. Ok (index, s2)))
            | _ \<Rightarrow> Throw Unmodelled)
          else if TYPE' = SET then
            (case deref h value of
              SetO xs \<Rightarrow>
                (case as_s (NumTag TYPE', PSlots []) value s of (index, s1) \<Rightarrow>
                   rbind
                     (pair_each rec (\<lambda>entry. strict \<or> \<not> shouldSkip (typeOf h entry)) index xs s1)
                     (\<lambda>s2. Ok (index, s2)))
            | _ \<Rightarrow> Throw Unmodelled)
          else
            (case deref h value of
              ErrorO name message \<Rightarrow> Ok (as_s (NumTag TYPE', PError type' message) value s)
            | _ \<Rightarrow> Throw Unmodelled)))"

text \<open>
  \<^verbatim>\<open>pair\<close>: the recursion of the source, bounded in depth by the fuel. The fuel is the
  depth of the JavaScript call stack, not a count of steps.
\<close>

primrec pair ::
  "nat \<Rightarrow> heap \<Rightarrow> bool \<Rightarrow> bool \<Rightarrow> val \<Rightarrow> ser_state \<Rightarrow> (nat \<times> ser_state) result" where
  "pair 0 h strict json = (\<lambda>value s. OutOfFuel)"
| "pair (Suc n) h strict json = pair_body (pair n h strict json) h strict json"

text \<open>The options object; an absent field is \<open>False\<close>.\<close>

record options =
  json :: bool
  lossy :: bool

definition no_options :: options where
  "no_options = \<lparr>json = False, lossy = False\<rparr>"

text \<open>
  \<^verbatim>\<open>serialize(value, {json, lossy})\<close>: run \<^verbatim>\<open>pair\<close> on an empty register and an
  empty output, and return the output.
\<close>

definition serialize :: "nat \<Rightarrow> heap \<Rightarrow> val \<Rightarrow> options \<Rightarrow> wrecord list result" where
  "serialize fuel h value opts =
    rbind
      (pair fuel h (\<not> (json opts \<or> lossy opts)) (json opts) value \<lparr>ids = Map.empty, recs = []\<rparr>)
      (\<lambda>(i, s). Ok (recs s))"

section \<open>The deserializer\<close>

subsection \<open>The platform's constructors\<close>

definition digit_val :: "char \<Rightarrow> nat option" where
  "digit_val c =
    (if (48::nat) \<le> of_char c \<and> of_char c \<le> (57::nat) then Some (of_char c - 48) else None)"

fun parse_digits :: "nat \<Rightarrow> string \<Rightarrow> nat option" where
  "parse_digits acc [] = Some acc"
| "parse_digits acc (c # cs) =
    (case digit_val c of None \<Rightarrow> None | Some d \<Rightarrow> parse_digits (10 * acc + d) cs)"

text \<open>
  \<^verbatim>\<open>BigInt(str)\<close> on a decimal string with an optional sign, and on the empty string
  (which is zero); the other notations the platform reads are not modelled.
\<close>

definition string_to_bigint :: "string \<Rightarrow> int result" where
  "string_to_bigint str =
    (case str of
      [] \<Rightarrow> Ok 0
    | c # cs \<Rightarrow>
        if c = CHR ''-'' \<and> cs \<noteq> [] then
          (case parse_digits 0 cs of Some n \<Rightarrow> Ok (- int n) | None \<Rightarrow> Throw Unmodelled)
        else if c = CHR ''+'' \<and> cs \<noteq> [] then
          (case parse_digits 0 cs of Some n \<Rightarrow> Ok (int n) | None \<Rightarrow> Throw Unmodelled)
        else
          (case parse_digits 0 str of Some n \<Rightarrow> Ok (int n) | None \<Rightarrow> Throw Unmodelled))"

text \<open>The conversion a typed array applies to a number stored into it.\<close>

fun ta_conv :: "ta_kind \<Rightarrow> int \<Rightarrow> int" where
  "ta_conv Int8 x = sint (word_of_int x :: 8 word)"
| "ta_conv Uint8 x = uint (word_of_int x :: 8 word)"
| "ta_conv Uint8Clamped x = max 0 (min 255 x)"
| "ta_conv Int16 x = sint (word_of_int x :: 16 word)"
| "ta_conv Uint16 x = uint (word_of_int x :: 16 word)"
| "ta_conv Int32 x = sint (word_of_int x :: 32 word)"
| "ta_conv Uint32 x = uint (word_of_int x :: 32 word)"

definition ta_kinds :: "ta_kind list" where
  "ta_kinds = [Int8, Uint8, Uint8Clamped, Int16, Uint16, Int32, Uint32]"

definition error_names :: "string list" where
  "error_names =
    [''Error'', ''EvalError'', ''RangeError'', ''ReferenceError'', ''SyntaxError'',
     ''TypeError'', ''URIError'']"

text \<open>
  \<^verbatim>\<open>new env[name](arg)\<close>: the global constructor of that name, applied to one argument.
  The table holds the constructors the serializer's tags name: the boxed primitives, the
  typed arrays and the native error classes, each on the argument the serializer writes for
  it. A \<^verbatim>\<open>new TypeError(message)\<close> has the name \<^verbatim>\<open>TypeError\<close>.
\<close>

definition env_new :: "string \<Rightarrow> payload \<Rightarrow> obj result" where
  "env_new name arg =
    (if name = ''Boolean'' then
       (case arg of PVal (Bool b) \<Rightarrow> Ok (BooleanO b) | _ \<Rightarrow> Throw Unmodelled)
     else if name = ''Number'' then
       (case arg of PVal (Num n) \<Rightarrow> Ok (NumberO n) | _ \<Rightarrow> Throw Unmodelled)
     else if name = ''String'' then
       (case arg of PVal (Str str) \<Rightarrow> Ok (StringO str) | _ \<Rightarrow> Throw Unmodelled)
     else if name \<in> set error_names then
       (case arg of PVal (Str message) \<Rightarrow> Ok (ErrorO name message) | _ \<Rightarrow> Throw Unmodelled)
     else
       (case filter (\<lambda>k. ta_name k = name) ta_kinds of
         k # ks \<Rightarrow>
           (case arg of PItems xs \<Rightarrow> Ok (TypedArrayO k (map (ta_conv k) xs))
            | _ \<Rightarrow> Throw Unmodelled)
       | [] \<Rightarrow> Throw Unmodelled))"

subsection \<open>Writing into the containers under construction\<close>

text \<open>
  \<^verbatim>\<open>map.set(k, v)\<close> on the entry list of a Map: the value of an existing key is
  replaced in place, a new key is appended.
\<close>

fun alist_set :: "'k \<Rightarrow> 'v \<Rightarrow> ('k \<times> 'v) list \<Rightarrow> ('k \<times> 'v) list" where
  "alist_set k v [] = [(k, v)]"
| "alist_set k v (p # ps) = (if fst p = k then (k, v) # ps else p # alist_set k v ps)"

text \<open>\<^verbatim>\<open>arr.push(v)\<close> and \<^verbatim>\<open>set.add(v)\<close>.\<close>

definition array_push :: "val \<Rightarrow> obj \<Rightarrow> obj result" where
  "array_push v ob = (case ob of ArrayO xs \<Rightarrow> Ok (ArrayO (xs @ [v])) | _ \<Rightarrow> Throw Unmodelled)"

definition set_add :: "val \<Rightarrow> obj \<Rightarrow> obj result" where
  "set_add v ob =
    (case ob of SetO xs \<Rightarrow> Ok (SetO (if v \<in> set xs then xs else xs @ [v]))
     | _ \<Rightarrow> Throw Unmodelled)"

definition map_set :: "val \<Rightarrow> val \<Rightarrow> obj \<Rightarrow> obj result" where
  "map_set k v ob = (case ob of MapO kvs \<Rightarrow> Ok (MapO (alist_set k v kvs)) | _ \<Rightarrow> Throw Unmodelled)"

text \<open>
  \<^verbatim>\<open>object[k] = v\<close> on an ordinary object made by \<^verbatim>\<open>{}\<close>. A string key is the
  property's name; the other keys go through the platform's conversion to a property key,
  which is not modelled. The name \<^verbatim>\<open>__proto__\<close> is the accessor inherited from
  \<^verbatim>\<open>Object.prototype\<close>: the assignment calls its setter, which creates no own property;
  it ignores a primitive other than \<^verbatim>\<open>null\<close>, and replaces the prototype otherwise
  (prototypes are not modelled).
\<close>

definition set_prop :: "val \<Rightarrow> val \<Rightarrow> obj \<Rightarrow> obj result" where
  "set_prop k v ob =
    (case (k, ob) of
      (Str key, ObjectO props tj) \<Rightarrow>
        if key = ''__proto__'' then
          (case v of Null \<Rightarrow> Throw Unmodelled | Ref a \<Rightarrow> Throw Unmodelled | _ \<Rightarrow> Ok ob)
        else Ok (ObjectO (alist_set key v props) tj)
    | _ \<Rightarrow> Throw Unmodelled)"

subsection \<open>unpair\<close>

text \<open>
  The register \<^verbatim>\<open>$\<close> of the deserializer is keyed by whatever \<^verbatim>\<open>as\<close> is given
  as its second argument: a slot (\<open>KIndex\<close>), or, in the two buffer cases, the payload
  array of the record (\<open>KPayload i\<close> is the payload array of slot \<open>i\<close>, an object with its
  own identity).
\<close>

datatype dkey = KIndex nat | KPayload nat

record de_state =
  reg :: "dkey \<Rightarrow> val option"
  dheap :: heap

text \<open>\<^verbatim>\<open>as(out, index)\<close> of the deserializer.\<close>

definition as_d :: "val \<Rightarrow> dkey \<Rightarrow> de_state \<Rightarrow> val \<times> de_state" where
  "as_d outv key s = (outv, s\<lparr>reg := (reg s)(key \<mapsto> outv)\<rparr>)"

text \<open>Allocation of a new object.\<close>

definition alloc :: "obj \<Rightarrow> de_state \<Rightarrow> nat \<times> de_state" where
  "alloc ob s = (length (dheap s), s\<lparr>dheap := dheap s @ [ob]\<rparr>)"

text \<open>The in-place update of the object at address \<open>a\<close>.\<close>

definition modify :: "nat \<Rightarrow> (obj \<Rightarrow> obj result) \<Rightarrow> de_state \<Rightarrow> de_state result" where
  "modify a f s =
    (if a < length (dheap s) then
       rbind (f (dheap s ! a)) (\<lambda>ob. Ok (s\<lparr>dheap := (dheap s)[a := ob]\<rparr>))
     else Throw Unmodelled)"

primrec unpair_each ::
  "(nat \<Rightarrow> de_state \<Rightarrow> (val \<times> de_state) result) \<Rightarrow> (val \<Rightarrow> obj \<Rightarrow> obj result) \<Rightarrow> nat \<Rightarrow>
   nat list \<Rightarrow> de_state \<Rightarrow> de_state result" where
  "unpair_each rec put a [] s = Ok s"
| "unpair_each rec put a (index # rest) s =
    rbind (rec index s) (\<lambda>(v, s1).
    rbind (modify a (put v) s1) (\<lambda>s2.
    unpair_each rec put a rest s2))"

primrec unpair_entries ::
  "(nat \<Rightarrow> de_state \<Rightarrow> (val \<times> de_state) result) \<Rightarrow> (val \<Rightarrow> val \<Rightarrow> obj \<Rightarrow> obj result) \<Rightarrow> nat \<Rightarrow>
   (nat \<times> nat) list \<Rightarrow> de_state \<Rightarrow> de_state result" where
  "unpair_entries rec put a [] s = Ok s"
| "unpair_entries rec put a (p # rest) s =
    rbind (rec (fst p) s) (\<lambda>(k, s1).
    rbind (rec (snd p) s1) (\<lambda>(v, s2).
    rbind (modify a (put k v) s2) (\<lambda>s3.
    unpair_entries rec put a rest s3)))"

text \<open>
  The body of \<^verbatim>\<open>unpair\<close>. Reading a slot outside the sequence gives
  \<^verbatim>\<open>undefined\<close>, whose destructuring throws a TypeError.
\<close>

definition unpair_body ::
  "(nat \<Rightarrow> de_state \<Rightarrow> (val \<times> de_state) result) \<Rightarrow> wrecord list \<Rightarrow> nat \<Rightarrow> de_state \<Rightarrow>
   (val \<times> de_state) result" where
  "unpair_body rec wire index s =
    (case reg s (KIndex index) of
      Some v \<Rightarrow> Ok (v, s)
    | None \<Rightarrow>
       if \<not> index < length wire then Throw (TypeError ''undefined is not iterable'')
       else
        (case wire ! index of (type', value) \<Rightarrow>
          if type' = NumTag PRIMITIVE \<or> type' = NumTag VOID then
            (case value of
              PVal v \<Rightarrow> Ok (as_d v (KIndex index) s)
            | PNone \<Rightarrow> Ok (as_d Undefined (KIndex index) s)
            | _ \<Rightarrow> Throw Unmodelled)
          else if type' = NumTag ARRAY then
            (case value of
              PSlots is \<Rightarrow>
                (case alloc (ArrayO []) s of (a, s0) \<Rightarrow>
                 case as_d (Ref a) (KIndex index) s0 of (arr, s1) \<Rightarrow>
                   rbind (unpair_each rec array_push a is s1) (\<lambda>s2. Ok (arr, s2)))
            | _ \<Rightarrow> Throw Unmodelled)
          else if type' = NumTag OBJECT then
            (case value of
              PPairs ps \<Rightarrow>
                (case alloc (ObjectO [] None) s of (a, s0) \<Rightarrow>
                 case as_d (Ref a) (KIndex index) s0 of (object, s1) \<Rightarrow>
                   rbind (unpair_entries rec set_prop a ps s1) (\<lambda>s2. Ok (object, s2)))
            | _ \<Rightarrow> Throw Unmodelled)
          else if type' = NumTag DATE then
            (case value of
              PIso t \<Rightarrow>
                (case alloc (DateO (Some t)) s of (a, s0) \<Rightarrow> Ok (as_d (Ref a) (KIndex index) s0))
            | _ \<Rightarrow> Throw Unmodelled)
          else if type' = NumTag REGEXP then
            (case value of
              PRegExp source flags \<Rightarrow>
                (case alloc (RegExpO source flags) s of (a, s0) \<Rightarrow>
                   Ok (as_d (Ref a) (KIndex index) s0))
            | _ \<Rightarrow> Throw Unmodelled)
          else if type' = NumTag MAP then
            (case value of
              PPairs ps \<Rightarrow>
                (case alloc (MapO []) s of (a, s0) \<Rightarrow>
                 case as_d (Ref a) (KIndex index) s0 of (m, s1) \<Rightarrow>
                   rbind (unpair_entries rec map_set a ps s1) (\<lambda>s2. Ok (m, s2)))
            | _ \<Rightarrow> Throw Unmodelled)
          else if type' = NumTag SET then
            (case value of
              PSlots is \<Rightarrow>
                (case alloc (SetO []) s of (a, s0) \<Rightarrow>
                 case as_d (Ref a) (KIndex index) s0 of (st, s1) \<Rightarrow>
                   rbind (unpair_each rec set_add a is s1) (\<lambda>s2. Ok (st, s2)))
            | _ \<Rightarrow> Throw Unmodelled)
          else if type' = NumTag ERROR then
            (case value of
              PError name message \<Rightarrow>
                rbind (env_new name (PVal (Str message))) (\<lambda>ob.
                case alloc ob s of (a, s0) \<Rightarrow> Ok (as_d (Ref a) (KIndex index) s0))
            | _ \<Rightarrow> Throw Unmodelled)
          else if type' = NumTag BIGINT then
            (case value of
              PVal (Str str) \<Rightarrow>
                rbind (string_to_bigint str) (\<lambda>b. Ok (as_d (BigInt b) (KIndex index) s))
            | _ \<Rightarrow> Throw Unmodelled)
          else if type' = StrTag ''BigInt'' then
            (case value of
              PVal (Str str) \<Rightarrow>
                rbind (string_to_bigint str) (\<lambda>b.
                case alloc (BigIntO b) s of (a, s0) \<Rightarrow> Ok (as_d (Ref a) (KIndex index) s0))
            | _ \<Rightarrow> Throw Unmodelled)
          else if type' = StrTag ''ArrayBuffer'' then
            (case value of
              PItems xs \<Rightarrow>
                (case alloc (ArrayBufferO (map word_of_int xs)) s of (a, s0) \<Rightarrow>
                   Ok (as_d (Ref a) (KPayload index) s0))
            | _ \<Rightarrow> Throw Unmodelled)
          else if type' = StrTag ''DataView'' then
            (case value of
              PItems xs \<Rightarrow>
                (case alloc (ArrayBufferO (map word_of_int xs)) s of (buffer, s0) \<Rightarrow>
                 case alloc (DataViewO buffer 0 (length xs)) s0 of (a, s1) \<Rightarrow>
                   Ok (as_d (Ref a) (KPayload index) s1))
            | _ \<Rightarrow> Throw Unmodelled)
          else
            (case type' of
              StrTag name \<Rightarrow>
                rbind (env_new name value) (\<lambda>ob.
                case alloc ob s of (a, s0) \<Rightarrow> Ok (as_d (Ref a) (KIndex index) s0))
            | NumTag n \<Rightarrow> Throw Unmodelled)))"

primrec unpair :: "nat \<Rightarrow> wrecord list \<Rightarrow> nat \<Rightarrow> de_state \<Rightarrow> (val \<times> de_state) result" where
  "unpair 0 wire = (\<lambda>index s. OutOfFuel)"
| "unpair (Suc n) wire = unpair_body (unpair n wire) wire"

text \<open>
  \<^verbatim>\<open>deserialize(serialized)\<close>: \<^verbatim>\<open>unpair(0)\<close> on an empty register. The result is
  the value together with the heap that holds the objects it was built from.
\<close>

definition deserialize :: "nat \<Rightarrow> wrecord list \<Rightarrow> (val \<times> heap) result" where
  "deserialize fuel serialized =
    rbind (unpair fuel serialized 0 \<lparr>reg = Map.empty, dheap = []\<rparr>) (\<lambda>(v, s). Ok (v, dheap s))"

section \<open>Text transport\<close>

text \<open>
  \<^verbatim>\<open>JSON.stringify\<close> and \<^verbatim>\<open>JSON.parse\<close> are the platform's. The text is
  represented by the JSON document it denotes, so that parsing what was stringified gives
  the document back; \<open>JIso t\<close> is the JSON string that holds the ISO string of \<open>t\<close>.
\<close>

datatype jsonv =
    JNull
  | JBool bool
  | JNum int
  | JStr string
  | JIso int
  | JArr "jsonv list"
  | JObj "(string \<times> jsonv) list"

text \<open>
  What \<^verbatim>\<open>JSON.stringify\<close> writes for a primitive inside an array: \<^verbatim>\<open>undefined\<close>,
  a function and a symbol become \<^verbatim>\<open>null\<close>, a big integer throws a TypeError.
\<close>

fun val_json :: "val \<Rightarrow> jsonv result" where
  "val_json Null = Ok JNull"
| "val_json Undefined = Ok JNull"
| "val_json (Bool b) = Ok (JBool b)"
| "val_json (Num n) = Ok (JNum n)"
| "val_json (Str str) = Ok (JStr str)"
| "val_json (BigInt b) = Throw (TypeError ''Do not know how to serialize a BigInt'')"
| "val_json (Func f) = Ok JNull"
| "val_json (Sym y) = Ok JNull"
| "val_json (Ref a) = Throw Unmodelled"

fun tag_json :: "tag \<Rightarrow> jsonv" where
  "tag_json (NumTag n) = JNum n"
| "tag_json (StrTag str) = JStr str"

fun record_json :: "wrecord \<Rightarrow> jsonv result" where
  "record_json (t, PNone) = Ok (JArr [tag_json t])"
| "record_json (t, PVal v) = rbind (val_json v) (\<lambda>j. Ok (JArr [tag_json t, j]))"
| "record_json (t, PIso d) = Ok (JArr [tag_json t, JIso d])"
| "record_json (t, PSlots is) = Ok (JArr [tag_json t, JArr (map (\<lambda>i. JNum (int i)) is)])"
| "record_json (t, PPairs ps) =
    Ok (JArr [tag_json t, JArr (map (\<lambda>p. JArr [JNum (int (fst p)), JNum (int (snd p))]) ps)])"
| "record_json (t, PRegExp source flags) =
    Ok (JArr [tag_json t, JObj [(''source'', JStr source), (''flags'', JStr flags)]])"
| "record_json (t, PError name message) =
    Ok (JArr [tag_json t, JObj [(''name'', JStr name), (''message'', JStr message)]])"
| "record_json (t, PItems xs) = Ok (JArr [tag_json t, JArr (map JNum xs)])"

fun records_json :: "wrecord list \<Rightarrow> jsonv list result" where
  "records_json [] = Ok []"
| "records_json (r # rs) =
    rbind (record_json r) (\<lambda>j. rbind (records_json rs) (\<lambda>js. Ok (j # js)))"

text \<open>\<^verbatim>\<open>$stringify\<close> on a sequence of records.\<close>

definition stringify_wire :: "wrecord list \<Rightarrow> jsonv result" where
  "stringify_wire rs = rbind (records_json rs) (\<lambda>js. Ok (JArr js))"

text \<open>
  \<^verbatim>\<open>$parse\<close>, read back as a sequence of records. The parsed payload is a plain
  JavaScript value; \<^verbatim>\<open>unpair\<close> reads it as its \<^verbatim>\<open>switch\<close> on the tag says,
  and so does this function: slots under \<open>ARRAY\<close> and \<open>SET\<close>, pairs of slots under
  \<open>OBJECT\<close> and \<open>MAP\<close>, numbers under a string tag.
\<close>

fun json_nat :: "jsonv \<Rightarrow> nat option" where
  "json_nat (JNum n) = (if 0 \<le> n then Some (nat n) else None)"
| "json_nat j = None"

fun json_int :: "jsonv \<Rightarrow> int option" where
  "json_int (JNum n) = Some n"
| "json_int j = None"

fun json_pair :: "jsonv \<Rightarrow> (nat \<times> nat) option" where
  "json_pair (JArr [JNum k, JNum e]) = (if 0 \<le> k \<and> 0 \<le> e then Some (nat k, nat e) else None)"
| "json_pair j = None"

fun those_map :: "('a \<Rightarrow> 'b option) \<Rightarrow> 'a list \<Rightarrow> 'b list option" where
  "those_map f [] = Some []"
| "those_map f (x # xs) =
    (case f x of None \<Rightarrow> None
     | Some y \<Rightarrow> (case those_map f xs of None \<Rightarrow> None | Some ys \<Rightarrow> Some (y # ys)))"

definition payload_of_json :: "tag \<Rightarrow> jsonv \<Rightarrow> payload option" where
  "payload_of_json t j =
    (case j of
      JNull \<Rightarrow> Some (PVal Null)
    | JBool b \<Rightarrow> Some (PVal (Bool b))
    | JNum n \<Rightarrow> Some (PVal (Num n))
    | JStr str \<Rightarrow> Some (PVal (Str str))
    | JIso d \<Rightarrow> Some (PIso d)
    | JArr js \<Rightarrow>
        (if t = NumTag ARRAY \<or> t = NumTag SET then map_option PSlots (those_map json_nat js)
         else if t = NumTag OBJECT \<or> t = NumTag MAP then
           map_option PPairs (those_map json_pair js)
         else map_option PItems (those_map json_int js))
    | JObj [(k1, JStr a), (k2, JStr b)] \<Rightarrow>
        (if k1 = ''source'' \<and> k2 = ''flags'' then Some (PRegExp a b)
         else if k1 = ''name'' \<and> k2 = ''message'' then Some (PError a b)
         else None)
    | _ \<Rightarrow> None)"

definition tag_of_json :: "jsonv \<Rightarrow> tag option" where
  "tag_of_json j = (case j of JNum n \<Rightarrow> Some (NumTag n) | JStr str \<Rightarrow> Some (StrTag str) | _ \<Rightarrow> None)"

definition record_of_json :: "jsonv \<Rightarrow> wrecord option" where
  "record_of_json j =
    (case j of
      JArr [jt] \<Rightarrow> map_option (\<lambda>t. (t, PNone)) (tag_of_json jt)
    | JArr [jt, jp] \<Rightarrow>
        (case tag_of_json jt of
          None \<Rightarrow> None
        | Some t \<Rightarrow> map_option (\<lambda>p. (t, p)) (payload_of_json t jp))
    | _ \<Rightarrow> None)"

definition parse_wire :: "jsonv \<Rightarrow> wrecord list result" where
  "parse_wire j =
    (case j of
      JArr js \<Rightarrow> (case those_map record_of_json js of Some rs \<Rightarrow> Ok rs | None \<Rightarrow> Throw Unmodelled)
    | _ \<Rightarrow> Throw Unmodelled)"

definition jsonOptions :: options where
  "jsonOptions = \<lparr>json = True, lossy = True\<rparr>"

definition parseJSON :: "nat \<Rightarrow> jsonv \<Rightarrow> (val \<times> heap) result" where
  "parseJSON fuel str = rbind (parse_wire str) (deserialize fuel)"

definition stringifyJSON :: "nat \<Rightarrow> heap \<Rightarrow> val \<Rightarrow> jsonv result" where
  "stringifyJSON fuel h any = rbind (serialize fuel h any jsonOptions) stringify_wire"

section \<open>Object.fromEntries\<close>

text \<open>
  \<^verbatim>\<open>Object(entry) !== entry\<close> holds of the primitives; a function is an object.
\<close>

fun is_object :: "val \<Rightarrow> bool" where
  "is_object (Ref a) = True"
| "is_object (Func f) = True"
| "is_object v = False"

text \<open>
  The string that \<^verbatim>\<open>'Iterator value ' + entry\<close> appends for a primitive; the
  concatenation itself throws a TypeError on a symbol.
\<close>

fun to_display :: "val \<Rightarrow> string result" where
  "to_display Undefined = Ok ''undefined''"
| "to_display Null = Ok ''null''"
| "to_display (Bool b) = Ok (if b then ''true'' else ''false'')"
| "to_display (Num n) = Ok (bigint_toString n)"
| "to_display (Str str) = Ok str"
| "to_display (BigInt b) = Ok (bigint_toString b)"
| "to_display (Sym y) = Throw (TypeError ''Cannot convert a Symbol value to a string'')"
| "to_display v = Throw Unmodelled"

text \<open>\<^verbatim>\<open>entry[i]\<close> for \<open>i\<close> 0 or 1, on an array and on an ordinary object.\<close>

definition entry_at :: "heap \<Rightarrow> val \<Rightarrow> nat \<Rightarrow> val result" where
  "entry_at h entry i =
    (case entry of
      Ref a \<Rightarrow>
        (if a < length h then
           (case h ! a of
             ArrayO xs \<Rightarrow> Ok (if i < length xs then xs ! i else Undefined)
           | ObjectO props tj \<Rightarrow> Ok (get_prop props (bigint_toString (int i)))
           | _ \<Rightarrow> Throw Unmodelled)
         else Throw Unmodelled)
    | Func f \<Rightarrow> Ok Undefined
    | _ \<Rightarrow> Throw Unmodelled)"

text \<open>The callback of the \<^verbatim>\<open>reduce\<close>; \<open>obj\<close> is the address of the accumulator.\<close>

definition fromEntries_step :: "heap \<Rightarrow> nat \<Rightarrow> val \<Rightarrow> heap result" where
  "fromEntries_step h obj entry =
    (if \<not> is_object entry then
       rbind (to_display entry) (\<lambda>d.
       Throw (TypeError (''Iterator value '' @ d @ '' is not an entry object'')))
     else
       rbind (entry_at h entry 0) (\<lambda>key.
       rbind (entry_at h entry 1) (\<lambda>val.
       if obj < length h then
         rbind (set_prop key val (h ! obj)) (\<lambda>ob. Ok (h[obj := ob]))
       else Throw Unmodelled)))"

fun fromEntries_reduce :: "heap \<Rightarrow> nat \<Rightarrow> val list \<Rightarrow> heap result" where
  "fromEntries_reduce h obj [] = Ok h"
| "fromEntries_reduce h obj (entry # rest) =
    rbind (fromEntries_step h obj entry) (\<lambda>h1. fromEntries_reduce h1 obj rest)"

text \<open>
  \<^verbatim>\<open>Object.fromEntries(iterable)\<close> on an array: the \<^verbatim>\<open>reduce\<close> starts from a new
  \<^verbatim>\<open>{}\<close> and returns it.
\<close>

definition fromEntries :: "heap \<Rightarrow> val \<Rightarrow> (val \<times> heap) result" where
  "fromEntries h iterable =
    (case iterable of
      Ref a \<Rightarrow>
        (if a < length h then
           (case h ! a of
             ArrayO entries \<Rightarrow>
               rbind (fromEntries_reduce (h @ [ObjectO [] None]) (length h) entries) (\<lambda>h1.
               Ok (Ref (length h), h1))
           | _ \<Rightarrow> Throw Unmodelled)
         else Throw Unmodelled)
    | _ \<Rightarrow> Throw Unmodelled)"

fun is_fs :: "val \<Rightarrow> bool" where
  "is_fs (Func f) = True"
| "is_fs (Sym y) = True"
| "is_fs v = False"

definition entries_of :: "(string \<times> val) list \<Rightarrow> (val \<times> val) list" where
  "entries_of props = map (\<lambda>key. (Str key, get_prop props key)) (keys props)"

datatype shape =
    Leaf wrecord
  | Raise error
  | Collapse val
  | Each tag "val \<Rightarrow> bool" "val list"
  | Entries tag "val \<Rightarrow> val \<Rightarrow> bool" "(val \<times> val) list"

definition classify_obj :: "heap \<Rightarrow> bool \<Rightarrow> bool \<Rightarrow> obj \<Rightarrow> shape" where
  "classify_obj h strict js ob =
    (case ob of
      ArrayO xs \<Rightarrow> Each (NumTag ARRAY) (\<lambda>entry. True) xs
    | ObjectO props tj \<Rightarrow>
        (if js \<and> tj \<noteq> None then Collapse (the tj)
         else Entries (NumTag OBJECT) (\<lambda>key entry. strict \<or> \<not> is_fs entry) (entries_of props))
    | DateO t \<Rightarrow>
        (case t of Some d \<Rightarrow> Leaf (NumTag DATE, PIso d)
         | None \<Rightarrow> Raise (RangeError ''Invalid time value''))
    | RegExpO source flags \<Rightarrow> Leaf (NumTag REGEXP, PRegExp source flags)
    | MapO kvs \<Rightarrow> Entries (NumTag MAP) (\<lambda>key entry. strict \<or> \<not> (is_fs key \<or> is_fs entry)) kvs
    | SetO xs \<Rightarrow> Each (NumTag SET) (\<lambda>entry. strict \<or> \<not> is_fs entry) xs
    | ErrorO name message \<Rightarrow> Leaf (NumTag ERROR, PError ''Error'' message)
    | BooleanO b \<Rightarrow> Leaf (StrTag ''Boolean'', PVal (Bool b))
    | NumberO n \<Rightarrow> Leaf (StrTag ''Number'', PVal (Num n))
    | StringO str \<Rightarrow> Leaf (StrTag ''String'', PVal (Str str))
    | BigIntO b \<Rightarrow> Leaf (StrTag ''BigInt'', PVal (Str (bigint_toString b)))
    | TypedArrayO k xs \<Rightarrow> Leaf (StrTag (ta_name k), PItems xs)
    | ArrayBufferO bytes \<Rightarrow> Leaf (StrTag ''ArrayBuffer'', PItems (map uint bytes))
    | DataViewO b off len \<Rightarrow>
        (if b < length h then
           (case h ! b of ArrayBufferO bytes \<Rightarrow> Leaf (StrTag ''DataView'', PItems (map uint bytes))
            | _ \<Rightarrow> Raise Unmodelled)
         else Raise Unmodelled))"

definition classify :: "heap \<Rightarrow> bool \<Rightarrow> bool \<Rightarrow> val \<Rightarrow> shape" where
  "classify h strict js v =
    (case v of
      Undefined \<Rightarrow> Leaf (NumTag VOID, PNone)
    | BigInt b \<Rightarrow> Leaf (NumTag BIGINT, PVal (Str (bigint_toString b)))
    | Func f \<Rightarrow>
        (if strict then Raise (TypeError ''unable to serialize function'')
         else Leaf (NumTag PRIMITIVE, PVal Null))
    | Sym y \<Rightarrow>
        (if strict then Raise (TypeError ''unable to serialize symbol'')
         else Leaf (NumTag PRIMITIVE, PVal Null))
    | Ref a \<Rightarrow> (if a < length h then classify_obj h strict js (h ! a) else Raise Unmodelled)
    | _ \<Rightarrow> Leaf (NumTag PRIMITIVE, PVal v))"

definition run_shape ::
  "(val \<Rightarrow> ser_state \<Rightarrow> (nat \<times> ser_state) result) \<Rightarrow> val \<Rightarrow> ser_state \<Rightarrow> shape \<Rightarrow>
   (nat \<times> ser_state) result" where
  "run_shape rec v s sh =
    (case sh of
      Leaf r \<Rightarrow> Ok (as_s r v s)
    | Raise e \<Rightarrow> Throw e
    | Collapse r \<Rightarrow> rec r s
    | Each t keep xs \<Rightarrow>
        rbind (pair_each rec keep (length (recs s)) xs (snd (as_s (t, PSlots []) v s)))
          (\<lambda>s2. Ok (length (recs s), s2))
    | Entries t keep kvs \<Rightarrow>
        rbind (pair_entries rec keep (length (recs s)) kvs (snd (as_s (t, PPairs []) v s)))
          (\<lambda>s2. Ok (length (recs s), s2)))"

fun slots_of :: "payload \<Rightarrow> nat list" where
  "slots_of (PSlots is) = is"
| "slots_of (PPairs ps) = map fst ps @ map snd ps"
| "slots_of p = []"

definition wf_wire :: "wrecord list \<Rightarrow> bool" where
  "wf_wire rs = list_all (\<lambda>r. list_all (\<lambda>i. i < length rs) (slots_of (snd r))) rs"

fun json_prim :: "val \<Rightarrow> bool" where
  "json_prim Null = True"
| "json_prim (Bool b) = True"
| "json_prim (Num n) = True"
| "json_prim (Str str) = True"
| "json_prim v = False"

fun json_safe :: "wrecord \<Rightarrow> bool" where
  "json_safe (t, PVal v) = json_prim v"
| "json_safe (t, PSlots is) = (t = NumTag ARRAY \<or> t = NumTag SET)"
| "json_safe (t, PPairs ps) = (t = NumTag OBJECT \<or> t = NumTag MAP)"
| "json_safe (t, PItems xs) =
    (t \<noteq> NumTag ARRAY \<and> t \<noteq> NumTag SET \<and> t \<noteq> NumTag OBJECT \<and> t \<noteq> NumTag MAP)"
| "json_safe (t, p) = True"

definition sinv :: "ser_state \<Rightarrow> bool" where
  "sinv s =
    ((\<forall>x i. ids s x = Some i \<longrightarrow> i < length (recs s)) \<and>
     inj_on (ids s) (dom (ids s)) \<and>
     (\<forall>i<length (recs s). \<exists>x. ids s x = Some i) \<and>
     wf_wire (recs s) \<and>
     list_all json_safe (recs s))"

definition keeps :: "ser_state \<Rightarrow> ser_state \<Rightarrow> bool" where
  "keeps s s' =
    (ids s \<subseteq>\<^sub>m ids s' \<and> length (recs s) \<le> length (recs s') \<and>
     (\<forall>j<length (recs s). recs s' ! j = recs s ! j))"

definition keeps_but :: "nat \<Rightarrow> ser_state \<Rightarrow> ser_state \<Rightarrow> bool" where
  "keeps_but index s s' =
    (ids s \<subseteq>\<^sub>m ids s' \<and> length (recs s) \<le> length (recs s') \<and>
     (\<forall>j<length (recs s). j \<noteq> index \<longrightarrow> recs s' ! j = recs s ! j))"

definition rec_ok1 :: "(val \<Rightarrow> ser_state \<Rightarrow> (nat \<times> ser_state) result) \<Rightarrow> bool" where
  "rec_ok1 rec =
    (\<forall>v s i s'. sinv s \<longrightarrow> rec v s = Ok (i, s') \<longrightarrow> sinv s' \<and> keeps s s' \<and> i < length (recs s'))"

definition tns :: "error \<Rightarrow> bool" where
  "tns e =
    (e = TypeError ''unable to serialize function'' \<or> e = TypeError ''unable to serialize symbol'')"

definition pairs_flat :: "(val \<times> val) list \<Rightarrow> val list" where
  "pairs_flat kvs = concat (map (\<lambda>kv. [fst kv, snd kv]) kvs)"

fun children :: "obj \<Rightarrow> val list" where
  "children (ArrayO xs) = xs"
| "children (ObjectO props tj) = pairs_flat (entries_of props)"
| "children (MapO kvs) = pairs_flat kvs"
| "children (SetO xs) = xs"
| "children ob = []"

inductive reach :: "heap \<Rightarrow> val \<Rightarrow> val \<Rightarrow> bool" for h v where
  reach_root: "reach h v v"
| reach_child: "reach h v (Ref a) \<Longrightarrow> a < length h \<Longrightarrow> c \<in> set (children (h ! a)) \<Longrightarrow> reach h v c"

definition fuel_le :: "('a \<Rightarrow> 'b \<Rightarrow> 'c result) \<Rightarrow> ('a \<Rightarrow> 'b \<Rightarrow> 'c result) \<Rightarrow> bool" where
  "fuel_le rec rec' = (\<forall>v s. rec v s \<noteq> OutOfFuel \<longrightarrow> rec' v s = rec v s)"

definition slot :: "(val \<Rightarrow> nat option) \<Rightarrow> val \<Rightarrow> nat" where
  "slot m x = (case m x of Some i \<Rightarrow> i | None \<Rightarrow> 0)"

definition enc :: "heap \<Rightarrow> bool \<Rightarrow> bool \<Rightarrow> (val \<Rightarrow> nat option) \<Rightarrow> val \<Rightarrow> wrecord" where
  "enc h strict js m v =
    (case classify h strict js v of
      Leaf r \<Rightarrow> r
    | Each t keep xs \<Rightarrow> (t, PSlots (map (slot m) (filter keep xs)))
    | Entries t keep kvs \<Rightarrow>
        (t, PPairs (map (\<lambda>kv. (slot m (fst kv), slot m (snd kv)))
              (filter (\<lambda>kv. keep (fst kv) (snd kv)) kvs)))
    | _ \<Rightarrow> (NumTag VOID, PNone))"

definition kept :: "heap \<Rightarrow> bool \<Rightarrow> bool \<Rightarrow> val \<Rightarrow> val list" where
  "kept h strict js v =
    (case classify h strict js v of
      Each t keep xs \<Rightarrow> filter keep xs
    | Entries t keep kvs \<Rightarrow> pairs_flat (filter (\<lambda>kv. keep (fst kv) (snd kv)) kvs)
    | _ \<Rightarrow> [])"

definition done_at :: "heap \<Rightarrow> bool \<Rightarrow> bool \<Rightarrow> ser_state \<Rightarrow> val \<Rightarrow> bool" where
  "done_at h strict js s v =
    (\<exists>i. ids s v = Some i \<and> i < length (recs s) \<and> recs s ! i = enc h strict js (ids s) v \<and>
         (\<forall>c\<in>set (kept h strict js v). ids s c \<noteq> None) \<and>
         (\<forall>e. classify h strict js v \<noteq> Raise e) \<and> (\<forall>c. classify h strict js v \<noteq> Collapse c))"

definition nc :: "heap \<Rightarrow> bool \<Rightarrow> bool \<Rightarrow> val \<Rightarrow> bool" where
  "nc h strict js v = (\<forall>x. reach h v x \<longrightarrow> (\<forall>c. classify h strict js x \<noteq> Collapse c))"

definition rec_ok2 ::
  "heap \<Rightarrow> bool \<Rightarrow> bool \<Rightarrow> (val \<Rightarrow> ser_state \<Rightarrow> (nat \<times> ser_state) result) \<Rightarrow> bool" where
  "rec_ok2 h strict js rec =
    (\<forall>v s i s'. sinv s \<longrightarrow> nc h strict js v \<longrightarrow> rec v s = Ok (i, s') \<longrightarrow>
       ids s' v = Some i \<and>
       (\<forall>x. ids s x = None \<longrightarrow> ids s' x \<noteq> None \<longrightarrow> done_at h strict js s' x))"

datatype dshape =
    DPrim val
  | DNew obj
  | DBuffer "8 word list"
  | DView "8 word list"
  | DRaise error
  | DEach obj "val \<Rightarrow> obj \<Rightarrow> obj result" "nat list"
  | DEntries obj "val \<Rightarrow> val \<Rightarrow> obj \<Rightarrow> obj result" "(nat \<times> nat) list"

definition lift_new :: "obj result \<Rightarrow> dshape" where
  "lift_new r = (case r of Ok ob \<Rightarrow> DNew ob | Throw e \<Rightarrow> DRaise e | OutOfFuel \<Rightarrow> DRaise Unmodelled)"

definition lift_bigint :: "(int \<Rightarrow> dshape) \<Rightarrow> int result \<Rightarrow> dshape" where
  "lift_bigint f r = (case r of Ok b \<Rightarrow> f b | Throw e \<Rightarrow> DRaise e | OutOfFuel \<Rightarrow> DRaise Unmodelled)"

definition dclassify :: "wrecord \<Rightarrow> dshape" where
  "dclassify r =
    (case r of (t, p) \<Rightarrow>
      if t = NumTag PRIMITIVE \<or> t = NumTag VOID then
        (case p of PVal v \<Rightarrow> DPrim v | PNone \<Rightarrow> DPrim Undefined | _ \<Rightarrow> DRaise Unmodelled)
      else if t = NumTag ARRAY then
        (case p of PSlots is \<Rightarrow> DEach (ArrayO []) array_push is | _ \<Rightarrow> DRaise Unmodelled)
      else if t = NumTag OBJECT then
        (case p of PPairs ps \<Rightarrow> DEntries (ObjectO [] None) set_prop ps | _ \<Rightarrow> DRaise Unmodelled)
      else if t = NumTag DATE then
        (case p of PIso d \<Rightarrow> DNew (DateO (Some d)) | _ \<Rightarrow> DRaise Unmodelled)
      else if t = NumTag REGEXP then
        (case p of PRegExp source flags \<Rightarrow> DNew (RegExpO source flags) | _ \<Rightarrow> DRaise Unmodelled)
      else if t = NumTag MAP then
        (case p of PPairs ps \<Rightarrow> DEntries (MapO []) map_set ps | _ \<Rightarrow> DRaise Unmodelled)
      else if t = NumTag SET then
        (case p of PSlots is \<Rightarrow> DEach (SetO []) set_add is | _ \<Rightarrow> DRaise Unmodelled)
      else if t = NumTag ERROR then
        (case p of PError name message \<Rightarrow> lift_new (env_new name (PVal (Str message)))
         | _ \<Rightarrow> DRaise Unmodelled)
      else if t = NumTag BIGINT then
        (case p of
          PVal v \<Rightarrow>
            (case v of Str str \<Rightarrow> lift_bigint (\<lambda>b. DPrim (BigInt b)) (string_to_bigint str)
             | _ \<Rightarrow> DRaise Unmodelled)
        | _ \<Rightarrow> DRaise Unmodelled)
      else if t = StrTag ''BigInt'' then
        (case p of
          PVal v \<Rightarrow>
            (case v of Str str \<Rightarrow> lift_bigint (\<lambda>b. DNew (BigIntO b)) (string_to_bigint str)
             | _ \<Rightarrow> DRaise Unmodelled)
        | _ \<Rightarrow> DRaise Unmodelled)
      else if t = StrTag ''ArrayBuffer'' then
        (case p of PItems xs \<Rightarrow> DBuffer (map word_of_int xs) | _ \<Rightarrow> DRaise Unmodelled)
      else if t = StrTag ''DataView'' then
        (case p of PItems xs \<Rightarrow> DView (map word_of_int xs) | _ \<Rightarrow> DRaise Unmodelled)
      else
        (case t of StrTag name \<Rightarrow> lift_new (env_new name p) | NumTag n \<Rightarrow> DRaise Unmodelled))"

definition run_dshape ::
  "(nat \<Rightarrow> de_state \<Rightarrow> (val \<times> de_state) result) \<Rightarrow> nat \<Rightarrow> de_state \<Rightarrow> dshape \<Rightarrow>
   (val \<times> de_state) result" where
  "run_dshape rec index s sh =
    (case sh of
      DPrim v \<Rightarrow> Ok (v, \<lparr>reg = (reg s)(KIndex index \<mapsto> v), dheap = dheap s\<rparr>)
    | DNew ob \<Rightarrow>
        Ok (Ref (length (dheap s)),
            \<lparr>reg = (reg s)(KIndex index \<mapsto> Ref (length (dheap s))), dheap = dheap s @ [ob]\<rparr>)
    | DBuffer bytes \<Rightarrow>
        Ok (Ref (length (dheap s)),
            \<lparr>reg = (reg s)(KPayload index \<mapsto> Ref (length (dheap s))),
             dheap = dheap s @ [ArrayBufferO bytes]\<rparr>)
    | DView bytes \<Rightarrow>
        Ok (Ref (Suc (length (dheap s))),
            \<lparr>reg = (reg s)(KPayload index \<mapsto> Ref (Suc (length (dheap s)))),
             dheap = dheap s @ [ArrayBufferO bytes, DataViewO (length (dheap s)) 0 (length bytes)]\<rparr>)
    | DRaise e \<Rightarrow> Throw e
    | DEach ob put is \<Rightarrow>
        rbind
          (unpair_each rec put (length (dheap s)) is
            \<lparr>reg = (reg s)(KIndex index \<mapsto> Ref (length (dheap s))), dheap = dheap s @ [ob]\<rparr>)
          (\<lambda>s2. Ok (Ref (length (dheap s)), s2))
    | DEntries ob put ps \<Rightarrow>
        rbind
          (unpair_entries rec put (length (dheap s)) ps
            \<lparr>reg = (reg s)(KIndex index \<mapsto> Ref (length (dheap s))), dheap = dheap s @ [ob]\<rparr>)
          (\<lambda>s2. Ok (Ref (length (dheap s)), s2)))"

fun is_buf :: "obj \<Rightarrow> bool" where
  "is_buf (ArrayBufferO bytes) = True"
| "is_buf (DataViewO b off len) = True"
| "is_buf ob = False"

primrec puts :: "(val \<Rightarrow> obj \<Rightarrow> obj result) \<Rightarrow> val list \<Rightarrow> obj \<Rightarrow> obj result" where
  "puts put [] ob = Ok ob"
| "puts put (v # vs) ob = rbind (put v ob) (puts put vs)"

primrec puts2 ::
  "(val \<Rightarrow> val \<Rightarrow> obj \<Rightarrow> obj result) \<Rightarrow> (val \<times> val) list \<Rightarrow> obj \<Rightarrow> obj result" where
  "puts2 put [] ob = Ok ob"
| "puts2 put (kv # kvs) ob = rbind (put (fst kv) (snd kv) ob) (puts2 put kvs)"

definition bufrel :: "wrecord list \<Rightarrow> de_state \<Rightarrow> nat \<Rightarrow> val \<Rightarrow> bool" where
  "bufrel W t i v =
    (i < length W \<and>
     (case dclassify (W ! i) of
        DBuffer bytes \<Rightarrow>
          \<exists>a. v = Ref a \<and> a < length (dheap t) \<and> dheap t ! a = ArrayBufferO bytes
      | DView bytes \<Rightarrow>
          \<exists>a b. v = Ref a \<and> a < length (dheap t) \<and> dheap t ! a = DataViewO b 0 (length bytes) \<and>
            b < length (dheap t) \<and> dheap t ! b = ArrayBufferO bytes
      | _ \<Rightarrow> False))"

definition Rslot :: "wrecord list \<Rightarrow> de_state \<Rightarrow> nat \<Rightarrow> val \<Rightarrow> bool" where
  "Rslot W t i v = (reg t (KIndex i) = Some v \<or> bufrel W t i v)"

definition sep :: "nat list \<Rightarrow> val list \<Rightarrow> bool" where
  "sep is vs =
    (\<forall>k l. k < length is \<and> l < length is \<and> is ! k \<noteq> is ! l \<and> (\<exists>a. vs ! k = Ref a) \<longrightarrow>
       vs ! k \<noteq> vs ! l)"

definition cdone :: "wrecord list \<Rightarrow> de_state \<Rightarrow> nat \<Rightarrow> bool" where
  "cdone W t i =
    (i < length W \<and>
     (\<exists>v. reg t (KIndex i) = Some v \<and>
       (case dclassify (W ! i) of
          DPrim p \<Rightarrow> v = p
        | DNew ob \<Rightarrow> \<exists>a. v = Ref a \<and> a < length (dheap t) \<and> dheap t ! a = ob
        | DEach ob put is \<Rightarrow>
            \<exists>a vs. v = Ref a \<and> a < length (dheap t) \<and> list_all2 (Rslot W t) is vs \<and> sep is vs \<and>
              puts put vs ob = Ok (dheap t ! a)
        | DEntries ob put ps \<Rightarrow>
            \<exists>a kvs. v = Ref a \<and> a < length (dheap t) \<and>
              list_all2 (\<lambda>p kv. Rslot W t (fst p) (fst kv) \<and> Rslot W t (snd p) (snd kv)) ps kvs \<and>
              sep (map fst ps) (map fst kvs) \<and> puts2 put kvs ob = Ok (dheap t ! a)
        | _ \<Rightarrow> False)))"

definition dinv :: "wrecord list \<Rightarrow> de_state \<Rightarrow> bool" where
  "dinv W t =
    ((\<forall>i v. reg t (KIndex i) = Some v \<longrightarrow>
        i < length W \<and> valid (dheap t) v \<and> (\<forall>a. v = Ref a \<longrightarrow> \<not> is_buf (dheap t ! a))) \<and>
     (\<forall>i j a. reg t (KIndex i) = Some (Ref a) \<and> reg t (KIndex j) = Some (Ref a) \<longrightarrow> i = j))"

definition dkeeps_on :: "nat set \<Rightarrow> de_state \<Rightarrow> de_state \<Rightarrow> bool" where
  "dkeeps_on A t t' =
    ((\<forall>j v. reg t (KIndex j) = Some v \<longrightarrow> reg t' (KIndex j) = Some v) \<and>
     length (dheap t) \<le> length (dheap t') \<and>
     (\<forall>b<length (dheap t). b \<notin> A \<longrightarrow> dheap t' ! b = dheap t ! b) \<and>
     (\<forall>b\<in>A. b < length (dheap t) \<longrightarrow> \<not> is_buf (dheap t ! b) \<and> \<not> is_buf (dheap t' ! b)))"

definition drec_ok :: "wrecord list \<Rightarrow> (nat \<Rightarrow> de_state \<Rightarrow> (val \<times> de_state) result) \<Rightarrow> bool" where
  "drec_ok W rec =
    (\<forall>i t v t'. dinv W t \<longrightarrow> rec i t = Ok (v, t') \<longrightarrow>
       dinv W t' \<and> dkeeps_on {} t t' \<and> Rslot W t' i v \<and> valid (dheap t') v \<and>
       (reg t' (KIndex i) = Some v \<or> (\<exists>a. v = Ref a \<and> length (dheap t) \<le> a)) \<and>
       (\<forall>j. reg t (KIndex j) = None \<longrightarrow> reg t' (KIndex j) \<noteq> None \<longrightarrow>
          cdone W t' j \<and> (\<forall>a. reg t' (KIndex j) = Some (Ref a) \<longrightarrow> length (dheap t) \<le> a)))"

definition unreg :: "wrecord list \<Rightarrow> de_state \<Rightarrow> nat set" where
  "unreg W t = {i. i < length W \<and> reg t (KIndex i) = None}"

definition pdone :: "wrecord list \<Rightarrow> de_state \<Rightarrow> bool" where
  "pdone W t = (\<forall>j v p. reg t (KIndex j) = Some v \<longrightarrow> dclassify (W ! j) = DPrim p \<longrightarrow> v = p)"

definition fine :: "bool \<Rightarrow> 'a result \<Rightarrow> bool" where
  "fine g r = (r \<noteq> OutOfFuel \<and> (g \<longrightarrow> (\<forall>e. r \<noteq> Throw e)))"

definition drec_fine ::
  "wrecord list \<Rightarrow> bool \<Rightarrow> nat \<Rightarrow> (nat \<Rightarrow> de_state \<Rightarrow> (val \<times> de_state) result) \<Rightarrow> bool" where
  "drec_fine W g n rec =
    (\<forall>i t. dinv W t \<longrightarrow> (g \<longrightarrow> pdone W t) \<longrightarrow> card (unreg W t) < n \<longrightarrow>
       fine (g \<and> i < length W) (rec i t))"

definition strkey :: "wrecord list \<Rightarrow> nat \<Rightarrow> bool" where
  "strkey W j = (\<exists>key. dclassify (W ! j) = DPrim (Str key) \<and> key \<noteq> ''__proto__'')"

definition wgood :: "wrecord list \<Rightarrow> bool" where
  "wgood W =
    (\<forall>i<length W.
      case dclassify (W ! i) of
        DRaise e \<Rightarrow> False
      | DEach ob put js \<Rightarrow> \<forall>j\<in>set js. j < length W
      | DEntries ob put ps \<Rightarrow>
          \<forall>p\<in>set ps. fst p < length W \<and> snd p < length W \<and>
            (fst (W ! i) = NumTag OBJECT \<longrightarrow> strkey W (fst p))
      | _ \<Rightarrow> True)"

definition expect_obj :: "heap \<Rightarrow> (val \<Rightarrow> nat option) \<Rightarrow> obj \<Rightarrow> dshape" where
  "expect_obj h m ob =
    (case ob of
      ArrayO xs \<Rightarrow> DEach (ArrayO []) array_push (map (slot m) xs)
    | ObjectO props tj \<Rightarrow>
        DEntries (ObjectO [] None) set_prop
          (map (\<lambda>kv. (slot m (fst kv), slot m (snd kv))) (entries_of props))
    | DateO t \<Rightarrow> (case t of Some d \<Rightarrow> DNew (DateO (Some d)) | None \<Rightarrow> DRaise Unmodelled)
    | RegExpO source flags \<Rightarrow> DNew (RegExpO source flags)
    | MapO kvs \<Rightarrow>
        DEntries (MapO []) map_set (map (\<lambda>kv. (slot m (fst kv), slot m (snd kv))) kvs)
    | SetO xs \<Rightarrow> DEach (SetO []) set_add (map (slot m) xs)
    | ErrorO name message \<Rightarrow> DNew (ErrorO ''Error'' message)
    | BooleanO b \<Rightarrow> DNew (BooleanO b)
    | NumberO n \<Rightarrow> DNew (NumberO n)
    | StringO str \<Rightarrow> DNew (StringO str)
    | BigIntO b \<Rightarrow> DNew (BigIntO b)
    | TypedArrayO k xs \<Rightarrow> DNew (TypedArrayO k (map (ta_conv k) xs))
    | ArrayBufferO bytes \<Rightarrow> DBuffer bytes
    | DataViewO b off len \<Rightarrow>
        (case h ! b of ArrayBufferO bytes \<Rightarrow> DView bytes | _ \<Rightarrow> DRaise Unmodelled))"

definition vok :: "heap \<Rightarrow> val \<Rightarrow> bool" where
  "vok h v = (valid h v \<and> \<not> is_fs v)"

definition good_obj :: "heap \<Rightarrow> obj \<Rightarrow> bool" where
  "good_obj h ob =
    (case ob of
      ArrayO xs \<Rightarrow> list_all (vok h) xs
    | ObjectO props tj \<Rightarrow>
        distinct (map fst props) \<and> ''__proto__'' \<notin> set (map fst props) \<and>
        list_all (vok h) (map snd props)
    | DateO t \<Rightarrow> t \<noteq> None
    | MapO kvs \<Rightarrow>
        distinct (map fst kvs) \<and> list_all (vok h) (map fst kvs) \<and> list_all (vok h) (map snd kvs)
    | SetO xs \<Rightarrow> distinct xs \<and> list_all (vok h) xs
    | ErrorO name message \<Rightarrow> name = ''Error''
    | TypedArrayO k xs \<Rightarrow> list_all (\<lambda>x. ta_conv k x = x) xs
    | DataViewO b off len \<Rightarrow>
        b < length h \<and> (case h ! b of ArrayBufferO bytes \<Rightarrow> True | _ \<Rightarrow> False)
    | _ \<Rightarrow> True)"

definition good :: "heap \<Rightarrow> val \<Rightarrow> bool" where
  "good h v =
    (vok h v \<and> (\<forall>a. reach h v (Ref a) \<longrightarrow> a < length h \<longrightarrow> good_obj h (h ! a)))"

definition related_obj :: "(val \<Rightarrow> val \<Rightarrow> bool) \<Rightarrow> heap \<Rightarrow> heap \<Rightarrow> obj \<Rightarrow> obj \<Rightarrow> bool" where
  "related_obj R h H ob ob' =
    (case ob of
      ArrayO xs \<Rightarrow> \<exists>ys. ob' = ArrayO ys \<and> list_all2 R xs ys
    | ObjectO props tj \<Rightarrow>
        \<exists>props'. ob' = ObjectO props' None \<and> map fst props' = map fst props \<and>
          list_all2 R (map snd props) (map snd props')
    | MapO kvs \<Rightarrow>
        \<exists>kvs'. ob' = MapO kvs' \<and>
          list_all2 (\<lambda>kv kv'. R (fst kv) (fst kv') \<and> R (snd kv) (snd kv')) kvs kvs'
    | SetO xs \<Rightarrow> \<exists>ys. ob' = SetO ys \<and> list_all2 R xs ys
    | DataViewO b off len \<Rightarrow>
        \<exists>b' bytes. ob' = DataViewO b' 0 (length bytes) \<and> b < length h \<and>
          h ! b = ArrayBufferO bytes \<and> b' < length H \<and> H ! b' = ArrayBufferO bytes
    | _ \<Rightarrow> ob' = ob)"

definition simulation :: "(val \<Rightarrow> val \<Rightarrow> bool) \<Rightarrow> heap \<Rightarrow> heap \<Rightarrow> bool" where
  "simulation R h H =
    (\<forall>x y. R x y \<longrightarrow>
      (case x of
        Ref a \<Rightarrow> a < length h \<and> (\<exists>b. y = Ref b \<and> b < length H \<and> related_obj R h H (h ! a) (H ! b))
      | _ \<Rightarrow> y = x))"

definition clone_of :: "heap \<Rightarrow> val \<Rightarrow> heap \<Rightarrow> val \<Rightarrow> bool" where
  "clone_of h v H r = (\<exists>R. R v r \<and> simulation R h H)"

definition encoded :: "heap \<Rightarrow> ser_state \<Rightarrow> bool" where
  "encoded h s =
    (sinv s \<and> (\<forall>a. ids s (Ref a) \<noteq> None \<longrightarrow> a < length h \<longrightarrow> good_obj h (h ! a)) \<and>
     (\<forall>x. ids s x \<noteq> None \<longrightarrow> done_at h True False s x))"

definition decoded :: "wrecord list \<Rightarrow> de_state \<Rightarrow> bool" where
  "decoded W t = (dinv W t \<and> (\<forall>j. reg t (KIndex j) \<noteq> None \<longrightarrow> cdone W t j))"

definition corr :: "ser_state \<Rightarrow> de_state \<Rightarrow> val \<Rightarrow> val \<Rightarrow> bool" where
  "corr s t x y = (\<exists>i. ids s x = Some i \<and> Rslot (recs s) t i y)"

definition h_ex :: heap where
  "h_ex =
    [ObjectO [(''self'', Ref 0), (''list'', Ref 1), (''when'', Ref 2), (''m'', Ref 3), (''s'', Ref 4),
              (''again'', Ref 1)] None,
     ArrayO [Num 1, Str ''x'', BigInt 10, Undefined, Null],
     DateO (Some 5),
     MapO [(Num 1, Str ''a'')],
     SetO [Bool True, Ref 0]]"

definition W_ex :: "wrecord list" where
  "W_ex =
    [(NumTag 2, PPairs [(1, 0), (2, 3), (9, 10), (11, 12), (14, 15), (17, 3)]),
     (NumTag 0, PVal (Str ''self'')), (NumTag 0, PVal (Str ''list'')),
     (NumTag 1, PSlots [4, 5, 6, 7, 8]), (NumTag 0, PVal (Num 1)),
     (NumTag 0, PVal (Str ''x'')), (NumTag 8, PVal (Str ''10'')),
     (NumTag (- 1), PNone), (NumTag 0, PVal Null),
     (NumTag 0, PVal (Str ''when'')), (NumTag 3, PIso 5),
     (NumTag 0, PVal (Str ''m'')), (NumTag 5, PPairs [(4, 13)]),
     (NumTag 0, PVal (Str ''a'')), (NumTag 0, PVal (Str ''s'')),
     (NumTag 6, PSlots [16, 0]), (NumTag 0, PVal (Bool True)),
     (NumTag 0, PVal (Str ''again''))]"

definition h_self :: heap where
  "h_self = [ObjectO [(''self'', Ref 0)] None]"

definition W_self :: "wrecord list" where
  "W_self = [(NumTag 2, PPairs [(1, 0)]), (NumTag 0, PVal (Str ''self''))]"

definition no_toJSON :: "heap \<Rightarrow> val \<Rightarrow> bool" where
  "no_toJSON h v =
    (\<forall>a props r. reach h v (Ref a) \<longrightarrow> a < length h \<longrightarrow> h ! a \<noteq> ObjectO props (Some r))"

definition rec_ok3 :: "heap \<Rightarrow> (val \<Rightarrow> ser_state \<Rightarrow> (nat \<times> ser_state) result) \<Rightarrow> bool" where
  "rec_ok3 h rec =
    (\<forall>v s i s' x. rec v s = Ok (i, s') \<longrightarrow> ids s x = None \<longrightarrow> ids s' x \<noteq> None \<longrightarrow> reach h v x)"

definition h_map :: heap where
  "h_map = [MapO [(Num 1, Str ''a'')]]"

definition W_map :: "wrecord list" where
  "W_map = [(NumTag MAP, PPairs [(1, 2)]), (NumTag PRIMITIVE, PVal (Num 1)),
            (NumTag PRIMITIVE, PVal (Str ''a''))]"

definition J_map :: jsonv where
  "J_map =
    JArr [JArr [JNum 5, JArr [JArr [JNum 1, JNum 2]]], JArr [JNum 0, JNum 1],
          JArr [JNum 0, JStr ''a'']]"






definition h_view :: heap where
  "h_view = [DataViewO 1 1 1, ArrayBufferO [1, 2, 3]]"

definition h_loop :: heap where
  "h_loop = [ObjectO [(''self'', Ref 0)] (Some (Ref 0))]"

definition h_fn_date :: heap where
  "h_fn_date = [ArrayO [Func 0, Ref 1], DateO None]"

definition h_set_fn :: heap where
  "h_set_fn = [SetO [Num 1, Func 0, Num 2]]"

section \<open>Properties\<close>

lemmas tag_defs =
  VOID_def PRIMITIVE_def ARRAY_def OBJECT_def DATE_def REGEXP_def MAP_def SET_def ERROR_def
  BIGINT_def EMPTY_def

declare digits.simps [simp del]

subsection \<open>Decimal strings are read back\<close>

lemma less_10_cases:
  "d < 10 \<Longrightarrow> d = 0 \<or> d = 1 \<or> d = 2 \<or> d = 3 \<or> d = 4 \<or> d = 5 \<or> d = 6 \<or> d = 7 \<or> d = 8 \<or> d = (9::nat)"
  by arith

lemma digit_val_digit_char: "d < 10 \<Longrightarrow> digit_val (digit_char d) = Some d"
  using less_10_cases [of d] by (auto simp: digit_val_def digit_char_def)

lemma parse_digits_snoc:
  "parse_digits acc (xs @ [c]) =
    (case parse_digits acc xs of None \<Rightarrow> None
     | Some m \<Rightarrow> (case digit_val c of None \<Rightarrow> None | Some d \<Rightarrow> Some (10 * m + d)))"
  by (induction xs arbitrary: acc) (auto split: option.splits)

lemma parse_digits_digits: "parse_digits 0 (digits n) = Some n"
proof (induction n rule: digits.induct)
  case (1 n)
  show ?case
  proof (cases "n < 10")
    case True
    then show ?thesis by (simp add: digits.simps [of n] digit_val_digit_char)
  next
    case False
    with "1" have "parse_digits 0 (digits (n div 10)) = Some (n div 10)" by simp
    with False show ?thesis
      by (simp add: digits.simps [of n] parse_digits_snoc digit_val_digit_char)
  qed
qed

lemma digits_not_Nil: "digits n \<noteq> []"
  by (subst digits.simps) simp

lemma of_char_digit_char: "d < 10 \<Longrightarrow> (of_char (digit_char d) :: nat) = 48 + d"
  using less_10_cases [of d] by (auto simp: digit_char_def)

lemma digit_char_not_sign: "d < 10 \<Longrightarrow> digit_char d \<noteq> CHR ''-'' \<and> digit_char d \<noteq> CHR ''+''"
proof
  assume d: "d < 10"
  show "digit_char d \<noteq> CHR ''-''"
  proof
    assume "digit_char d = CHR ''-''"
    then have "(of_char (digit_char d) :: nat) = of_char (CHR ''-'')" by simp
    with d show False by (simp add: of_char_digit_char)
  qed
  show "digit_char d \<noteq> CHR ''+''"
  proof
    assume "digit_char d = CHR ''+''"
    then have "(of_char (digit_char d) :: nat) = of_char (CHR ''+'')" by simp
    with d show False by (simp add: of_char_digit_char)
  qed
qed

lemma hd_digits: "\<exists>d<10. hd (digits n) = digit_char d"
proof (induction n rule: digits.induct)
  case (1 n)
  show ?case
  proof (cases "n < 10")
    case True
    then show ?thesis by (auto simp: digits.simps [of n])
  next
    case False
    with "1" show ?thesis
      by (simp add: digits.simps [of n] digits_not_Nil)
  qed
qed

lemma string_to_bigint_digits: "string_to_bigint (digits n) = Ok (int n)"
proof -
  obtain c cs where eq: "digits n = c # cs" using digits_not_Nil [of n] by (cases "digits n") auto
  obtain d where d: "d < 10" "hd (digits n) = digit_char d" using hd_digits [of n] by auto
  with eq have "c \<noteq> CHR ''-''" "c \<noteq> CHR ''+''" using digit_char_not_sign [of d] by auto
  with eq parse_digits_digits [of n] show ?thesis
    by (simp add: string_to_bigint_def)
qed

lemma string_to_bigint_toString: "string_to_bigint (bigint_toString b) = Ok b"
proof (cases "b < 0")
  case True
  then show ?thesis
    using parse_digits_digits [of "nat (- b)"] digits_not_Nil [of "nat (- b)"]
    by (simp add: bigint_toString_def string_to_bigint_def)
next
  case False
  then show ?thesis by (simp add: bigint_toString_def string_to_bigint_digits)
qed


subsection \<open>Big integers\<close>

lemma as_s_simp:
  "as_s r v s = (length (recs s), \<lparr>ids = (ids s)(v \<mapsto> length (recs s)), recs = recs s @ [r]\<rparr>)"
  by (simp add: as_s_def Let_def)

text \<open>
  Claim C8. For every big integer \<open>b\<close>, \<^verbatim>\<open>serialize\<close> writes the single record
  tagged \<open>BIGINT\<close> whose payload is the decimal string of \<open>b\<close>, \<^verbatim>\<open>deserialize\<close>
  of that sequence is \<open>b\<close> itself, and inside a graph \<^verbatim>\<open>pair\<close> pushes the same record
  when it first meets \<open>b\<close>.
\<close>

theorem bigint_roundtrip:
  "serialize (Suc n) h (BigInt b) opts = Ok [(NumTag BIGINT, PVal (Str (bigint_toString b)))] \<and>
   deserialize (Suc m) [(NumTag BIGINT, PVal (Str (bigint_toString b)))] = Ok (BigInt b, []) \<and>
   (ids s (BigInt b) = None \<longrightarrow>
      pair (Suc n) h strict js (BigInt b) s =
        Ok (as_s (NumTag BIGINT, PVal (Str (bigint_toString b))) (BigInt b) s))"
  by (simp add: serialize_def deserialize_def pair_body_def unpair_body_def valid_def typeOf_def
      as_s_simp as_d_def tag_defs string_to_bigint_toString)

text \<open>The instance \<^verbatim>\<open>10n\<close>.\<close>

theorem bigint_roundtrip_witness:
  "serialize 1 [] (BigInt 10) no_options = Ok [(NumTag 8, PVal (Str ''10''))] \<and>
   deserialize 1 [(NumTag 8, PVal (Str ''10''))] = Ok (BigInt 10, []) \<and>
   pair 1 [] True False (BigInt 10) \<lparr>ids = Map.empty, recs = []\<rparr> =
     Ok (0, \<lparr>ids = [BigInt 10 \<mapsto> 0], recs = [(NumTag 8, PVal (Str ''10''))]\<rparr>)"
  using bigint_roundtrip [of 0 "[]" 10 no_options 0 "\<lparr>ids = Map.empty, recs = []\<rparr>" True False]
  by (simp add: bigint_toString_def digits.simps digit_char_def BIGINT_def as_s_simp)

subsection \<open>Shared buffers\<close>

text \<open>
  Claim C2, at the input \<^verbatim>\<open>{a: buf, b: buf}\<close> with one ArrayBuffer \<^verbatim>\<open>buf\<close>: the
  serializer gives the buffer one slot, and the deserializer, which registers a decoded
  buffer under its payload and not under its slot, builds it again at each reference. The
  two properties of the result hold two different buffers.
\<close>

theorem shared_buffer_decoded_twice:
  "rbind (serialize 2 [ObjectO [(''a'', Ref 1), (''b'', Ref 1)] None, ArrayBufferO [1, 2]]
            (Ref 0) no_options) (deserialize 2) =
   Ok (Ref 0, [ObjectO [(''a'', Ref 1), (''b'', Ref 2)] None, ArrayBufferO [1, 2], ArrayBufferO [1, 2]])"
  by code_simp


subsection \<open>DataView and ArrayBuffer\<close>

lemma alloc_simp: "alloc ob t = (length (dheap t), t\<lparr>dheap := dheap t @ [ob]\<rparr>)"
  by (simp add: alloc_def)

text \<open>
  Claim C9. \<^verbatim>\<open>pair\<close> writes for a DataView the record tagged \<^verbatim>\<open>DataView\<close> whose
  payload is the byte list of its whole buffer, whatever the offset and the length of the
  view, and for an ArrayBuffer the record tagged \<^verbatim>\<open>ArrayBuffer\<close> with its bytes;
  \<^verbatim>\<open>unpair\<close> of such a record allocates a new buffer with exactly those bytes, and for
  a DataView a new view on it.
\<close>

theorem buffer_records:
  "(a < length h \<and> h ! a = DataViewO b off len \<and> b < length h \<and> h ! b = ArrayBufferO bytes \<and>
      ids s (Ref a) = None \<longrightarrow>
      pair (Suc n) h strict js (Ref a) s =
        Ok (as_s (StrTag ''DataView'', PItems (map uint bytes)) (Ref a) s)) \<and>
   (a < length h \<and> h ! a = ArrayBufferO bytes \<and> ids s (Ref a) = None \<longrightarrow>
      pair (Suc n) h strict js (Ref a) s =
        Ok (as_s (StrTag ''ArrayBuffer'', PItems (map uint bytes)) (Ref a) s)) \<and>
   (i < length wire \<and> wire ! i = (StrTag ''DataView'', PItems (map uint bytes)) \<and>
      reg t (KIndex i) = None \<longrightarrow>
      unpair (Suc m) wire i t =
        Ok (Ref (Suc (length (dheap t))),
            \<lparr>reg = (reg t)(KPayload i \<mapsto> Ref (Suc (length (dheap t)))),
             dheap = dheap t @ [ArrayBufferO bytes, DataViewO (length (dheap t)) 0 (length bytes)]\<rparr>)) \<and>
   (i < length wire \<and> wire ! i = (StrTag ''ArrayBuffer'', PItems (map uint bytes)) \<and>
      reg t (KIndex i) = None \<longrightarrow>
      unpair (Suc m) wire i t =
        Ok (Ref (length (dheap t)),
            \<lparr>reg = (reg t)(KPayload i \<mapsto> Ref (length (dheap t))),
             dheap = dheap t @ [ArrayBufferO bytes]\<rparr>))"
proof (intro conjI impI)
  assume "a < length h \<and> h ! a = DataViewO b off len \<and> b < length h \<and> h ! b = ArrayBufferO bytes \<and>
      ids s (Ref a) = None"
  then show "pair (Suc n) h strict js (Ref a) s =
        Ok (as_s (StrTag ''DataView'', PItems (map uint bytes)) (Ref a) s)"
    by (simp add: pair_body_def valid_def typeOf_def tag_defs spread_def deref_def)
next
  assume "a < length h \<and> h ! a = ArrayBufferO bytes \<and> ids s (Ref a) = None"
  then show "pair (Suc n) h strict js (Ref a) s =
        Ok (as_s (StrTag ''ArrayBuffer'', PItems (map uint bytes)) (Ref a) s)"
    by (simp add: pair_body_def valid_def typeOf_def tag_defs spread_def deref_def)
next
  assume "i < length wire \<and> wire ! i = (StrTag ''DataView'', PItems (map uint bytes)) \<and>
      reg t (KIndex i) = None"
  then show "unpair (Suc m) wire i t =
        Ok (Ref (Suc (length (dheap t))),
            \<lparr>reg = (reg t)(KPayload i \<mapsto> Ref (Suc (length (dheap t)))),
             dheap = dheap t @ [ArrayBufferO bytes, DataViewO (length (dheap t)) 0 (length bytes)]\<rparr>)"
    by (simp add: unpair_body_def tag_defs alloc_simp as_d_def comp_def)
next
  assume "i < length wire \<and> wire ! i = (StrTag ''ArrayBuffer'', PItems (map uint bytes)) \<and>
      reg t (KIndex i) = None"
  then show "unpair (Suc m) wire i t =
        Ok (Ref (length (dheap t)),
            \<lparr>reg = (reg t)(KPayload i \<mapsto> Ref (length (dheap t))),
             dheap = dheap t @ [ArrayBufferO bytes]\<rparr>)"
    by (simp add: unpair_body_def tag_defs alloc_simp as_d_def comp_def)
qed

subsection \<open>toJSON in json mode\<close>

text \<open>
  Claim C6 as stated fails on a Date. \<^verbatim>\<open>Date.prototype.toJSON\<close> returns a string, and
  the record that json mode writes for a Date is the encoding of no string.
\<close>

theorem date_not_collapsed:
  "\<not> (\<exists>str. serialize 1 [DateO (Some 0)] (Ref 0) \<lparr>json = True, lossy = False\<rparr> =
            serialize 1 [DateO (Some 0)] (Str str) \<lparr>json = True, lossy = False\<rparr>)"
  by (simp add: serialize_def pair_body_def valid_def typeOf_def tag_defs deref_def as_s_simp)


text \<open>A view of one byte on a buffer of three, and the buffer itself.\<close>

theorem buffer_records_witness:
  "pair 1 [DataViewO 1 1 1, ArrayBufferO [1, 2, 3]] True False (Ref 0) \<lparr>ids = Map.empty, recs = []\<rparr> =
     Ok (0, \<lparr>ids = [Ref 0 \<mapsto> 0], recs = [(StrTag ''DataView'', PItems [1, 2, 3])]\<rparr>) \<and>
   pair 1 [DataViewO 1 1 1, ArrayBufferO [1, 2, 3]] True False (Ref 1) \<lparr>ids = Map.empty, recs = []\<rparr> =
     Ok (0, \<lparr>ids = [Ref 1 \<mapsto> 0], recs = [(StrTag ''ArrayBuffer'', PItems [1, 2, 3])]\<rparr>) \<and>
   unpair 1 [(StrTag ''DataView'', PItems [1, 2, 3])] 0 \<lparr>reg = Map.empty, dheap = []\<rparr> =
     Ok (Ref 1, \<lparr>reg = [KPayload 0 \<mapsto> Ref 1],
                 dheap = [ArrayBufferO [1, 2, 3], DataViewO 0 0 3]\<rparr>) \<and>
   unpair 1 [(StrTag ''ArrayBuffer'', PItems [1, 2, 3])] 0 \<lparr>reg = Map.empty, dheap = []\<rparr> =
     Ok (Ref 0, \<lparr>reg = [KPayload 0 \<mapsto> Ref 0], dheap = [ArrayBufferO [1, 2, 3]]\<rparr>)"
  using
    buffer_records [of 0 "[DataViewO 1 1 1, ArrayBufferO [1, 2, 3]]" 1 1 1 "[1, 2, 3]"
      "\<lparr>ids = Map.empty, recs = []\<rparr>" 0 True False 0
      "[(StrTag ''DataView'', PItems [1, 2, 3])]" "\<lparr>reg = Map.empty, dheap = []\<rparr>" 0]
    buffer_records [of 1 "[DataViewO 1 1 1, ArrayBufferO [1, 2, 3]]" 1 1 1 "[1, 2, 3]"
      "\<lparr>ids = Map.empty, recs = []\<rparr>" 0 True False 0
      "[(StrTag ''ArrayBuffer'', PItems [1, 2, 3])]" "\<lparr>reg = Map.empty, dheap = []\<rparr>" 0]
  by (simp add: as_s_simp)

lemma shouldSkip_typeOf: "shouldSkip (typeOf h v) = is_fs v"
  by (cases v) (auto simp: shouldSkip_def typeOf_def Let_def tag_defs)

lemma ta_name_neq:
  "ta_name k \<noteq> ''DataView''" "ta_name k \<noteq> ''ArrayBuffer''" "ta_name k \<noteq> []"
  by (cases k; simp)+

lemma typeOf_Ref:
  "typeOf h (Ref a) =
    (case h ! a of
      ArrayO xs \<Rightarrow> (ARRAY, EMPTY)
    | ObjectO props tj \<Rightarrow> (OBJECT, EMPTY)
    | DateO t \<Rightarrow> (DATE, EMPTY)
    | RegExpO source flags \<Rightarrow> (REGEXP, EMPTY)
    | MapO kvs \<Rightarrow> (MAP, EMPTY)
    | SetO xs \<Rightarrow> (SET, EMPTY)
    | ErrorO name message \<Rightarrow> (ERROR, ''Error'')
    | BooleanO b \<Rightarrow> (OBJECT, ''Boolean'')
    | NumberO n \<Rightarrow> (OBJECT, ''Number'')
    | StringO str \<Rightarrow> (OBJECT, ''String'')
    | BigIntO b \<Rightarrow> (OBJECT, ''BigInt'')
    | TypedArrayO k xs \<Rightarrow> (ARRAY, ta_name k)
    | ArrayBufferO bytes \<Rightarrow> (ARRAY, ''ArrayBuffer'')
    | DataViewO b off len \<Rightarrow> (ARRAY, ''DataView''))"
proof (cases "h ! a")
  case (TypedArrayO k xs)
  then show ?thesis by (cases k) (simp_all add: typeOf_def tag_defs)
qed (simp_all add: typeOf_def tag_defs)

lemma typeOf_prim: "\<not> (\<exists>a. v = Ref a) \<Longrightarrow> typeOf h v = (PRIMITIVE, typeof v)"
  by (cases v) (simp_all add: typeOf_def)

lemma pair_body_classify_obj:
  assumes "a < length h" "ids s (Ref a) = None"
  shows "pair_body rec h strict js (Ref a) s =
    run_shape rec (Ref a) s (classify_obj h strict js (h ! a))"
  using assms
  by (cases "h ! a")
    (auto simp add: pair_body_def valid_def typeOf_Ref classify_obj_def run_shape_def
        spread_def deref_def tag_defs as_s_simp shouldSkip_typeOf entries_of_def ta_name_neq
        split: option.splits obj.splits)

lemma pair_body_classify:
  "pair_body rec h strict js v s =
    (case ids s v of Some i \<Rightarrow> Ok (i, s) | None \<Rightarrow> run_shape rec v s (classify h strict js v))"
proof (cases "ids s v")
  case None
  show ?thesis
  proof (cases v)
    case (Ref a)
    with None show ?thesis
      using pair_body_classify_obj [of a h s rec strict js]
      by (cases "a < length h") (auto simp: classify_def pair_body_def valid_def run_shape_def)
  qed (use None in \<open>auto simp: pair_body_def valid_def typeOf_prim classify_def run_shape_def tag_defs as_s_simp\<close>)
qed (simp add: pair_body_def)

lemma keeps_refl: "keeps s s"
  by (simp add: keeps_def)

lemma keeps_but_refl: "keeps_but index s s"
  by (simp add: keeps_but_def)

lemma keeps_imp_but: "keeps s s' \<Longrightarrow> keeps_but index s s'"
  by (simp add: keeps_def keeps_but_def)

lemma keeps_but_trans: "keeps_but index s s1 \<Longrightarrow> keeps_but index s1 s2 \<Longrightarrow> keeps_but index s s2"
  unfolding keeps_but_def by (auto intro: map_le_trans)

lemma keeps_trans: "keeps s s1 \<Longrightarrow> keeps s1 s2 \<Longrightarrow> keeps s s2"
  unfolding keeps_def by (auto intro: map_le_trans)

lemma rbind_Ok_iff: "rbind m f = Ok y \<longleftrightarrow> (\<exists>x. m = Ok x \<and> f x = Ok y)"
  by (cases m) auto

lemma wf_wire_iff:
  "wf_wire rs \<longleftrightarrow> (\<forall>j<length rs. \<forall>i\<in>set (slots_of (snd (rs ! j))). i < length rs)"
  by (auto simp: wf_wire_def list_all_iff all_set_conv_all_nth)

lemma sinv_as_s:
  assumes "sinv s" "ids s v = None" "slots_of (snd r) = []" "json_safe r"
  shows "sinv (snd (as_s r v s))"
proof -
  have inj: "inj_on ((ids s)(v \<mapsto> length (recs s))) (insert v (dom (ids s)))"
  proof (rule inj_onI)
    fix x y
    assume x: "x \<in> insert v (dom (ids s))" and y: "y \<in> insert v (dom (ids s))"
      and eq: "((ids s)(v \<mapsto> length (recs s))) x = ((ids s)(v \<mapsto> length (recs s))) y"
    from assms(1) have rng: "\<And>z i. ids s z = Some i \<Longrightarrow> i < length (recs s)"
      and inj0: "inj_on (ids s) (dom (ids s))"
      by (auto simp: sinv_def)
    show "x = y"
    proof (cases "x = v")
      case True
      with eq rng [of y "length (recs s)"] show ?thesis by (cases "y = v") (auto dest: sym)
    next
      case False
      with eq rng [of x "length (recs s)"] x have yv: "y \<noteq> v" by (cases "y = v") auto
      with False x y eq inj0 show ?thesis by (auto dest: inj_onD)
    qed
  qed
  from assms have "wf_wire (recs s @ [r])"
    by (fastforce simp: sinv_def wf_wire_def list_all_iff less_Suc_eq)
  moreover have "\<forall>i<length (recs s @ [r]). \<exists>x. ((ids s)(v \<mapsto> length (recs s))) x = Some i"
  proof (intro allI impI)
    fix i assume "i < length (recs s @ [r])"
    then consider "i < length (recs s)" | "i = length (recs s)" by fastforce
    then show "\<exists>x. ((ids s)(v \<mapsto> length (recs s))) x = Some i"
    proof cases
      case 1
      with assms(1) obtain x where "ids s x = Some i" by (auto simp: sinv_def)
      with assms(2) show ?thesis by (intro exI [of _ x]) auto
    next
      case 2
      then show ?thesis by (intro exI [of _ v]) simp
    qed
  qed
  ultimately show ?thesis
    using assms inj by (auto simp: sinv_def as_s_simp less_Suc_eq)
qed

lemma keeps_as_s: "ids s v = None \<Longrightarrow> keeps s (snd (as_s r v s))"
  by (auto simp: keeps_def as_s_simp map_le_def nth_append)

lemma push_slot_ids [simp]: "ids (push_slot index i s) = ids s"
  by (auto simp: push_slot_def split: prod.splits payload.splits)

lemma push_pair_ids [simp]: "ids (push_pair index p s) = ids s"
  by (auto simp: push_pair_def split: prod.splits payload.splits)

lemma push_slot_length [simp]: "length (recs (push_slot index i s)) = length (recs s)"
  by (auto simp: push_slot_def split: prod.splits payload.splits)

lemma push_pair_length [simp]: "length (recs (push_pair index p s)) = length (recs s)"
  by (auto simp: push_pair_def split: prod.splits payload.splits)

lemma push_slot_other: "j \<noteq> index \<Longrightarrow> recs (push_slot index i s) ! j = recs s ! j"
  by (auto simp: push_slot_def split: prod.splits payload.splits)

lemma push_pair_other: "j \<noteq> index \<Longrightarrow> recs (push_pair index p s) ! j = recs s ! j"
  by (auto simp: push_pair_def split: prod.splits payload.splits)

lemma push_slot_at:
  "index < length (recs s) \<Longrightarrow> recs s ! index = (t, PSlots xs) \<Longrightarrow>
   recs (push_slot index i s) ! index = (t, PSlots (xs @ [i]))"
  by (simp add: push_slot_def)

lemma push_pair_at:
  "index < length (recs s) \<Longrightarrow> recs s ! index = (t, PPairs ps) \<Longrightarrow>
   recs (push_pair index p s) ! index = (t, PPairs (ps @ [p]))"
  by (simp add: push_pair_def)

lemma keeps_but_push_slot: "keeps_but index s (push_slot index i s)"
  by (simp add: keeps_but_def push_slot_other)

lemma keeps_but_push_pair: "keeps_but index s (push_pair index p s)"
  by (simp add: keeps_but_def push_pair_other)

lemma sinv_push_slot:
  assumes "sinv s" "i < length (recs s)" and True: "index < length (recs s)"
  shows "sinv (push_slot index i s)"
proof -
  obtain t p where r: "recs s ! index = (t, p)" by (cases "recs s ! index")
  show ?thesis
  proof (cases p)
    case (PSlots xs)
    with r True have eq: "recs (push_slot index i s) = (recs s)[index := (t, PSlots (xs @ [i]))]"
      by (simp add: push_slot_def)
    from assms(1) have safe: "json_safe (recs s ! index)" and wf: "wf_wire (recs s)"
      using True by (auto simp: sinv_def list_all_length)
    have "wf_wire ((recs s)[index := (t, PSlots (xs @ [i]))])"
      unfolding wf_wire_iff
    proof (intro allI impI ballI)
      fix j k
      assume j: "j < length ((recs s)[index := (t, PSlots (xs @ [i]))])"
        and k: "k \<in> set (slots_of (snd ((recs s)[index := (t, PSlots (xs @ [i]))] ! j)))"
      show "k < length ((recs s)[index := (t, PSlots (xs @ [i]))])"
      proof (cases "j = index")
        case True
        with j k r PSlots wf assms(2) show ?thesis
          by (auto simp: wf_wire_iff dest!: spec [of _ index])
      next
        case False
        with j k wf show ?thesis by (auto simp: wf_wire_iff)
      qed
    qed
    moreover have "list_all json_safe ((recs s)[index := (t, PSlots (xs @ [i]))])"
      using assms(1) safe r PSlots True
      by (auto simp: sinv_def list_all_length nth_list_update)
    ultimately show ?thesis using assms(1) eq by (simp add: sinv_def)
  qed (use r assms in \<open>auto simp: push_slot_def sinv_def\<close>)
qed

lemma sinv_push_pair:
  assumes "sinv s" "fst p < length (recs s)" "snd p < length (recs s)"
    and True: "index < length (recs s)"
  shows "sinv (push_pair index p s)"
proof -
  obtain t q where r: "recs s ! index = (t, q)" by (cases "recs s ! index")
  show ?thesis
  proof (cases q)
    case (PPairs ps)
    with r True have eq: "recs (push_pair index p s) = (recs s)[index := (t, PPairs (ps @ [p]))]"
      by (simp add: push_pair_def)
    from assms(1) have safe: "json_safe (recs s ! index)" and wf: "wf_wire (recs s)"
      using True by (auto simp: sinv_def list_all_length)
    have "wf_wire ((recs s)[index := (t, PPairs (ps @ [p]))])"
      unfolding wf_wire_iff
    proof (intro allI impI ballI)
      fix j k
      assume j: "j < length ((recs s)[index := (t, PPairs (ps @ [p]))])"
        and k: "k \<in> set (slots_of (snd ((recs s)[index := (t, PPairs (ps @ [p]))] ! j)))"
      show "k < length ((recs s)[index := (t, PPairs (ps @ [p]))])"
      proof (cases "j = index")
        case True
        with j k r PPairs wf assms(2,3) show ?thesis
          by (force simp: wf_wire_iff dest!: spec [of _ index])
      next
        case False
        with j k wf show ?thesis by (auto simp: wf_wire_iff)
      qed
    qed
    moreover have "list_all json_safe ((recs s)[index := (t, PPairs (ps @ [p]))])"
      using assms(1) safe r PPairs True
      by (auto simp: sinv_def list_all_length nth_list_update)
    ultimately show ?thesis using assms(1) eq by (simp add: sinv_def)
  qed (use r assms in \<open>auto simp: push_pair_def sinv_def\<close>)
qed

lemma keeps_length: "keeps s s' \<Longrightarrow> length (recs s) \<le> length (recs s')"
  by (simp add: keeps_def)

lemma keeps_but_length: "keeps_but index s s' \<Longrightarrow> length (recs s) \<le> length (recs s')"
  by (simp add: keeps_but_def)

lemma pair_each_ok1:
  assumes "rec_ok1 rec"
  shows "sinv s \<Longrightarrow> index < length (recs s) \<Longrightarrow> pair_each rec keep index xs s = Ok s' \<Longrightarrow>
    sinv s' \<and> keeps_but index s s'"
proof (induction xs arbitrary: s)
  case Nil
  then show ?case by (simp add: keeps_but_refl)
next
  case (Cons x xs)
  show ?case
  proof (cases "keep x")
    case False
    with Cons show ?thesis by simp
  next
    case True
    with Cons.prems obtain i s1 where r: "rec x s = Ok (i, s1)"
      and rest: "pair_each rec keep index xs (push_slot index i s1) = Ok s'"
      by (auto simp: rbind_Ok_iff)
    from assms r Cons.prems(1) have s1: "sinv s1" "keeps s s1" "i < length (recs s1)"
      by (auto simp: rec_ok1_def)
    from s1(2) Cons.prems(2) have idx: "index < length (recs s1)"
      by (auto dest: keeps_length)
    from s1 idx have "sinv (push_slot index i s1)" by (simp add: sinv_push_slot)
    with Cons.IH [OF _ _ rest] idx
    have "sinv s'" "keeps_but index (push_slot index i s1) s'" by auto
    with s1(2) show ?thesis
      by (blast intro: keeps_but_trans keeps_imp_but keeps_but_push_slot)
  qed
qed

lemma pair_entries_ok1:
  assumes "rec_ok1 rec"
  shows "sinv s \<Longrightarrow> index < length (recs s) \<Longrightarrow> pair_entries rec keep index kvs s = Ok s' \<Longrightarrow>
    sinv s' \<and> keeps_but index s s'"
proof (induction kvs arbitrary: s)
  case Nil
  then show ?case by (simp add: keeps_but_refl)
next
  case (Cons kv kvs)
  show ?case
  proof (cases "keep (fst kv) (snd kv)")
    case False
    with Cons show ?thesis by simp
  next
    case True
    with Cons.prems obtain k s1 e s2 where r1: "rec (fst kv) s = Ok (k, s1)"
      and r2: "rec (snd kv) s1 = Ok (e, s2)"
      and rest: "pair_entries rec keep index kvs (push_pair index (k, e) s2) = Ok s'"
      by (auto simp: rbind_Ok_iff)
    from assms r1 Cons.prems(1) have s1: "sinv s1" "keeps s s1" "k < length (recs s1)"
      by (auto simp: rec_ok1_def)
    from assms r2 s1(1) have s2: "sinv s2" "keeps s1 s2" "e < length (recs s2)"
      by (auto simp: rec_ok1_def)
    from s1 s2 Cons.prems(2) have idx: "index < length (recs s2)" and k: "k < length (recs s2)"
      by (auto dest!: keeps_length)
    from s2 idx k have "sinv (push_pair index (k, e) s2)" by (simp add: sinv_push_pair)
    with Cons.IH [OF _ _ rest] idx
    have "sinv s'" "keeps_but index (push_pair index (k, e) s2) s'" by auto
    with s1(2) s2(2) show ?thesis
      by (blast intro: keeps_but_trans keeps_imp_but keeps_but_push_pair)
  qed
qed

lemma classify_obj_Leaf_safe:
  "classify_obj h strict js ob = Leaf r \<Longrightarrow> slots_of (snd r) = [] \<and> json_safe r"
  by (cases ob) (auto simp: classify_obj_def tag_defs split: if_splits obj.splits option.splits)

lemma classify_Leaf_safe:
  "classify h strict js v = Leaf r \<Longrightarrow> slots_of (snd r) = [] \<and> json_safe r"
  by (cases v) (auto simp: classify_def tag_defs dest: classify_obj_Leaf_safe split: if_splits)

lemma classify_Each_tag:
  "classify h strict js v = Each t keep xs \<Longrightarrow> t = NumTag ARRAY \<or> t = NumTag SET"
proof (cases v)
  case (Ref a)
  assume "classify h strict js v = Each t keep xs"
  with Ref have "classify_obj h strict js (h ! a) = Each t keep xs"
    by (simp add: classify_def split: if_splits)
  then show ?thesis
    by (cases "h ! a") (auto simp: classify_obj_def split: if_splits obj.splits option.splits)
qed (auto simp: classify_def split: if_splits)

lemma classify_Entries_tag:
  "classify h strict js v = Entries t keep kvs \<Longrightarrow> t = NumTag OBJECT \<or> t = NumTag MAP"
proof (cases v)
  case (Ref a)
  assume "classify h strict js v = Entries t keep kvs"
  with Ref have "classify_obj h strict js (h ! a) = Entries t keep kvs"
    by (simp add: classify_def split: if_splits)
  then show ?thesis
    by (cases "h ! a") (auto simp: classify_obj_def split: if_splits obj.splits option.splits)
qed (auto simp: classify_def split: if_splits)

lemma keeps_but_new:
  assumes "keeps s s1" "keeps_but (length (recs s)) s1 s2"
  shows "keeps s s2"
proof -
  from assms have "ids s \<subseteq>\<^sub>m ids s2"
    unfolding keeps_def keeps_but_def by (blast intro: map_le_trans)
  moreover from assms have "length (recs s) \<le> length (recs s2)"
    unfolding keeps_def keeps_but_def by linarith
  moreover have "recs s2 ! j = recs s ! j" if "j < length (recs s)" for j
  proof -
    from that assms(1) have "j < length (recs s1)" "recs s1 ! j = recs s ! j"
      by (auto simp: keeps_def)
    moreover from that assms(2) this(1) have "recs s2 ! j = recs s1 ! j"
      by (simp add: keeps_but_def)
    ultimately show ?thesis by simp
  qed
  ultimately show ?thesis by (simp add: keeps_def)
qed

lemma pair_body_ok1:
  assumes "rec_ok1 rec"
  shows "rec_ok1 (pair_body rec h strict js)"
  unfolding rec_ok1_def
proof (intro allI impI)
  fix v s i s'
  assume inv: "sinv s" and run: "pair_body rec h strict js v s = Ok (i, s')"
  show "sinv s' \<and> keeps s s' \<and> i < length (recs s')"
  proof (cases "ids s v")
    case (Some j)
    with inv run show ?thesis by (auto simp: pair_body_classify keeps_refl sinv_def)
  next
    case None
    with run have run': "run_shape rec v s (classify h strict js v) = Ok (i, s')"
      by (simp add: pair_body_classify)
    show ?thesis
    proof (cases "classify h strict js v")
      case (Leaf r)
      with run' have "s' = snd (as_s r v s)" "i = length (recs s)"
        by (auto simp: run_shape_def as_s_simp)
      moreover from inv None classify_Leaf_safe [OF Leaf] have "sinv (snd (as_s r v s))"
        by (simp add: sinv_as_s)
      moreover from None have "keeps s (snd (as_s r v s))" by (rule keeps_as_s)
      moreover have "length (recs s) < length (recs (snd (as_s r v s)))"
        by (simp add: as_s_simp)
      ultimately show ?thesis by simp
    next
      case (Raise e)
      with run' show ?thesis by (simp add: run_shape_def)
    next
      case (Collapse r)
      with run' assms inv show ?thesis by (auto simp: run_shape_def rec_ok1_def)
    next
      case (Each t keep xs)
      let ?s1 = "snd (as_s (t, PSlots []) v s)"
      from Each run' have loop: "pair_each rec keep (length (recs s)) xs ?s1 = Ok s'"
        and i: "i = length (recs s)"
        by (auto simp: run_shape_def rbind_Ok_iff)
      from classify_Each_tag [OF Each] inv None have s1: "sinv ?s1"
        by (auto intro!: sinv_as_s)
      have "length (recs s) < length (recs ?s1)" by (simp add: as_s_simp)
      from pair_each_ok1 [OF assms s1 this loop]
      have "sinv s'" "keeps_but (length (recs s)) ?s1 s'" by auto
      moreover from this(2) have "length (recs ?s1) \<le> length (recs s')"
        by (rule keeps_but_length)
      moreover have "keeps s s'"
        using keeps_as_s [OF None] calculation(2) by (rule keeps_but_new)
      ultimately show ?thesis
        using i by (simp add: as_s_simp)
    next
      case (Entries t keep kvs)
      let ?s1 = "snd (as_s (t, PPairs []) v s)"
      from Entries run' have loop: "pair_entries rec keep (length (recs s)) kvs ?s1 = Ok s'"
        and i: "i = length (recs s)"
        by (auto simp: run_shape_def rbind_Ok_iff)
      from classify_Entries_tag [OF Entries] inv None have s1: "sinv ?s1"
        by (auto intro!: sinv_as_s)
      have "length (recs s) < length (recs ?s1)" by (simp add: as_s_simp)
      from pair_entries_ok1 [OF assms s1 this loop]
      have "sinv s'" "keeps_but (length (recs s)) ?s1 s'" by auto
      moreover from this(2) have "length (recs ?s1) \<le> length (recs s')"
        by (rule keeps_but_length)
      moreover have "keeps s s'"
        using keeps_as_s [OF None] calculation(2) by (rule keeps_but_new)
      ultimately show ?thesis
        using i by (simp add: as_s_simp)
    qed
  qed
qed

lemma pair_ok1: "rec_ok1 (pair n h strict js)"
proof (induction n)
  case 0
  show ?case by (simp add: rec_ok1_def)
next
  case (Suc n)
  then show ?case by (simp add: pair_body_ok1)
qed

lemma sinv_empty: "sinv \<lparr>ids = Map.empty, recs = []\<rparr>"
  by (simp add: sinv_def wf_wire_def)

lemma pair_first_slot:
  "recs s = [] \<Longrightarrow> ids s = Map.empty \<Longrightarrow> pair n h strict js v s = Ok (i, s') \<Longrightarrow> i = 0"
proof (induction n arbitrary: v)
  case 0
  then show ?case by simp
next
  case (Suc n)
  from Suc.prems have run: "run_shape (pair n h strict js) v s (classify h strict js v) = Ok (i, s')"
    by (simp add: pair_body_classify)
  show ?case
  proof (cases "classify h strict js v")
    case (Collapse r)
    with run Suc.IH [of r] Suc.prems show ?thesis by (simp add: run_shape_def)
  qed (use run Suc.prems in \<open>auto simp: run_shape_def as_s_simp rbind_Ok_iff\<close>)
qed

lemma keeps_but_ids: "keeps_but index s s' \<Longrightarrow> ids s x = Some i \<Longrightarrow> ids s' x = Some i"
  by (auto simp: keeps_but_def map_le_def dom_def)

lemma keeps_ids: "keeps s s' \<Longrightarrow> ids s x = Some i \<Longrightarrow> ids s' x = Some i"
  by (auto simp: keeps_def map_le_def dom_def)


lemma pair_sinv:
  assumes "sinv s" "pair n h strict js v s = Ok (i, s')"
  shows "sinv s'" "keeps s s'" "i < length (recs s')"
  using pair_ok1 [of n h strict js] assms unfolding rec_ok1_def by blast+



subsection \<open>Errors of the serializer\<close>

lemma rbind_Throw_iff: "rbind m f = Throw e \<longleftrightarrow> m = Throw e \<or> (\<exists>x. m = Ok x \<and> f x = Throw e)"
  by (cases m) auto

lemma rbind_OutOfFuel_iff:
  "rbind m f = OutOfFuel \<longleftrightarrow> m = OutOfFuel \<or> (\<exists>x. m = Ok x \<and> f x = OutOfFuel)"
  by (cases m) auto

lemma pair_each_Throw:
  "pair_each rec keep index xs s = Throw e \<Longrightarrow> \<exists>x\<in>set xs. \<exists>s0. keep x \<and> rec x s0 = Throw e"
proof (induction xs arbitrary: s)
  case Nil
  then show ?case by simp
next
  case (Cons x xs)
  then show ?case
    by (fastforce simp: rbind_Throw_iff split: if_splits)
qed

lemma pair_entries_Throw:
  "pair_entries rec keep index kvs s = Throw e \<Longrightarrow>
   \<exists>kv\<in>set kvs. \<exists>s0. keep (fst kv) (snd kv) \<and> (rec (fst kv) s0 = Throw e \<or> rec (snd kv) s0 = Throw e)"
proof (induction kvs arbitrary: s)
  case Nil
  then show ?case by simp
next
  case (Cons kv kvs)
  then show ?case
    by (fastforce simp: rbind_Throw_iff split: if_splits)
qed

lemma pair_Throw_classify:
  "pair n h strict js v s = Throw e \<Longrightarrow> \<exists>x. classify h strict js x = Raise e"
proof (induction n arbitrary: v s)
  case 0
  then show ?case by simp
next
  case (Suc n)
  show ?case
  proof (cases "ids s v")
    case (Some j)
    with Suc.prems show ?thesis by (simp add: pair_body_classify)
  next
    case None
    with Suc.prems
    have run: "run_shape (pair n h strict js) v s (classify h strict js v) = Throw e"
      by (simp add: pair_body_classify)
    show ?thesis
    proof (cases "classify h strict js v")
      case (Leaf r)
      with run show ?thesis by (simp add: run_shape_def)
    next
      case (Raise e')
      with run show ?thesis by (auto simp: run_shape_def)
    next
      case (Collapse r)
      with run Suc.IH show ?thesis by (auto simp: run_shape_def)
    next
      case (Each t keep xs)
      with run have "pair_each (pair n h strict js) keep (length (recs s)) xs
          (snd (as_s (t, PSlots []) v s)) = Throw e"
        by (auto simp: run_shape_def rbind_Throw_iff)
      from pair_each_Throw [OF this] Suc.IH show ?thesis by blast
    next
      case (Entries t keep kvs)
      with run have "pair_entries (pair n h strict js) keep (length (recs s)) kvs
          (snd (as_s (t, PPairs []) v s)) = Throw e"
        by (auto simp: run_shape_def rbind_Throw_iff)
      from pair_entries_Throw [OF this] Suc.IH show ?thesis by blast
    qed
  qed
qed

lemma classify_obj_Raise_not_tns: "classify_obj h strict js ob = Raise e \<Longrightarrow> \<not> tns e"
  by (cases ob) (auto simp: classify_obj_def tns_def split: if_splits obj.splits option.splits)

lemma classify_Raise_tns: "classify h strict js x = Raise e \<Longrightarrow> tns e \<Longrightarrow> strict \<and> is_fs x"
  by (cases x)
    (auto simp: classify_def tns_def dest: classify_obj_Raise_not_tns [unfolded tns_def]
      split: if_splits)

lemma pair_relaxed_no_tns: "pair n h False js v s = Throw e \<Longrightarrow> \<not> tns e"
  using pair_Throw_classify [of n h False js v s e] classify_Raise_tns [of h False js _ e]
  by blast

subsection \<open>Reachable values\<close>

lemma reach_trans_aux: "reach h x y \<Longrightarrow> reach h v x \<Longrightarrow> reach h v y"
  by (induction rule: reach.induct) (auto intro: reach.intros)

lemma reach_trans: "reach h v x \<Longrightarrow> reach h x y \<Longrightarrow> reach h v y"
  by (rule reach_trans_aux)

lemma classify_Each_children:
  assumes "classify h strict js v = Each t keep xs"
  shows "\<exists>a. v = Ref a \<and> a < length h \<and> children (h ! a) = xs"
proof (cases v)
  case (Ref a)
  with assms have a: "a < length h" and c: "classify_obj h strict js (h ! a) = Each t keep xs"
    by (auto simp: classify_def split: if_splits)
  from c have "children (h ! a) = xs"
    by (cases "h ! a") (auto simp: classify_obj_def split: if_splits obj.splits option.splits)
  with Ref a show ?thesis by simp
qed (use assms in \<open>auto simp: classify_def split: if_splits\<close>)

lemma classify_Entries_children:
  assumes "classify h strict js v = Entries t keep kvs"
  shows "\<exists>a. v = Ref a \<and> a < length h \<and> children (h ! a) = pairs_flat kvs"
proof (cases v)
  case (Ref a)
  with assms have a: "a < length h" and c: "classify_obj h strict js (h ! a) = Entries t keep kvs"
    by (auto simp: classify_def split: if_splits)
  from c have "children (h ! a) = pairs_flat kvs"
    by (cases "h ! a") (auto simp: classify_obj_def split: if_splits obj.splits option.splits)
  with Ref a show ?thesis by simp
qed (use assms in \<open>auto simp: classify_def split: if_splits\<close>)

lemma set_pairs_flat: "set (pairs_flat kvs) = fst ` set kvs \<union> snd ` set kvs"
  by (induction kvs) (auto simp: pairs_flat_def)

lemma reach_Each:
  "classify h strict js v = Each t keep xs \<Longrightarrow> reach h r v \<Longrightarrow> x \<in> set xs \<Longrightarrow> reach h r x"
  using classify_Each_children [of h strict js v t keep xs] by (auto intro: reach_child)

lemma reach_Entries:
  "classify h strict js v = Entries t keep kvs \<Longrightarrow> reach h r v \<Longrightarrow> kv \<in> set kvs \<Longrightarrow>
   reach h r (fst kv) \<and> reach h r (snd kv)"
  using classify_Entries_children [of h strict js v t keep kvs]
  by (auto intro!: reach_child [of h r _ "fst kv"] reach_child [of h r _ "snd kv"]
      simp: set_pairs_flat)

lemma classify_Collapse_js: "classify h strict js v = Collapse r \<Longrightarrow> js"
  by (cases v) (auto simp: classify_def classify_obj_def split: if_splits obj.splits option.splits)

lemma pair_Throw_reach:
  "pair n h strict False v s = Throw e \<Longrightarrow> \<exists>x. reach h v x \<and> classify h strict False x = Raise e"
proof (induction n arbitrary: v s)
  case 0
  then show ?case by simp
next
  case (Suc n)
  show ?case
  proof (cases "ids s v")
    case (Some j)
    with Suc.prems show ?thesis by (simp add: pair_body_classify)
  next
    case None
    with Suc.prems
    have run: "run_shape (pair n h strict False) v s (classify h strict False v) = Throw e"
      by (simp add: pair_body_classify)
    show ?thesis
    proof (cases "classify h strict False v")
      case (Leaf r)
      with run show ?thesis by (simp add: run_shape_def)
    next
      case (Raise e')
      with run show ?thesis by (auto simp: run_shape_def intro: reach_root)
    next
      case (Collapse r)
      then show ?thesis by (auto dest: classify_Collapse_js)
    next
      case (Each t keep xs)
      with run have "pair_each (pair n h strict False) keep (length (recs s)) xs
          (snd (as_s (t, PSlots []) v s)) = Throw e"
        by (auto simp: run_shape_def rbind_Throw_iff)
      from pair_each_Throw [OF this] obtain x s0 where x: "x \<in> set xs"
        and "pair n h strict False x s0 = Throw e" by blast
      from Suc.IH [OF this(2)] obtain y where "reach h x y" "classify h strict False y = Raise e"
        by blast
      with reach_Each [OF Each reach_root x] show ?thesis by (blast intro: reach_trans)
    next
      case (Entries t keep kvs)
      with run have "pair_entries (pair n h strict False) keep (length (recs s)) kvs
          (snd (as_s (t, PPairs []) v s)) = Throw e"
        by (auto simp: run_shape_def rbind_Throw_iff)
      from pair_entries_Throw [OF this] obtain kv s0 where kv: "kv \<in> set kvs"
        and "pair n h strict False (fst kv) s0 = Throw e \<or> pair n h strict False (snd kv) s0 = Throw e"
        by blast
      with Suc.IH obtain y where "reach h (fst kv) y \<or> reach h (snd kv) y"
        "classify h strict False y = Raise e"
        by blast
      with reach_Entries [OF Entries reach_root kv] show ?thesis by (blast intro: reach_trans)
    qed
  qed
qed

subsection \<open>More fuel changes no result\<close>

lemma fuel_le_refl: "fuel_le rec rec"
  by (simp add: fuel_le_def)

lemma pair_each_mono:
  assumes "fuel_le rec rec'"
  shows "pair_each rec keep index xs s \<noteq> OutOfFuel \<Longrightarrow>
    pair_each rec' keep index xs s = pair_each rec keep index xs s"
proof (induction xs arbitrary: s)
  case Nil
  then show ?case by simp
next
  case (Cons x xs)
  show ?case
  proof (cases "keep x")
    case False
    with Cons show ?thesis by simp
  next
    case True
    with Cons.prems have ne: "rec x s \<noteq> OutOfFuel" by (auto simp: rbind_OutOfFuel_iff)
    with assms have eq: "rec' x s = rec x s" by (simp add: fuel_le_def)
    show ?thesis
    proof (cases "rec x s")
      case (Ok r)
      obtain i s1 where r: "r = (i, s1)" by (cases r)
      with Ok True Cons.prems have "pair_each rec keep index xs (push_slot index i s1) \<noteq> OutOfFuel"
        by simp
      from Cons.IH [OF this] Ok r eq True show ?thesis by simp
    qed (use ne eq True in simp_all)
  qed
qed

lemma pair_entries_mono:
  assumes "fuel_le rec rec'"
  shows "pair_entries rec keep index kvs s \<noteq> OutOfFuel \<Longrightarrow>
    pair_entries rec' keep index kvs s = pair_entries rec keep index kvs s"
proof (induction kvs arbitrary: s)
  case Nil
  then show ?case by simp
next
  case (Cons kv kvs)
  show ?case
  proof (cases "keep (fst kv) (snd kv)")
    case False
    with Cons show ?thesis by simp
  next
    case True
    with Cons.prems have ne: "rec (fst kv) s \<noteq> OutOfFuel" by (auto simp: rbind_OutOfFuel_iff)
    with assms have eq: "rec' (fst kv) s = rec (fst kv) s" by (simp add: fuel_le_def)
    show ?thesis
    proof (cases "rec (fst kv) s")
      case (Ok r)
      obtain k s1 where r: "r = (k, s1)" by (cases r)
      with Ok True Cons.prems have ne2: "rec (snd kv) s1 \<noteq> OutOfFuel"
        by (auto simp: rbind_OutOfFuel_iff)
      with assms have eq2: "rec' (snd kv) s1 = rec (snd kv) s1" by (simp add: fuel_le_def)
      show ?thesis
      proof (cases "rec (snd kv) s1")
        case (Ok r2)
        obtain e s2 where r2: "r2 = (e, s2)" by (cases r2)
        with Ok \<open>rec (fst kv) s = Ok r\<close> r True Cons.prems
        have "pair_entries rec keep index kvs (push_pair index (k, e) s2) \<noteq> OutOfFuel"
          by simp
        from Cons.IH [OF this] Ok r2 \<open>rec (fst kv) s = Ok r\<close> r eq eq2 True show ?thesis by simp
      qed (use ne2 eq eq2 \<open>rec (fst kv) s = Ok r\<close> r True in simp_all)
    qed (use ne eq True in simp_all)
  qed
qed

lemma pair_body_mono:
  assumes "fuel_le rec rec'"
  shows "fuel_le (pair_body rec h strict js) (pair_body rec' h strict js)"
  unfolding fuel_le_def
proof (intro allI impI)
  fix v s
  assume ne: "pair_body rec h strict js v s \<noteq> OutOfFuel"
  show "pair_body rec' h strict js v s = pair_body rec h strict js v s"
  proof (cases "ids s v")
    case (Some j)
    then show ?thesis by (simp add: pair_body_classify)
  next
    case None
    with ne have ne': "run_shape rec v s (classify h strict js v) \<noteq> OutOfFuel"
      by (simp add: pair_body_classify)
    have "run_shape rec' v s (classify h strict js v) = run_shape rec v s (classify h strict js v)"
    proof (cases "classify h strict js v")
      case (Collapse r)
      with ne' assms show ?thesis by (simp add: run_shape_def fuel_le_def)
    next
      case (Each t keep xs)
      with ne' have "pair_each rec keep (length (recs s)) xs (snd (as_s (t, PSlots []) v s)) \<noteq> OutOfFuel"
        by (auto simp: run_shape_def rbind_OutOfFuel_iff)
      from pair_each_mono [OF assms this] Each show ?thesis by (simp add: run_shape_def)
    next
      case (Entries t keep kvs)
      with ne' have "pair_entries rec keep (length (recs s)) kvs (snd (as_s (t, PPairs []) v s)) \<noteq> OutOfFuel"
        by (auto simp: run_shape_def rbind_OutOfFuel_iff)
      from pair_entries_mono [OF assms this] Entries show ?thesis by (simp add: run_shape_def)
    qed (simp_all add: run_shape_def)
    with None show ?thesis by (simp add: pair_body_classify)
  qed
qed

lemma pair_mono_Suc: "fuel_le (pair n h strict js) (pair (Suc n) h strict js)"
proof (induction n)
  case 0
  show ?case by (simp add: fuel_le_def)
next
  case (Suc n)
  from pair_body_mono [OF Suc] show ?case by simp
qed

lemma pair_mono:
  "n \<le> m \<Longrightarrow> pair n h strict js v s \<noteq> OutOfFuel \<Longrightarrow> pair m h strict js v s = pair n h strict js v s"
proof (induction m)
  case 0
  then show ?case by simp
next
  case (Suc m)
  show ?case
  proof (cases "n = Suc m")
    case False
    with Suc have eq: "pair m h strict js v s = pair n h strict js v s" by simp
    with Suc.prems(2) pair_mono_Suc [of m h strict js] show ?thesis
      by (simp add: fuel_le_def del: pair.simps)
  qed simp
qed

subsection \<open>Termination of the serializer\<close>

lemma reach_in_heap:
  "reach h v x \<Longrightarrow> x \<in> insert v (\<Union>ob\<in>set h. set (children ob))"
  by (induction rule: reach.induct) (auto intro: nth_mem)

lemma finite_reach: "finite {x. reach h v x}"
proof (rule finite_subset)
  show "{x. reach h v x} \<subseteq> insert v (\<Union>ob\<in>set h. set (children ob))"
    using reach_in_heap by blast
  show "finite (insert v (\<Union>ob\<in>set h. set (children ob)))" by simp
qed

lemma keeps_dom: "keeps s s' \<Longrightarrow> dom (ids s) \<subseteq> dom (ids s')"
  by (auto simp: keeps_def map_le_def dom_def)

lemma pair_each_terminates:
  assumes "rec_ok1 rec"
    and "\<And>x s'. x \<in> set xs \<Longrightarrow> sinv s' \<Longrightarrow> dom (ids s0) \<subseteq> dom (ids s') \<Longrightarrow> rec x s' \<noteq> OutOfFuel"
  shows "sinv s \<Longrightarrow> index < length (recs s) \<Longrightarrow> dom (ids s0) \<subseteq> dom (ids s) \<Longrightarrow>
    pair_each rec keep index xs s \<noteq> OutOfFuel"
  using assms(2)
proof (induction xs arbitrary: s)
  case Nil
  then show ?case by simp
next
  case (Cons x xs)
  show ?case
  proof (cases "keep x")
    case False
    with Cons show ?thesis by simp
  next
    case True
    from Cons.prems have ne: "rec x s \<noteq> OutOfFuel" by simp
    show ?thesis
    proof (cases "rec x s")
      case (Ok r)
      obtain i s1 where r: "r = (i, s1)" by (cases r)
      from assms(1) Ok r Cons.prems(1) have s1: "sinv s1" "keeps s s1" "i < length (recs s1)"
        by (auto simp: rec_ok1_def)
      from s1(2) Cons.prems(2) have idx: "index < length (recs s1)"
        by (auto dest: keeps_length)
      have "pair_each rec keep index xs (push_slot index i s1) \<noteq> OutOfFuel"
      proof (rule Cons.IH)
        show "sinv (push_slot index i s1)" using s1 idx by (simp add: sinv_push_slot)
        show "index < length (recs (push_slot index i s1))" using idx by simp
        show "dom (ids s0) \<subseteq> dom (ids (push_slot index i s1))"
          using keeps_dom [OF s1(2)] Cons.prems(3) by auto
        show "\<And>x s'. x \<in> set xs \<Longrightarrow> sinv s' \<Longrightarrow> dom (ids s0) \<subseteq> dom (ids s') \<Longrightarrow>
            rec x s' \<noteq> OutOfFuel"
          using Cons.prems(4) by simp
      qed
      with Ok r True show ?thesis by simp
    qed (use ne True in simp_all)
  qed
qed

lemma pair_entries_terminates:
  assumes "rec_ok1 rec"
    and "\<And>x s'. x \<in> fst ` set kvs \<union> snd ` set kvs \<Longrightarrow> sinv s' \<Longrightarrow>
          dom (ids s0) \<subseteq> dom (ids s') \<Longrightarrow> rec x s' \<noteq> OutOfFuel"
  shows "sinv s \<Longrightarrow> index < length (recs s) \<Longrightarrow> dom (ids s0) \<subseteq> dom (ids s) \<Longrightarrow>
    pair_entries rec keep index kvs s \<noteq> OutOfFuel"
  using assms(2)
proof (induction kvs arbitrary: s)
  case Nil
  then show ?case by simp
next
  case (Cons kv kvs)
  show ?case
  proof (cases "keep (fst kv) (snd kv)")
    case False
    with Cons show ?thesis by simp
  next
    case True
    from Cons.prems have ne: "rec (fst kv) s \<noteq> OutOfFuel" by simp
    show ?thesis
    proof (cases "rec (fst kv) s")
      case (Ok r)
      obtain k s1 where r: "r = (k, s1)" by (cases r)
      from assms(1) Ok r Cons.prems(1) have s1: "sinv s1" "keeps s s1" "k < length (recs s1)"
        by (auto simp: rec_ok1_def)
      from keeps_dom [OF s1(2)] Cons.prems(3) have d1: "dom (ids s0) \<subseteq> dom (ids s1)" by auto
      with Cons.prems(4) [of "snd kv" s1] s1(1) have ne2: "rec (snd kv) s1 \<noteq> OutOfFuel" by simp
      show ?thesis
      proof (cases "rec (snd kv) s1")
        case (Ok r2)
        obtain e s2 where r2: "r2 = (e, s2)" by (cases r2)
        from assms(1) Ok r2 s1(1) have s2: "sinv s2" "keeps s1 s2" "e < length (recs s2)"
          by (auto simp: rec_ok1_def)
        from s1(2,3) s2(2) Cons.prems(2) have idx: "index < length (recs s2)"
          and k: "k < length (recs s2)"
          by (auto dest!: keeps_length)
        have "pair_entries rec keep index kvs (push_pair index (k, e) s2) \<noteq> OutOfFuel"
        proof (rule Cons.IH)
          show "sinv (push_pair index (k, e) s2)" using s2 idx k by (simp add: sinv_push_pair)
          show "index < length (recs (push_pair index (k, e) s2))" using idx by simp
          show "dom (ids s0) \<subseteq> dom (ids (push_pair index (k, e) s2))"
            using keeps_dom [OF s2(2)] d1 by auto
          show "\<And>x s'. x \<in> fst ` set kvs \<union> snd ` set kvs \<Longrightarrow> sinv s' \<Longrightarrow>
              dom (ids s0) \<subseteq> dom (ids s') \<Longrightarrow> rec x s' \<noteq> OutOfFuel"
            using Cons.prems(4) by simp
        qed
        with Ok r2 \<open>rec (fst kv) s = Ok r\<close> r True show ?thesis by simp
      qed (use ne2 \<open>rec (fst kv) s = Ok r\<close> r True in simp_all)
    qed (use ne True in simp_all)
  qed
qed

lemma card_unregistered_less:
  assumes "reach h r v" "ids s v = None" "dom (ids s1) = insert v (dom (ids s))"
    "dom (ids s1) \<subseteq> dom (ids s')"
  shows "card ({x. reach h r x} - dom (ids s')) < card ({x. reach h r x} - dom (ids s))"
proof (rule psubset_card_mono)
  show "finite ({x. reach h r x} - dom (ids s))" using finite_reach by simp
  from assms show "{x. reach h r x} - dom (ids s') \<subset> {x. reach h r x} - dom (ids s)"
    by (auto simp: dom_def)
qed

lemma pair_terminates:
  "sinv s \<Longrightarrow> reach h r v \<Longrightarrow> nc h strict js r \<Longrightarrow>
   card ({x. reach h r x} - dom (ids s)) < n \<Longrightarrow> pair n h strict js v s \<noteq> OutOfFuel"
proof (induction n arbitrary: v s)
  case 0
  then show ?case by simp
next
  case (Suc n)
  show ?case
  proof (cases "ids s v")
    case (Some j)
    then show ?thesis by (simp add: pair_body_classify)
  next
    case None
    have "run_shape (pair n h strict js) v s (classify h strict js v) \<noteq> OutOfFuel"
    proof (cases "classify h strict js v")
      case (Collapse c)
      with Suc.prems(2,3) show ?thesis by (auto simp: nc_def)
    next
      case (Each t keep xs)
      let ?s1 = "snd (as_s (t, PSlots []) v s)"
      from classify_Each_tag [OF Each] Suc.prems(1) None have s1: "sinv ?s1"
        by (auto intro!: sinv_as_s)
      have d1: "dom (ids ?s1) = insert v (dom (ids s))" by (simp add: as_s_simp)
      have "pair_each (pair n h strict js) keep (length (recs s)) xs ?s1 \<noteq> OutOfFuel"
      proof (rule pair_each_terminates [OF pair_ok1 _ s1, of xs ?s1])
        show "length (recs s) < length (recs ?s1)" by (simp add: as_s_simp)
        show "dom (ids ?s1) \<subseteq> dom (ids ?s1)" by simp
        fix x s'
        assume x: "x \<in> set xs" and s': "sinv s'" and d: "dom (ids ?s1) \<subseteq> dom (ids s')"
        from card_unregistered_less [OF Suc.prems(2) None d1 d] Suc.prems(4)
        have "card ({x. reach h r x} - dom (ids s')) < n" by simp
        with Suc.IH [OF s' reach_Each [OF Each Suc.prems(2) x] Suc.prems(3)]
        show "pair n h strict js x s' \<noteq> OutOfFuel" by simp
      qed
      with Each show ?thesis by (auto simp: run_shape_def rbind_OutOfFuel_iff)
    next
      case (Entries t keep kvs)
      let ?s1 = "snd (as_s (t, PPairs []) v s)"
      from classify_Entries_tag [OF Entries] Suc.prems(1) None have s1: "sinv ?s1"
        by (auto intro!: sinv_as_s)
      have d1: "dom (ids ?s1) = insert v (dom (ids s))" by (simp add: as_s_simp)
      have "pair_entries (pair n h strict js) keep (length (recs s)) kvs ?s1 \<noteq> OutOfFuel"
      proof (rule pair_entries_terminates [OF pair_ok1 _ s1, of kvs ?s1])
        show "length (recs s) < length (recs ?s1)" by (simp add: as_s_simp)
        show "dom (ids ?s1) \<subseteq> dom (ids ?s1)" by simp
        fix x s'
        assume x: "x \<in> fst ` set kvs \<union> snd ` set kvs" and s': "sinv s'"
          and d: "dom (ids ?s1) \<subseteq> dom (ids s')"
        from card_unregistered_less [OF Suc.prems(2) None d1 d] Suc.prems(4)
        have c: "card ({x. reach h r x} - dom (ids s')) < n" by simp
        from x reach_Entries [OF Entries Suc.prems(2)] have "reach h r x" by auto
        from Suc.IH [OF s' this Suc.prems(3) c]
        show "pair n h strict js x s' \<noteq> OutOfFuel" .
      qed
      with Entries show ?thesis by (auto simp: run_shape_def rbind_OutOfFuel_iff)
    qed (simp_all add: run_shape_def)
    with None show ?thesis by (simp add: pair_body_classify)
  qed
qed

subsection \<open>What the serializer writes\<close>

lemma slot_Some [simp]: "m x = Some i \<Longrightarrow> slot m x = i"
  by (simp add: slot_def)

lemma enc_cong:
  assumes "\<And>c. c \<in> set (kept h strict js v) \<Longrightarrow> slot m' c = slot m c"
  shows "enc h strict js m' v = enc h strict js m v"
proof (cases "classify h strict js v")
  case (Each t keep xs)
  with assms show ?thesis by (simp add: enc_def kept_def)
next
  case (Entries t keep kvs)
  with assms have "\<And>kv. kv \<in> set kvs \<Longrightarrow> keep (fst kv) (snd kv) \<Longrightarrow>
      slot m' (fst kv) = slot m (fst kv) \<and> slot m' (snd kv) = slot m (snd kv)"
    by (auto simp: kept_def set_pairs_flat)
  with Entries show ?thesis by (simp add: enc_def)
qed (simp_all add: enc_def)

lemma done_at_keeps_but:
  assumes "done_at h strict js s x" "keeps_but index s s'" "ids s x \<noteq> Some index"
  shows "done_at h strict js s' x"
proof -
  from assms(1) obtain i where i: "ids s x = Some i" "i < length (recs s)"
    "recs s ! i = enc h strict js (ids s) x"
    and ch: "\<forall>c\<in>set (kept h strict js x). ids s c \<noteq> None"
    and cl: "\<forall>e. classify h strict js x \<noteq> Raise e" "\<forall>c. classify h strict js x \<noteq> Collapse c"
    by (auto simp: done_at_def)
  from i assms(2,3) have i': "ids s' x = Some i" "i < length (recs s')" "recs s' ! i = recs s ! i"
    by (auto simp: keeps_but_ids keeps_but_def)
  have same: "slot (ids s') c = slot (ids s) c" if "c \<in> set (kept h strict js x)" for c
  proof -
    from that ch obtain j where "ids s c = Some j" by auto
    with keeps_but_ids [OF assms(2) this] show ?thesis by simp
  qed
  then have "enc h strict js (ids s') x = enc h strict js (ids s) x" by (rule enc_cong)
  moreover from ch assms(2) have "\<forall>c\<in>set (kept h strict js x). ids s' c \<noteq> None"
    by (auto simp: keeps_but_ids)
  ultimately show ?thesis using i i' cl by (auto simp: done_at_def)
qed

lemma sinv_inj: "sinv s \<Longrightarrow> ids s x = Some i \<Longrightarrow> ids s y = Some i \<Longrightarrow> x = y"
  by (auto simp: sinv_def dest!: inj_onD [of "ids s" _ x y])

lemma keeps_nth: "keeps s s' \<Longrightarrow> j < length (recs s) \<Longrightarrow> recs s' ! j = recs s ! j"
  by (simp add: keeps_def)

lemma pair_each_ok2:
  assumes ok1: "rec_ok1 rec" and ok2: "rec_ok2 h strict js rec"
  shows "sinv s \<Longrightarrow> index < length (recs s) \<Longrightarrow> ids s p = Some index \<Longrightarrow>
    recs s ! index = (t, PSlots ds) \<Longrightarrow> \<forall>x\<in>set xs. nc h strict js x \<Longrightarrow>
    pair_each rec keep index xs s = Ok s' \<Longrightarrow>
    recs s' ! index = (t, PSlots (ds @ map (slot (ids s')) (filter keep xs))) \<and>
    (\<forall>x\<in>set (filter keep xs). ids s' x \<noteq> None) \<and>
    (\<forall>x. ids s x = None \<longrightarrow> ids s' x \<noteq> None \<longrightarrow> done_at h strict js s' x)"
proof (induction xs arbitrary: s ds)
  case Nil
  then show ?case by simp
next
  case (Cons x xs)
  show ?case
  proof (cases "keep x")
    case False
    with Cons.prems Cons.IH [of s ds] show ?thesis by simp
  next
    case True
    with Cons.prems obtain i s1 where r: "rec x s = Ok (i, s1)"
      and rest: "pair_each rec keep index xs (push_slot index i s1) = Ok s'"
      by (auto simp: rbind_Ok_iff)
    let ?s1' = "push_slot index i s1"
    from ok1 r Cons.prems(1) have s1: "sinv s1" "keeps s s1" "i < length (recs s1)"
      by (auto simp: rec_ok1_def)
    from ok2 r Cons.prems(1,5) have x1: "ids s1 x = Some i"
      and new1: "\<And>y. ids s y = None \<Longrightarrow> ids s1 y \<noteq> None \<Longrightarrow> done_at h strict js s1 y"
      by (auto simp: rec_ok2_def)
    from s1(2) Cons.prems(2) have idx: "index < length (recs s1)"
      by (auto dest: keeps_length)
    from keeps_nth [OF s1(2) Cons.prems(2)] Cons.prems(4)
    have at1: "recs s1 ! index = (t, PSlots ds)" by simp
    have inv1': "sinv ?s1'" using s1 idx by (simp add: sinv_push_slot)
    have p1: "ids ?s1' p = Some index" using keeps_ids [OF s1(2) Cons.prems(3)] by simp
    have at1': "recs ?s1' ! index = (t, PSlots (ds @ [i]))"
      using idx at1 by (rule push_slot_at)
    from Cons.prems(5) have ncs: "\<forall>x\<in>set xs. nc h strict js x" by simp
    from Cons.IH [OF inv1' _ p1 at1' ncs rest] idx
    have ih: "recs s' ! index = (t, PSlots ((ds @ [i]) @ map (slot (ids s')) (filter keep xs)))"
      "\<forall>x\<in>set (filter keep xs). ids s' x \<noteq> None"
      "\<And>y. ids ?s1' y = None \<Longrightarrow> ids s' y \<noteq> None \<Longrightarrow> done_at h strict js s' y"
      by auto
    from pair_each_ok1 [OF ok1 inv1' _ rest] idx have kb: "keeps_but index ?s1' s'" by simp
    have x': "ids s' x = Some i" using keeps_but_ids [OF kb] x1 by simp
    have "done_at h strict js s' y" if y: "ids s y = None" "ids s' y \<noteq> None" for y
    proof (cases "ids s1 y")
      case None
      with ih(3) [of y] y show ?thesis by simp
    next
      case (Some j)
      with new1 [OF y(1)] have d1: "done_at h strict js s1 y" by simp
      have ne: "ids s1 y \<noteq> Some index"
      proof
        assume "ids s1 y = Some index"
        with sinv_inj [OF s1(1) this] keeps_ids [OF s1(2) Cons.prems(3)] have "y = p" by simp
        with y(1) Cons.prems(3) show False by simp
      qed
      from done_at_keeps_but [OF d1 keeps_but_push_slot ne]
      have "done_at h strict js ?s1' y" .
      from done_at_keeps_but [OF this kb] ne show ?thesis by simp
    qed
    with ih(1,2) x' True show ?thesis by simp
  qed
qed

lemma pair_entries_ok2:
  assumes ok1: "rec_ok1 rec" and ok2: "rec_ok2 h strict js rec"
  shows "sinv s \<Longrightarrow> index < length (recs s) \<Longrightarrow> ids s p = Some index \<Longrightarrow>
    recs s ! index = (t, PPairs ds) \<Longrightarrow>
    \<forall>kv\<in>set kvs. nc h strict js (fst kv) \<and> nc h strict js (snd kv) \<Longrightarrow>
    pair_entries rec keep index kvs s = Ok s' \<Longrightarrow>
    recs s' ! index =
      (t, PPairs (ds @ map (\<lambda>kv. (slot (ids s') (fst kv), slot (ids s') (snd kv)))
                        (filter (\<lambda>kv. keep (fst kv) (snd kv)) kvs))) \<and>
    (\<forall>kv\<in>set (filter (\<lambda>kv. keep (fst kv) (snd kv)) kvs).
        ids s' (fst kv) \<noteq> None \<and> ids s' (snd kv) \<noteq> None) \<and>
    (\<forall>x. ids s x = None \<longrightarrow> ids s' x \<noteq> None \<longrightarrow> done_at h strict js s' x)"
proof (induction kvs arbitrary: s ds)
  case Nil
  then show ?case by simp
next
  case (Cons kv kvs)
  show ?case
  proof (cases "keep (fst kv) (snd kv)")
    case False
    with Cons.prems Cons.IH [of s ds] show ?thesis by simp
  next
    case True
    with Cons.prems obtain k s1 e s2 where r1: "rec (fst kv) s = Ok (k, s1)"
      and r2: "rec (snd kv) s1 = Ok (e, s2)"
      and rest: "pair_entries rec keep index kvs (push_pair index (k, e) s2) = Ok s'"
      by (auto simp: rbind_Ok_iff)
    let ?s2' = "push_pair index (k, e) s2"
    from ok1 r1 Cons.prems(1) have s1: "sinv s1" "keeps s s1" "k < length (recs s1)"
      by (auto simp: rec_ok1_def)
    from ok1 r2 s1(1) have s2: "sinv s2" "keeps s1 s2" "e < length (recs s2)"
      by (auto simp: rec_ok1_def)
    from ok2 r1 Cons.prems(1,5) have k1: "ids s1 (fst kv) = Some k"
      and new1: "\<And>y. ids s y = None \<Longrightarrow> ids s1 y \<noteq> None \<Longrightarrow> done_at h strict js s1 y"
      by (auto simp: rec_ok2_def)
    from ok2 r2 s1(1) Cons.prems(5) have e2: "ids s2 (snd kv) = Some e"
      and new2: "\<And>y. ids s1 y = None \<Longrightarrow> ids s2 y \<noteq> None \<Longrightarrow> done_at h strict js s2 y"
      by (auto simp: rec_ok2_def)
    have k02: "keeps s s2" using s1(2) s2(2) by (rule keeps_trans)
    from k02 Cons.prems(2) s1(3) s2(2) have idx: "index < length (recs s2)"
      and k: "k < length (recs s2)"
      by (auto dest!: keeps_length)
    from keeps_nth [OF k02 Cons.prems(2)] Cons.prems(4)
    have at2: "recs s2 ! index = (t, PPairs ds)" by simp
    have inv2': "sinv ?s2'" using s2 idx k by (simp add: sinv_push_pair)
    have p2: "ids s2 p = Some index" using keeps_ids [OF k02 Cons.prems(3)] .
    then have p2': "ids ?s2' p = Some index" by simp
    have at2': "recs ?s2' ! index = (t, PPairs (ds @ [(k, e)]))"
      using idx at2 by (rule push_pair_at)
    from Cons.prems(5)
    have ncs: "\<forall>kv\<in>set kvs. nc h strict js (fst kv) \<and> nc h strict js (snd kv)" by simp
    from Cons.IH [OF inv2' _ p2' at2' ncs rest] idx
    have ih: "recs s' ! index =
        (t, PPairs ((ds @ [(k, e)]) @ map (\<lambda>kv. (slot (ids s') (fst kv), slot (ids s') (snd kv)))
                        (filter (\<lambda>kv. keep (fst kv) (snd kv)) kvs)))"
      "\<forall>kv\<in>set (filter (\<lambda>kv. keep (fst kv) (snd kv)) kvs).
          ids s' (fst kv) \<noteq> None \<and> ids s' (snd kv) \<noteq> None"
      "\<And>y. ids ?s2' y = None \<Longrightarrow> ids s' y \<noteq> None \<Longrightarrow> done_at h strict js s' y"
      by auto
    from pair_entries_ok1 [OF ok1 inv2' _ rest] idx have kb: "keeps_but index ?s2' s'" by simp
    have k': "ids s' (fst kv) = Some k"
      using keeps_but_ids [OF kb] keeps_ids [OF s2(2) k1] by simp
    have e': "ids s' (snd kv) = Some e" using keeps_but_ids [OF kb] e2 by simp
    have "done_at h strict js s' y" if y: "ids s y = None" "ids s' y \<noteq> None" for y
    proof (cases "ids s2 y")
      case None
      with ih(3) [of y] y show ?thesis by simp
    next
      case (Some j)
      have ne: "ids s2 y \<noteq> Some index"
      proof
        assume "ids s2 y = Some index"
        with sinv_inj [OF s2(1) this p2] have "y = p" by simp
        with y(1) Cons.prems(3) show False by simp
      qed
      have d2: "done_at h strict js s2 y"
      proof (cases "ids s1 y")
        case None
        with new2 [of y] Some show ?thesis by simp
      next
        case (Some j1)
        with new1 [OF y(1)] have d1: "done_at h strict js s1 y" by simp
        from ne keeps_ids [OF s2(2)] Some have "ids s1 y \<noteq> Some index" by auto
        from done_at_keeps_but [OF d1 keeps_imp_but [OF s2(2)] this] show ?thesis .
      qed
      from done_at_keeps_but [OF d2 keeps_but_push_pair ne]
      have "done_at h strict js ?s2' y" .
      from done_at_keeps_but [OF this kb] ne show ?thesis by simp
    qed
    with ih(1,2) k' e' True show ?thesis by simp
  qed
qed

lemma nc_reach: "nc h strict js v \<Longrightarrow> reach h v x \<Longrightarrow> nc h strict js x"
  by (auto simp: nc_def intro: reach_trans)

lemma pair_body_ok2:
  assumes ok1: "rec_ok1 rec" and ok2: "rec_ok2 h strict js rec"
  shows "rec_ok2 h strict js (pair_body rec h strict js)"
  unfolding rec_ok2_def
proof (intro allI impI)
  fix v s i s'
  assume inv: "sinv s" and ncv: "nc h strict js v"
    and run: "pair_body rec h strict js v s = Ok (i, s')"
  let ?goal = "ids s' v = Some i \<and>
    (\<forall>x. ids s x = None \<longrightarrow> ids s' x \<noteq> None \<longrightarrow> done_at h strict js s' x)"
  show ?goal
  proof (cases "ids s v")
    case (Some j)
    with run show ?thesis by (auto simp: pair_body_classify)
  next
    case None
    with run have run': "run_shape rec v s (classify h strict js v) = Ok (i, s')"
      by (simp add: pair_body_classify)
    show ?thesis
    proof (cases "classify h strict js v")
      case (Leaf r)
      with run' have s': "s' = snd (as_s r v s)" and i: "i = length (recs s)"
        by (auto simp: run_shape_def as_s_simp)
      have "done_at h strict js s' v"
        using Leaf s' by (simp add: done_at_def as_s_simp enc_def kept_def)
      moreover have "ids s' x = ids s x" if "x \<noteq> v" for x
        using that s' by (simp add: as_s_simp)
      ultimately show ?thesis using s' i by (auto simp: as_s_simp)
    next
      case (Raise e)
      with run' show ?thesis by (simp add: run_shape_def)
    next
      case (Collapse c)
      with ncv show ?thesis by (auto simp: nc_def intro: reach_root)
    next
      case (Each t keep xs)
      let ?s1 = "snd (as_s (t, PSlots []) v s)"
      let ?n = "length (recs s)"
      from Each run' have loop: "pair_each rec keep ?n xs ?s1 = Ok s'" and i: "i = ?n"
        by (auto simp: run_shape_def rbind_Ok_iff)
      from classify_Each_tag [OF Each] inv None have s1: "sinv ?s1"
        by (auto intro!: sinv_as_s)
      have len: "?n < length (recs ?s1)" and p: "ids ?s1 v = Some ?n"
        and at: "recs ?s1 ! ?n = (t, PSlots [])"
        by (simp_all add: as_s_simp)
      have ncs: "\<forall>x\<in>set xs. nc h strict js x"
        using nc_reach [OF ncv reach_Each [OF Each reach_root]] by blast
      from pair_each_ok2 [OF ok1 ok2 s1 len p at ncs loop]
      have res: "recs s' ! ?n = (t, PSlots (map (slot (ids s')) (filter keep xs)))"
        "\<forall>x\<in>set (filter keep xs). ids s' x \<noteq> None"
        "\<And>x. ids ?s1 x = None \<Longrightarrow> ids s' x \<noteq> None \<Longrightarrow> done_at h strict js s' x"
        by auto
      from pair_each_ok1 [OF ok1 s1 len loop] have kb: "keeps_but ?n ?s1 s'" by simp
      have v': "ids s' v = Some ?n" using keeps_but_ids [OF kb p] .
      from keeps_but_length [OF kb] len have "?n < length (recs s')" by simp
      with res(1,2) v' Each have dv: "done_at h strict js s' v"
        by (simp add: done_at_def enc_def kept_def)
      have "done_at h strict js s' x" if x: "ids s x = None" "ids s' x \<noteq> None" for x
      proof (cases "x = v")
        case False
        with x(1) have "ids ?s1 x = None" by (simp add: as_s_simp)
        from res(3) [OF this x(2)] show ?thesis .
      qed (simp add: dv)
      with v' i show ?thesis by simp
    next
      case (Entries t keep kvs)
      let ?s1 = "snd (as_s (t, PPairs []) v s)"
      let ?n = "length (recs s)"
      from Entries run' have loop: "pair_entries rec keep ?n kvs ?s1 = Ok s'" and i: "i = ?n"
        by (auto simp: run_shape_def rbind_Ok_iff)
      from classify_Entries_tag [OF Entries] inv None have s1: "sinv ?s1"
        by (auto intro!: sinv_as_s)
      have len: "?n < length (recs ?s1)" and p: "ids ?s1 v = Some ?n"
        and at: "recs ?s1 ! ?n = (t, PPairs [])"
        by (simp_all add: as_s_simp)
      have ncs: "\<forall>kv\<in>set kvs. nc h strict js (fst kv) \<and> nc h strict js (snd kv)"
        using nc_reach [OF ncv] reach_Entries [OF Entries reach_root] by blast
      from pair_entries_ok2 [OF ok1 ok2 s1 len p at ncs loop]
      have res: "recs s' ! ?n = (t, PPairs (map (\<lambda>kv. (slot (ids s') (fst kv), slot (ids s') (snd kv)))
                        (filter (\<lambda>kv. keep (fst kv) (snd kv)) kvs)))"
        "\<forall>kv\<in>set (filter (\<lambda>kv. keep (fst kv) (snd kv)) kvs).
            ids s' (fst kv) \<noteq> None \<and> ids s' (snd kv) \<noteq> None"
        "\<And>x. ids ?s1 x = None \<Longrightarrow> ids s' x \<noteq> None \<Longrightarrow> done_at h strict js s' x"
        by auto
      from pair_entries_ok1 [OF ok1 s1 len loop] have kb: "keeps_but ?n ?s1 s'" by simp
      have v': "ids s' v = Some ?n" using keeps_but_ids [OF kb p] .
      from keeps_but_length [OF kb] len have "?n < length (recs s')" by simp
      with res(1,2) v' Entries have dv: "done_at h strict js s' v"
        by (auto simp: done_at_def enc_def kept_def set_pairs_flat)
      have "done_at h strict js s' x" if x: "ids s x = None" "ids s' x \<noteq> None" for x
      proof (cases "x = v")
        case False
        with x(1) have "ids ?s1 x = None" by (simp add: as_s_simp)
        from res(3) [OF this x(2)] show ?thesis .
      qed (simp add: dv)
      with v' i show ?thesis by simp
    qed
  qed
qed

lemma pair_ok2: "rec_ok2 h strict js (pair n h strict js)"
proof (induction n)
  case 0
  show ?case by (simp add: rec_ok2_def)
next
  case (Suc n)
  from pair_body_ok2 [OF pair_ok1 Suc] show ?case by simp
qed

lemma pair_from_empty_done:
  assumes "pair n h strict js v \<lparr>ids = Map.empty, recs = []\<rparr> = Ok (i, s)" "nc h strict js v"
  shows "ids s v = Some 0" "\<And>x. ids s x \<noteq> None \<Longrightarrow> done_at h strict js s x" "sinv s"
proof -
  from pair_first_slot [OF _ _ assms(1)] have "i = 0" by simp
  with pair_ok2 [of h strict js n] assms sinv_empty
  show "ids s v = Some 0" "\<And>x. ids s x \<noteq> None \<Longrightarrow> done_at h strict js s x"
    unfolding rec_ok2_def by auto
  from pair_sinv [OF sinv_empty assms(1)] show "sinv s" by simp
qed

subsection \<open>Every reachable value gets a slot\<close>

lemma kept_all:
  assumes "a < length h" "\<forall>c. classify h strict js (Ref a) \<noteq> Collapse c"
    "\<forall>c\<in>set (children (h ! a)). strict \<or> \<not> is_fs c"
  shows "set (children (h ! a)) \<subseteq> set (kept h strict js (Ref a))"
proof (cases "h ! a")
  case (ObjectO props tj)
  with assms(1,2) have c: "classify h strict js (Ref a) =
      Entries (NumTag OBJECT) (\<lambda>key entry. strict \<or> \<not> is_fs entry) (entries_of props)"
    by (auto simp: classify_def classify_obj_def split: if_splits)
  from assms(3) ObjectO have "\<forall>kv\<in>set (entries_of props). strict \<or> \<not> is_fs (snd kv)"
    by (auto simp: set_pairs_flat)
  then have "filter (\<lambda>kv. strict \<or> \<not> is_fs (snd kv)) (entries_of props) = entries_of props"
    by (simp add: filter_id_conv)
  with c ObjectO show ?thesis by (simp add: kept_def)
next
  case (MapO kvs)
  with assms(1) have c: "classify h strict js (Ref a) =
      Entries (NumTag MAP) (\<lambda>key entry. strict \<or> \<not> (is_fs key \<or> is_fs entry)) kvs"
    by (auto simp: classify_def classify_obj_def)
  from assms(3) MapO have "\<forall>kv\<in>set kvs. strict \<or> \<not> (is_fs (fst kv) \<or> is_fs (snd kv))"
    by (auto simp: set_pairs_flat)
  then have "filter (\<lambda>kv. strict \<or> \<not> (is_fs (fst kv) \<or> is_fs (snd kv))) kvs = kvs"
    by (simp add: filter_id_conv)
  with c MapO show ?thesis by (simp add: kept_def)
next
  case (SetO xs)
  with assms(1) have c: "classify h strict js (Ref a) =
      Each (NumTag SET) (\<lambda>entry. strict \<or> \<not> is_fs entry) xs"
    by (auto simp: classify_def classify_obj_def)
  from assms(3) SetO have "filter (\<lambda>entry. strict \<or> \<not> is_fs entry) xs = xs"
    by (simp add: filter_id_conv)
  with c SetO show ?thesis by (simp add: kept_def)
qed (use assms(1) in \<open>auto simp: kept_def classify_def classify_obj_def\<close>)

lemma reach_registered:
  assumes all_done: "\<And>x. ids s x \<noteq> None \<Longrightarrow> done_at h strict js s x"
    and root: "ids s v \<noteq> None"
    and nofs: "strict \<or> (\<forall>x. reach h v x \<longrightarrow> \<not> is_fs x)"
  shows "reach h v x \<Longrightarrow> ids s x \<noteq> None"
proof (induction rule: reach.induct)
  case reach_root
  show ?case by (rule root)
next
  case (reach_child a c)
  from all_done [OF reach_child.IH] have d: "done_at h strict js s (Ref a)" .
  then have nocol: "\<forall>c. classify h strict js (Ref a) \<noteq> Collapse c"
    and reg: "\<forall>c\<in>set (kept h strict js (Ref a)). ids s c \<noteq> None"
    by (auto simp: done_at_def)
  have "\<forall>c\<in>set (children (h ! a)). strict \<or> \<not> is_fs c"
    using nofs reach.reach_child [OF reach_child.hyps(1,2)] by blast
  from kept_all [OF reach_child.hyps(2) nocol this] reach_child.hyps(3) reg
  show ?case by blast
qed

lemma nc_not_js: "nc h strict False v"
  by (auto simp: nc_def dest: classify_Collapse_js)

lemma classify_fs_strict: "is_fs x \<Longrightarrow> \<exists>e. classify h True js x = Raise e"
  by (cases x) (auto simp: classify_def)

lemma classify_fs_relaxed: "is_fs x \<Longrightarrow> classify h False js x = Leaf (NumTag PRIMITIVE, PVal Null)"
  by (cases x) (auto simp: classify_def)

lemma serialize_strict_raises:
  assumes fs: "reach h v x" "is_fs x"
    and only: "\<forall>y e. reach h v y \<longrightarrow> classify h True False y = Raise e \<longrightarrow> tns e"
    and run: "pair n h True False v \<lparr>ids = Map.empty, recs = []\<rparr> \<noteq> OutOfFuel"
  shows "\<exists>e. pair n h True False v \<lparr>ids = Map.empty, recs = []\<rparr> = Throw e \<and> tns e"
proof (cases "pair n h True False v \<lparr>ids = Map.empty, recs = []\<rparr>")
  case OutOfFuel
  with run show ?thesis by simp
next
  case (Throw e)
  from pair_Throw_reach [OF Throw] only have "tns e" by blast
  with Throw show ?thesis by simp
next
  case (Ok r)
  obtain i s where r: "r = (i, s)" by (cases r)
  note d = pair_from_empty_done [OF Ok [unfolded r] nc_not_js]
  from reach_registered [of s h True False v x] d fs(1) have "ids s x \<noteq> None" by auto
  from d(2) [OF this] have "\<forall>e. classify h True False x \<noteq> Raise e" by (auto simp: done_at_def)
  with classify_fs_strict [OF fs(2), of h False] show ?thesis by simp
qed

lemma serialize_terminates:
  assumes "nc h strict js v"
  shows "pair (Suc (card {x. reach h v x})) h strict js v \<lparr>ids = Map.empty, recs = []\<rparr> \<noteq> OutOfFuel"
proof (rule pair_terminates [OF sinv_empty reach_root assms])
  have "card ({x. reach h v x} - dom (ids \<lparr>ids = Map.empty, recs = []\<rparr>)) = card {x. reach h v x}"
    by simp
  then show "card ({x. reach h v x} - dom (ids \<lparr>ids = Map.empty, recs = []\<rparr>))
      < Suc (card {x. reach h v x})"
    by simp
qed

lemma serialize_eq:
  "serialize n h v opts =
    rbind (pair n h (\<not> (json opts \<or> lossy opts)) (json opts) v \<lparr>ids = Map.empty, recs = []\<rparr>)
      (\<lambda>r. Ok (recs (snd r)))"
  by (simp add: serialize_def case_prod_unfold)

lemma serialize_Throw_iff:
  "serialize n h v opts = Throw e \<longleftrightarrow>
   pair n h (\<not> (json opts \<or> lossy opts)) (json opts) v \<lparr>ids = Map.empty, recs = []\<rparr> = Throw e"
  by (auto simp: serialize_eq rbind_Throw_iff)

lemma serialize_OutOfFuel_iff:
  "serialize n h v opts = OutOfFuel \<longleftrightarrow>
   pair n h (\<not> (json opts \<or> lossy opts)) (json opts) v \<lparr>ids = Map.empty, recs = []\<rparr> = OutOfFuel"
  by (auto simp: serialize_eq rbind_OutOfFuel_iff)

lemma serialize_mono:
  assumes "n \<le> m" "serialize n h v opts \<noteq> OutOfFuel"
  shows "serialize m h v opts = serialize n h v opts"
proof -
  from assms(2) have "pair n h (\<not> (json opts \<or> lossy opts)) (json opts) v
      \<lparr>ids = Map.empty, recs = []\<rparr> \<noteq> OutOfFuel"
    by (simp add: serialize_OutOfFuel_iff)
  from pair_mono [OF assms(1) this] show ?thesis by (simp add: serialize_eq)
qed

text \<open>
  Claim C4 as stated fails on \<^verbatim>\<open>[new Date(NaN), function () {}]\<close> in strict mode: a
  function is reachable from the root, and \<^verbatim>\<open>serialize\<close> throws the RangeError of
  \<^verbatim>\<open>toISOString\<close> on the invalid Date, at every depth of the call stack that lets it
  return, and never the TypeError.
\<close>

theorem invalid_date_throws_first:
  "reach [ArrayO [Ref 1, Func 0], DateO None] (Ref 0) (Func 0) \<and> is_fs (Func 0) \<and>
   \<not> (json no_options \<or> lossy no_options) \<and>
   serialize 2 [ArrayO [Ref 1, Func 0], DateO None] (Ref 0) no_options =
     Throw (RangeError ''Invalid time value'') \<and>
   \<not> (\<exists>n e. serialize n [ArrayO [Ref 1, Func 0], DateO None] (Ref 0) no_options = Throw e \<and> tns e)"
proof -
  let ?h = "[ArrayO [Ref 1, Func 0], DateO None]"
  have r: "reach ?h (Ref 0) (Func 0)"
    by (rule reach_child [OF reach_root, of 0]) simp_all
  have e2: "serialize 2 ?h (Ref 0) no_options = Throw (RangeError ''Invalid time value'')"
    by code_simp
  have e1: "serialize 1 ?h (Ref 0) no_options = OutOfFuel"
    by code_simp
  have e0: "serialize 0 ?h (Ref 0) no_options = OutOfFuel"
    by (simp add: serialize_def)
  have "\<not> tns e" if "serialize n ?h (Ref 0) no_options = Throw e" for n e
  proof (cases "2 \<le> n")
    case True
    from serialize_mono [OF True, of ?h "Ref 0" no_options] e2 that show ?thesis
      by (auto simp: tns_def)
  next
    case False
    then have "n = 0 \<or> n = 1" by arith
    with that e0 e1 show ?thesis by auto
  qed
  with r e2 show ?thesis by (auto simp: no_options_def)
qed

subsection \<open>The cases of unpair\<close>

lemma env_new_not_OutOfFuel: "env_new name arg \<noteq> OutOfFuel"
  by (auto simp: env_new_def split: payload.splits val.splits list.splits)

lemma string_to_bigint_not_OutOfFuel: "string_to_bigint str \<noteq> OutOfFuel"
  by (auto simp: string_to_bigint_def split: list.splits option.splits)

lemma rbind_lift_new:
  "rbind (env_new name arg) f =
    (case lift_new (env_new name arg) of DNew ob \<Rightarrow> f ob | DRaise e \<Rightarrow> Throw e | _ \<Rightarrow> OutOfFuel)"
  using env_new_not_OutOfFuel [of name arg]
  by (cases "env_new name arg") (simp_all add: lift_new_def)

lemma de_state_upd:
  "s\<lparr>dheap := d, reg := r\<rparr> = \<lparr>reg = r, dheap = d\<rparr>"
  "s\<lparr>reg := r, dheap := d\<rparr> = \<lparr>reg = r, dheap = d\<rparr>"
  by (cases s; simp)+

lemma unpair_body_dclassify:
  "unpair_body rec wire index s =
    (case reg s (KIndex index) of
      Some v \<Rightarrow> Ok (v, s)
    | None \<Rightarrow>
        if index < length wire then run_dshape rec index s (dclassify (wire ! index))
        else Throw (TypeError ''undefined is not iterable''))"
proof (cases "reg s (KIndex index)")
  case (Some v)
  then show ?thesis by (simp add: unpair_body_def)
next
  case None
  show ?thesis
  proof (cases "index < length wire")
    case False
    with None show ?thesis by (simp add: unpair_body_def)
  next
    case True
    obtain t p where r: "wire ! index = (t, p)" by (cases "wire ! index")
    have "(case (t, p) of (type', value) \<Rightarrow>
            unpair_body rec wire index s) = run_dshape rec index s (dclassify (t, p))"
      using None True r string_to_bigint_not_OutOfFuel env_new_not_OutOfFuel
      by (cases p)
        (auto simp: unpair_body_def dclassify_def run_dshape_def alloc_simp as_d_def tag_defs
          lift_new_def lift_bigint_def de_state_upd
          split: val.splits result.splits tag.splits)
    with r show ?thesis using None True by simp
  qed
qed

subsection \<open>What stays as the decoder goes on\<close>

lemma dkeeps_on_refl: "dkeeps_on {} t t"
  by (simp add: dkeeps_on_def)

lemma dkeeps_on_weaken:
  "dkeeps_on {} t t' \<Longrightarrow> a < length (dheap t) \<Longrightarrow> \<not> is_buf (dheap t ! a) \<Longrightarrow> dkeeps_on {a} t t'"
  by (auto simp: dkeeps_on_def)

lemma dkeeps_on_trans:
  assumes "dkeeps_on A t t1" "dkeeps_on A t1 t2"
  shows "dkeeps_on A t t2"
proof -
  from assms have "\<forall>j v. reg t (KIndex j) = Some v \<longrightarrow> reg t2 (KIndex j) = Some v"
    unfolding dkeeps_on_def by blast
  moreover from assms have "length (dheap t) \<le> length (dheap t2)"
    unfolding dkeeps_on_def by linarith
  moreover have "dheap t2 ! b = dheap t ! b" if "b < length (dheap t)" "b \<notin> A" for b
  proof -
    from that assms(1) have "b < length (dheap t1)" "dheap t1 ! b = dheap t ! b"
      by (auto simp: dkeeps_on_def)
    moreover from this(1) that(2) assms(2) have "dheap t2 ! b = dheap t1 ! b"
      by (simp add: dkeeps_on_def)
    ultimately show ?thesis by simp
  qed
  moreover have "\<not> is_buf (dheap t ! b) \<and> \<not> is_buf (dheap t2 ! b)"
    if "b \<in> A" "b < length (dheap t)" for b
  proof -
    from that assms(1) have "\<not> is_buf (dheap t ! b)" "b < length (dheap t1)"
      by (auto simp: dkeeps_on_def)
    moreover from this(2) that(1) assms(2) have "\<not> is_buf (dheap t2 ! b)"
      by (simp add: dkeeps_on_def)
    ultimately show ?thesis by simp
  qed
  ultimately show ?thesis by (simp add: dkeeps_on_def)
qed

lemma dkeeps_reg:
  "dkeeps_on A t t' \<Longrightarrow> reg t (KIndex j) = Some v \<Longrightarrow> reg t' (KIndex j) = Some v"
  by (simp add: dkeeps_on_def)

lemma dkeeps_length: "dkeeps_on A t t' \<Longrightarrow> length (dheap t) \<le> length (dheap t')"
  by (simp add: dkeeps_on_def)

lemma dkeeps_nth:
  "dkeeps_on A t t' \<Longrightarrow> b < length (dheap t) \<Longrightarrow> b \<notin> A \<Longrightarrow> dheap t' ! b = dheap t ! b"
  by (simp add: dkeeps_on_def)

lemma dkeeps_buf:
  assumes "dkeeps_on A t t'" "b < length (dheap t)" "is_buf (dheap t ! b)"
  shows "dheap t' ! b = dheap t ! b" "b < length (dheap t')"
proof -
  from assms have "b \<notin> A" by (auto simp: dkeeps_on_def)
  with assms show "dheap t' ! b = dheap t ! b" by (simp add: dkeeps_on_def)
  from assms show "b < length (dheap t')" by (auto simp: dkeeps_on_def)
qed

lemma valid_dkeeps: "dkeeps_on A t t' \<Longrightarrow> valid (dheap t) v \<Longrightarrow> valid (dheap t') v"
  by (cases v) (auto simp: valid_def dkeeps_on_def)

lemma bufrel_stable:
  assumes "dkeeps_on A t t'" "bufrel W t i v"
  shows "bufrel W t' i v"
proof (cases "dclassify (W ! i)")
  case (DBuffer bytes)
  with assms(2) obtain a where a: "v = Ref a" "a < length (dheap t)" "dheap t ! a = ArrayBufferO bytes"
    and i: "i < length W"
    by (auto simp: bufrel_def)
  from dkeeps_buf [OF assms(1) a(2)] a(3) have "dheap t' ! a = ArrayBufferO bytes" "a < length (dheap t')"
    by simp_all
  with a(1) i DBuffer show ?thesis by (simp add: bufrel_def)
next
  case (DView bytes)
  with assms(2) obtain a b where a: "v = Ref a" "a < length (dheap t)"
    "dheap t ! a = DataViewO b 0 (length bytes)" "b < length (dheap t)" "dheap t ! b = ArrayBufferO bytes"
    and i: "i < length W"
    by (auto simp: bufrel_def)
  from dkeeps_buf [OF assms(1) a(2)] a(3)
  have "dheap t' ! a = DataViewO b 0 (length bytes)" "a < length (dheap t')" by simp_all
  moreover from dkeeps_buf [OF assms(1) a(4)] a(5)
  have "dheap t' ! b = ArrayBufferO bytes" "b < length (dheap t')" by simp_all
  ultimately show ?thesis using a(1) i DView by (simp add: bufrel_def)
qed (use assms(2) in \<open>simp_all add: bufrel_def\<close>)

lemma Rslot_stable: "dkeeps_on A t t' \<Longrightarrow> Rslot W t i v \<Longrightarrow> Rslot W t' i v"
  by (auto simp: Rslot_def dkeeps_reg bufrel_stable)

lemma list_all2_Rslot_stable:
  "dkeeps_on A t t' \<Longrightarrow> list_all2 (Rslot W t) is vs \<Longrightarrow> list_all2 (Rslot W t') is vs"
  by (erule list_all2_mono) (rule Rslot_stable)

lemma cdone_stable:
  assumes k: "dkeeps_on A t t'" and c: "cdone W t j"
    and own: "\<forall>b\<in>A. reg t (KIndex j) \<noteq> Some (Ref b)"
  shows "cdone W t' j"
proof -
  from c obtain v where j: "j < length W" and v: "reg t (KIndex j) = Some v"
    by (auto simp: cdone_def)
  from dkeeps_reg [OF k v] have v': "reg t' (KIndex j) = Some v" .
  have same: "dheap t' ! a = dheap t ! a" "a < length (dheap t')"
    if "v = Ref a" "a < length (dheap t)" for a
    using that own v k by (auto simp: dkeeps_on_def)
  show ?thesis
  proof (cases "dclassify (W ! j)")
    case (DPrim p)
    with c v v' j show ?thesis by (simp add: cdone_def)
  next
    case (DNew ob)
    with c v obtain a where "v = Ref a" "a < length (dheap t)" "dheap t ! a = ob"
      by (auto simp: cdone_def)
    with same [OF this(1,2)] v' j DNew show ?thesis by (simp add: cdone_def)
  next
    case (DEach ob put js)
    with c v obtain a vs where a: "v = Ref a" "a < length (dheap t)"
      and r: "list_all2 (Rslot W t) js vs" "sep js vs" "puts put vs ob = Ok (dheap t ! a)"
      by (auto simp: cdone_def)
    from list_all2_Rslot_stable [OF k r(1)] same [OF a] r(2,3) a(1) v' j DEach
    show ?thesis by (auto simp: cdone_def)
  next
    case (DEntries ob put ps)
    with c v obtain a kvs where a: "v = Ref a" "a < length (dheap t)"
      and r: "list_all2 (\<lambda>p kv. Rslot W t (fst p) (fst kv) \<and> Rslot W t (snd p) (snd kv)) ps kvs"
        "sep (map fst ps) (map fst kvs)" "puts2 put kvs ob = Ok (dheap t ! a)"
      by (auto simp: cdone_def)
    from r(1) have "list_all2 (\<lambda>p kv. Rslot W t' (fst p) (fst kv) \<and> Rslot W t' (snd p) (snd kv)) ps kvs"
      by (rule list_all2_mono) (auto intro: Rslot_stable [OF k])
    with same [OF a] r(2,3) a(1) v' j DEntries show ?thesis by (auto simp: cdone_def)
  qed (use c v in \<open>auto simp: cdone_def\<close>)
qed

lemma modify_Ok:
  "modify a f t = Ok t' \<longleftrightarrow>
   a < length (dheap t) \<and> (\<exists>ob. f (dheap t ! a) = Ok ob \<and> t' = t\<lparr>dheap := (dheap t)[a := ob]\<rparr>)"
  by (auto simp: modify_def rbind_Ok_iff)

lemma dinv_modify:
  assumes "dinv W t" "\<not> is_buf ob"
  shows "dinv W (t\<lparr>dheap := (dheap t)[a := ob]\<rparr>)"
proof -
  have A: "i < length W \<and> valid ((dheap t)[a := ob]) v \<and>
      (\<forall>c. v = Ref c \<longrightarrow> \<not> is_buf ((dheap t)[a := ob] ! c))"
    if r: "reg t (KIndex i) = Some v" for i v
  proof -
    from r assms(1) have i: "i < length W" and va: "valid (dheap t) v"
      and nb: "\<forall>c. v = Ref c \<longrightarrow> \<not> is_buf (dheap t ! c)"
      by (auto simp: dinv_def)
    have "valid ((dheap t)[a := ob]) v" using va by (cases v) (auto simp: valid_def)
    moreover have "\<not> is_buf ((dheap t)[a := ob] ! c)" if "v = Ref c" for c
    proof (cases "c = a")
      case True
      with that va assms(2) show ?thesis by (simp add: valid_def)
    next
      case False
      with that nb show ?thesis by simp
    qed
    ultimately show ?thesis using i by simp
  qed
  from assms(1)
  have B: "\<forall>i j c. reg t (KIndex i) = Some (Ref c) \<and> reg t (KIndex j) = Some (Ref c) \<longrightarrow> i = j"
    by (simp add: dinv_def)
  show ?thesis unfolding dinv_def
  proof (intro conjI)
    show "\<forall>i v. reg (t\<lparr>dheap := (dheap t)[a := ob]\<rparr>) (KIndex i) = Some v \<longrightarrow>
        i < length W \<and> valid (dheap (t\<lparr>dheap := (dheap t)[a := ob]\<rparr>)) v \<and>
        (\<forall>c. v = Ref c \<longrightarrow> \<not> is_buf (dheap (t\<lparr>dheap := (dheap t)[a := ob]\<rparr>) ! c))"
      using A by simp
    show "\<forall>i j c. reg (t\<lparr>dheap := (dheap t)[a := ob]\<rparr>) (KIndex i) = Some (Ref c) \<and>
        reg (t\<lparr>dheap := (dheap t)[a := ob]\<rparr>) (KIndex j) = Some (Ref c) \<longrightarrow> i = j"
      using B by simp
  qed
qed

lemma dkeeps_on_modify:
  "a < length (dheap t) \<Longrightarrow> \<not> is_buf (dheap t ! a) \<Longrightarrow> \<not> is_buf ob \<Longrightarrow>
   dkeeps_on {a} t (t\<lparr>dheap := (dheap t)[a := ob]\<rparr>)"
  by (auto simp: dkeeps_on_def)

lemma sep_snoc:
  assumes "sep is0 vs0" "length is0 = length vs0"
    and "\<And>k b. k < length is0 \<Longrightarrow> is0 ! k \<noteq> i \<Longrightarrow> vs0 ! k = Ref b \<Longrightarrow> v \<noteq> Ref b"
  shows "sep (is0 @ [i]) (vs0 @ [v])"
  unfolding sep_def
proof (intro allI impI)
  fix k l
  assume h: "k < length (is0 @ [i]) \<and> l < length (is0 @ [i]) \<and> (is0 @ [i]) ! k \<noteq> (is0 @ [i]) ! l \<and>
      (\<exists>a. (vs0 @ [v]) ! k = Ref a)"
  then obtain a where a: "(vs0 @ [v]) ! k = Ref a" by blast
  consider "k < length is0" "l < length is0" | "k < length is0" "l = length is0"
    | "k = length is0" "l < length is0" | "k = length is0" "l = length is0"
    using h by fastforce
  then show "(vs0 @ [v]) ! k \<noteq> (vs0 @ [v]) ! l"
  proof cases
    case 1
    with h assms(2) a have "is0 ! k \<noteq> is0 ! l" "vs0 ! k = Ref a" by (auto simp: nth_append)
    with assms(1) [unfolded sep_def, rule_format, of k l] 1 have "vs0 ! k \<noteq> vs0 ! l" by blast
    with 1 assms(2) show ?thesis by (simp add: nth_append)
  next
    case 2
    with h assms(2) a assms(3) [of k a] show ?thesis by (auto simp: nth_append)
  next
    case 3
    with h assms(2) a assms(3) [of l a] show ?thesis by (auto simp: nth_append)
  next
    case 4
    with h show ?thesis by simp
  qed
qed

lemma puts_append: "puts put (vs @ ws) ob = rbind (puts put vs ob) (puts put ws)"
proof (induction vs arbitrary: ob)
  case Nil
  show ?case by simp
next
  case (Cons v vs)
  show ?case by (cases "put v ob") (simp_all add: Cons)
qed

lemma puts2_append: "puts2 put (vs @ ws) ob = rbind (puts2 put vs ob) (puts2 put ws)"
proof (induction vs arbitrary: ob)
  case Nil
  show ?case by simp
next
  case (Cons kv vs)
  show ?case by (cases "put (fst kv) (snd kv) ob") (simp_all add: Cons)
qed

lemma Rslot_fresh_distinct:
  assumes inv: "dinv W t1"
    and old: "Rslot W t1 j (Ref b)" "b < length (dheap t)"
    and new: "reg t1 (KIndex i) = Some v \<or> (\<exists>a. v = Ref a \<and> length (dheap t) \<le> a)"
    and ne: "j \<noteq> i"
  shows "v \<noteq> Ref b"
proof
  assume v: "v = Ref b"
  with new old(2) have r: "reg t1 (KIndex i) = Some (Ref b)" by auto
  from old(1) show False
    unfolding Rslot_def
  proof
    assume "reg t1 (KIndex j) = Some (Ref b)"
    with r inv ne show False by (auto simp: dinv_def)
  next
    assume "bufrel W t1 j (Ref b)"
    then have "is_buf (dheap t1 ! b)"
      by (cases "dclassify (W ! j)") (auto simp: bufrel_def)
    with r inv show False by (auto simp: dinv_def)
  qed
qed

subsection \<open>The loops of unpair\<close>

lemma puts_snoc:
  "puts put vs0 ob0 = Ok ob \<Longrightarrow> put v ob = Ok ob' \<Longrightarrow> puts put (vs0 @ [v]) ob0 = Ok ob'"
  by (simp add: puts_append)

lemma puts2_snoc:
  "puts2 put vs0 ob0 = Ok ob \<Longrightarrow> put k v ob = Ok ob' \<Longrightarrow> puts2 put (vs0 @ [(k, v)]) ob0 = Ok ob'"
  by (simp add: puts2_append)

lemma unpair_each_ok:
  assumes rec: "drec_ok W rec" and putk: "\<And>v ob ob'. put v ob = Ok ob' \<Longrightarrow> \<not> is_buf ob'"
  shows "dinv W t \<Longrightarrow> a < length (dheap t) \<Longrightarrow> \<not> is_buf (dheap t ! a) \<Longrightarrow>
    list_all2 (Rslot W t) is0 vs0 \<Longrightarrow> sep is0 vs0 \<Longrightarrow> \<forall>v\<in>set vs0. valid (dheap t) v \<Longrightarrow>
    puts put vs0 ob0 = Ok (dheap t ! a) \<Longrightarrow> unpair_each rec put a js t = Ok t' \<Longrightarrow>
    dinv W t' \<and> dkeeps_on {a} t t' \<and>
    (\<exists>vs. list_all2 (Rslot W t') (is0 @ js) (vs0 @ vs) \<and> sep (is0 @ js) (vs0 @ vs) \<and>
          puts put (vs0 @ vs) ob0 = Ok (dheap t' ! a)) \<and>
    (\<forall>j. reg t (KIndex j) = None \<longrightarrow> reg t' (KIndex j) \<noteq> None \<longrightarrow>
       cdone W t' j \<and> (\<forall>b. reg t' (KIndex j) = Some (Ref b) \<longrightarrow> length (dheap t) \<le> b))"
proof (induction js arbitrary: t is0 vs0)
  case Nil
  then have "t' = t" by simp
  with Nil show ?case
    by (auto intro!: dkeeps_on_weaken dkeeps_on_refl exI [of _ "[]"])
next
  case (Cons i js)
  from Cons.prems(8) obtain v t1 t2 where r: "rec i t = Ok (v, t1)"
    and m: "modify a (put v) t1 = Ok t2" and rest: "unpair_each rec put a js t2 = Ok t'"
    by (auto simp: rbind_Ok_iff)
  from rec r Cons.prems(1) have d1: "dinv W t1" and k1: "dkeeps_on {} t t1"
    and R1: "Rslot W t1 i v" and v1: "valid (dheap t1) v"
    and fr: "reg t1 (KIndex i) = Some v \<or> (\<exists>b. v = Ref b \<and> length (dheap t) \<le> b)"
    and new1: "\<And>j. reg t (KIndex j) = None \<Longrightarrow> reg t1 (KIndex j) \<noteq> None \<Longrightarrow>
        cdone W t1 j \<and> (\<forall>b. reg t1 (KIndex j) = Some (Ref b) \<longrightarrow> length (dheap t) \<le> b)"
    unfolding drec_ok_def by blast+
  from m obtain ob' where a1: "a < length (dheap t1)" and p: "put v (dheap t1 ! a) = Ok ob'"
    and t2: "t2 = t1\<lparr>dheap := (dheap t1)[a := ob']\<rparr>"
    by (auto simp: modify_Ok)
  have same: "dheap t1 ! a = dheap t ! a" using dkeeps_nth [OF k1 Cons.prems(2)] by simp
  have nb': "\<not> is_buf ob'" using putk [OF p] .
  have d2: "dinv W t2" unfolding t2 using d1 nb' by (rule dinv_modify)
  have k12: "dkeeps_on {a} t1 t2"
    unfolding t2 using a1 same Cons.prems(3) nb' by (simp add: dkeeps_on_modify)
  have k1a: "dkeeps_on {a} t t1" using k1 Cons.prems(2,3) by (rule dkeeps_on_weaken)
  have k02: "dkeeps_on {a} t t2" using k1a k12 by (rule dkeeps_on_trans)
  have len: "length is0 = length vs0" using Cons.prems(4) by (rule list_all2_lengthD)
  have a2: "a < length (dheap t2)" "\<not> is_buf (dheap t2 ! a)"
    using a1 nb' by (simp_all add: t2)
  have l2: "list_all2 (Rslot W t2) (is0 @ [i]) (vs0 @ [v])"
    using list_all2_Rslot_stable [OF k02 Cons.prems(4)] Rslot_stable [OF k12 R1]
    by (simp add: list_all2_appendI)
  have s2: "sep (is0 @ [i]) (vs0 @ [v])"
  proof (rule sep_snoc [OF Cons.prems(5) len])
    fix k b
    assume k: "k < length is0" and ne: "is0 ! k \<noteq> i" and e: "vs0 ! k = Ref b"
    from Cons.prems(4) k have "Rslot W t (is0 ! k) (vs0 ! k)" by (simp add: list_all2_nthD)
    from Rslot_stable [OF k1 this] e have o: "Rslot W t1 (is0 ! k) (Ref b)" by simp
    from k len e Cons.prems(6) have "valid (dheap t) (Ref b)" by (metis nth_mem)
    then have "b < length (dheap t)" by (simp add: valid_def)
    from Rslot_fresh_distinct [OF d1 o this fr ne] show "v \<noteq> Ref b" .
  qed
  have v2: "\<forall>v'\<in>set (vs0 @ [v]). valid (dheap t2) v'"
    using Cons.prems(6) valid_dkeeps [OF k02] valid_dkeeps [OF k12 v1] by auto
  have p2: "puts put (vs0 @ [v]) ob0 = Ok (dheap t2 ! a)"
    using puts_snoc [OF Cons.prems(7)] p same a1 by (simp add: t2)
  from Cons.IH [OF d2 a2 l2 s2 v2 p2 rest]
  obtain vs where ih: "dinv W t'" "dkeeps_on {a} t2 t'"
    "list_all2 (Rslot W t') ((is0 @ [i]) @ js) ((vs0 @ [v]) @ vs)"
    "sep ((is0 @ [i]) @ js) ((vs0 @ [v]) @ vs)"
    "puts put ((vs0 @ [v]) @ vs) ob0 = Ok (dheap t' ! a)"
    and new2: "\<And>j. reg t2 (KIndex j) = None \<Longrightarrow> reg t' (KIndex j) \<noteq> None \<Longrightarrow>
        cdone W t' j \<and> (\<forall>b. reg t' (KIndex j) = Some (Ref b) \<longrightarrow> length (dheap t2) \<le> b)"
    by blast
  have k0: "dkeeps_on {a} t t'" using k02 ih(2) by (rule dkeeps_on_trans)
  have new: "cdone W t' j \<and> (\<forall>b. reg t' (KIndex j) = Some (Ref b) \<longrightarrow> length (dheap t) \<le> b)"
    if j: "reg t (KIndex j) = None" "reg t' (KIndex j) \<noteq> None" for j
  proof (cases "reg t1 (KIndex j)")
    case None
    then have "reg t2 (KIndex j) = None" by (simp add: t2)
    from new2 [OF this j(2)] dkeeps_length [OF k02] show ?thesis by auto
  next
    case (Some w)
    from new1 [OF j(1)] Some have c1: "cdone W t1 j"
      and ad: "\<forall>b. w = Ref b \<longrightarrow> length (dheap t) \<le> b"
      by auto
    from ad Cons.prems(2) have own: "w \<noteq> Ref a" by auto
    from cdone_stable [OF k12 c1] Some own have c2: "cdone W t2 j" by simp
    from Some have r2: "reg t2 (KIndex j) = Some w" by (simp add: t2)
    from cdone_stable [OF ih(2) c2] r2 own have "cdone W t' j" by simp
    moreover from dkeeps_reg [OF ih(2) r2] ad
    have "\<forall>b. reg t' (KIndex j) = Some (Ref b) \<longrightarrow> length (dheap t) \<le> b" by simp
    ultimately show ?thesis by simp
  qed
  from ih(3,4,5) have "\<exists>vs'. list_all2 (Rslot W t') (is0 @ i # js) (vs0 @ vs') \<and>
      sep (is0 @ i # js) (vs0 @ vs') \<and> puts put (vs0 @ vs') ob0 = Ok (dheap t' ! a)"
    by (intro exI [of _ "v # vs"]) simp
  with ih(1) k0 new show ?case by blast
qed

lemma unpair_entries_ok:
  assumes rec: "drec_ok W rec" and putk: "\<And>k v ob ob'. put k v ob = Ok ob' \<Longrightarrow> \<not> is_buf ob'"
  shows "dinv W t \<Longrightarrow> a < length (dheap t) \<Longrightarrow> \<not> is_buf (dheap t ! a) \<Longrightarrow>
    list_all2 (\<lambda>p kv. Rslot W t (fst p) (fst kv) \<and> Rslot W t (snd p) (snd kv)) ps0 kvs0 \<Longrightarrow>
    sep (map fst ps0) (map fst kvs0) \<Longrightarrow> \<forall>kv\<in>set kvs0. valid (dheap t) (fst kv) \<Longrightarrow>
    puts2 put kvs0 ob0 = Ok (dheap t ! a) \<Longrightarrow> unpair_entries rec put a ps t = Ok t' \<Longrightarrow>
    dinv W t' \<and> dkeeps_on {a} t t' \<and>
    (\<exists>kvs. list_all2 (\<lambda>p kv. Rslot W t' (fst p) (fst kv) \<and> Rslot W t' (snd p) (snd kv))
            (ps0 @ ps) (kvs0 @ kvs) \<and>
          sep (map fst (ps0 @ ps)) (map fst (kvs0 @ kvs)) \<and>
          puts2 put (kvs0 @ kvs) ob0 = Ok (dheap t' ! a)) \<and>
    (\<forall>j. reg t (KIndex j) = None \<longrightarrow> reg t' (KIndex j) \<noteq> None \<longrightarrow>
       cdone W t' j \<and> (\<forall>b. reg t' (KIndex j) = Some (Ref b) \<longrightarrow> length (dheap t) \<le> b))"
proof (induction ps arbitrary: t ps0 kvs0)
  case Nil
  then have "t' = t" by simp
  with Nil show ?case
    by (auto intro!: dkeeps_on_weaken dkeeps_on_refl exI [of _ "[]"])
next
  case (Cons p ps)
  from Cons.prems(8) obtain k t1 v t2 t3 where r1: "rec (fst p) t = Ok (k, t1)"
    and r2: "rec (snd p) t1 = Ok (v, t2)"
    and m: "modify a (put k v) t2 = Ok t3" and rest: "unpair_entries rec put a ps t3 = Ok t'"
    by (auto simp: rbind_Ok_iff)
  from rec r1 Cons.prems(1) have d1: "dinv W t1" and k1: "dkeeps_on {} t t1"
    and R1: "Rslot W t1 (fst p) k" and v1: "valid (dheap t1) k"
    and fr: "reg t1 (KIndex (fst p)) = Some k \<or> (\<exists>b. k = Ref b \<and> length (dheap t) \<le> b)"
    and new1: "\<And>j. reg t (KIndex j) = None \<Longrightarrow> reg t1 (KIndex j) \<noteq> None \<Longrightarrow>
        cdone W t1 j \<and> (\<forall>b. reg t1 (KIndex j) = Some (Ref b) \<longrightarrow> length (dheap t) \<le> b)"
    unfolding drec_ok_def by blast+
  from rec r2 d1 have d2: "dinv W t2" and k2: "dkeeps_on {} t1 t2"
    and R2: "Rslot W t2 (snd p) v"
    and new2: "\<And>j. reg t1 (KIndex j) = None \<Longrightarrow> reg t2 (KIndex j) \<noteq> None \<Longrightarrow>
        cdone W t2 j \<and> (\<forall>b. reg t2 (KIndex j) = Some (Ref b) \<longrightarrow> length (dheap t1) \<le> b)"
    unfolding drec_ok_def by blast+
  have k02e: "dkeeps_on {} t t2" using k1 k2 by (rule dkeeps_on_trans)
  from m obtain ob' where a2: "a < length (dheap t2)" and pt: "put k v (dheap t2 ! a) = Ok ob'"
    and t3: "t3 = t2\<lparr>dheap := (dheap t2)[a := ob']\<rparr>"
    by (auto simp: modify_Ok)
  have same: "dheap t2 ! a = dheap t ! a" using dkeeps_nth [OF k02e Cons.prems(2)] by simp
  have nb': "\<not> is_buf ob'" using putk [OF pt] .
  have d3: "dinv W t3" unfolding t3 using d2 nb' by (rule dinv_modify)
  have k23: "dkeeps_on {a} t2 t3"
    unfolding t3 using a2 same Cons.prems(3) nb' by (simp add: dkeeps_on_modify)
  have k02: "dkeeps_on {a} t t2" using k02e Cons.prems(2,3) by (rule dkeeps_on_weaken)
  have k03: "dkeeps_on {a} t t3" using k02 k23 by (rule dkeeps_on_trans)
  have k13: "dkeeps_on {a} t1 t3"
  proof (rule dkeeps_on_trans [OF _ k23])
    from dkeeps_length [OF k1] Cons.prems(2) have "a < length (dheap t1)" by simp
    moreover from dkeeps_nth [OF k1 Cons.prems(2)] Cons.prems(3)
    have "\<not> is_buf (dheap t1 ! a)" by simp
    ultimately show "dkeeps_on {a} t1 t2" using k2 by (intro dkeeps_on_weaken)
  qed
  have len: "length ps0 = length kvs0" using Cons.prems(4) by (rule list_all2_lengthD)
  have a3: "a < length (dheap t3)" "\<not> is_buf (dheap t3 ! a)"
    using a2 nb' by (simp_all add: t3)
  have "list_all2 (\<lambda>p kv. Rslot W t3 (fst p) (fst kv) \<and> Rslot W t3 (snd p) (snd kv)) ps0 kvs0"
    using Cons.prems(4) by (rule list_all2_mono) (auto intro: Rslot_stable [OF k03])
  then have l3: "list_all2 (\<lambda>p kv. Rslot W t3 (fst p) (fst kv) \<and> Rslot W t3 (snd p) (snd kv))
      (ps0 @ [p]) (kvs0 @ [(k, v)])"
    using Rslot_stable [OF k13 R1] Rslot_stable [OF k23 R2]
    by (simp add: list_all2_appendI)
  have s3: "sep (map fst (ps0 @ [p])) (map fst (kvs0 @ [(k, v)]))"
  proof -
    have "sep (map fst ps0 @ [fst p]) (map fst kvs0 @ [k])"
    proof (rule sep_snoc [OF Cons.prems(5)])
      show "length (map fst ps0) = length (map fst kvs0)" using len by simp
      fix n b
      assume n: "n < length (map fst ps0)" and ne: "map fst ps0 ! n \<noteq> fst p"
        and e: "map fst kvs0 ! n = Ref b"
      from list_all2_nthD [OF Cons.prems(4), of n] n
      have "Rslot W t (fst (ps0 ! n)) (fst (kvs0 ! n))" by simp
      from Rslot_stable [OF k1 this] e n len have o: "Rslot W t1 (fst (ps0 ! n)) (Ref b)" by simp
      from n len have "kvs0 ! n \<in> set kvs0" by simp
      with Cons.prems(6) e n len have "valid (dheap t) (Ref b)" by fastforce
      then have "b < length (dheap t)" by (simp add: valid_def)
      from Rslot_fresh_distinct [OF d1 o this fr] ne n show "k \<noteq> Ref b" by simp
    qed
    then show ?thesis by simp
  qed
  have v3: "\<forall>kv\<in>set (kvs0 @ [(k, v)]). valid (dheap t3) (fst kv)"
    using Cons.prems(6) valid_dkeeps [OF k03] valid_dkeeps [OF k13 v1] by auto
  have p3: "puts2 put (kvs0 @ [(k, v)]) ob0 = Ok (dheap t3 ! a)"
    using puts2_snoc [OF Cons.prems(7)] pt same a2 by (simp add: t3)
  from Cons.IH [OF d3 a3 l3 s3 v3 p3 rest]
  obtain kvs where ih: "dinv W t'" "dkeeps_on {a} t3 t'"
    "list_all2 (\<lambda>p kv. Rslot W t' (fst p) (fst kv) \<and> Rslot W t' (snd p) (snd kv))
      ((ps0 @ [p]) @ ps) ((kvs0 @ [(k, v)]) @ kvs)"
    "sep (map fst ((ps0 @ [p]) @ ps)) (map fst ((kvs0 @ [(k, v)]) @ kvs))"
    "puts2 put ((kvs0 @ [(k, v)]) @ kvs) ob0 = Ok (dheap t' ! a)"
    and new3: "\<And>j. reg t3 (KIndex j) = None \<Longrightarrow> reg t' (KIndex j) \<noteq> None \<Longrightarrow>
        cdone W t' j \<and> (\<forall>b. reg t' (KIndex j) = Some (Ref b) \<longrightarrow> length (dheap t3) \<le> b)"
    by blast
  have k0: "dkeeps_on {a} t t'" using k03 ih(2) by (rule dkeeps_on_trans)
  have new: "cdone W t' j \<and> (\<forall>b. reg t' (KIndex j) = Some (Ref b) \<longrightarrow> length (dheap t) \<le> b)"
    if j: "reg t (KIndex j) = None" "reg t' (KIndex j) \<noteq> None" for j
  proof (cases "reg t2 (KIndex j)")
    case None
    then have "reg t3 (KIndex j) = None" by (simp add: t3)
    from new3 [OF this j(2)] dkeeps_length [OF k03] show ?thesis by auto
  next
    case (Some w)
    have c2: "cdone W t2 j" and ad: "\<forall>b. w = Ref b \<longrightarrow> length (dheap t) \<le> b"
    proof -
      show "cdone W t2 j"
      proof (cases "reg t1 (KIndex j)")
        case None
        with new2 [of j] Some show ?thesis by simp
      next
        case (Some w1)
        with new1 [OF j(1)] have "cdone W t1 j" by simp
        from cdone_stable [OF k2 this] show ?thesis by simp
      qed
      show "\<forall>b. w = Ref b \<longrightarrow> length (dheap t) \<le> b"
      proof (cases "reg t1 (KIndex j)")
        case None
        with new2 [of j] Some dkeeps_length [OF k1] show ?thesis by auto
      next
        case (Some w1)
        with new1 [OF j(1)] dkeeps_reg [OF k2 Some] \<open>reg t2 (KIndex j) = Some w\<close>
        show ?thesis by auto
      qed
    qed
    from ad Cons.prems(2) have own: "w \<noteq> Ref a" by auto
    from cdone_stable [OF k23 c2] Some own have c3: "cdone W t3 j" by simp
    from Some have r3: "reg t3 (KIndex j) = Some w" by (simp add: t3)
    from cdone_stable [OF ih(2) c3] r3 own have "cdone W t' j" by simp
    moreover from dkeeps_reg [OF ih(2) r3] ad
    have "\<forall>b. reg t' (KIndex j) = Some (Ref b) \<longrightarrow> length (dheap t) \<le> b" by simp
    ultimately show ?thesis by simp
  qed
  from ih(3,4,5) have "\<exists>kvs'. list_all2 (\<lambda>p kv. Rslot W t' (fst p) (fst kv) \<and> Rslot W t' (snd p) (snd kv))
            (ps0 @ p # ps) (kvs0 @ kvs') \<and>
          sep (map fst (ps0 @ p # ps)) (map fst (kvs0 @ kvs')) \<and>
          puts2 put (kvs0 @ kvs') ob0 = Ok (dheap t' ! a)"
    by (intro exI [of _ "(k, v) # kvs"]) simp
  with ih(1) k0 new show ?case by blast
qed

subsection \<open>What the records decode to\<close>

lemma lift_new_DNew: "lift_new r = DNew ob \<longleftrightarrow> r = Ok ob"
  by (cases r) (simp_all add: lift_new_def)

lemma lift_new_simps [simp]:
  "lift_new r \<noteq> DPrim p" "lift_new r \<noteq> DBuffer bs" "lift_new r \<noteq> DView bs"
  "lift_new r \<noteq> DEach ob put js" "lift_new r \<noteq> DEntries ob put2 ps"
  by (cases r; simp add: lift_new_def)+

lemma env_new_not_buf: "env_new name arg = Ok ob \<Longrightarrow> \<not> is_buf ob"
  by (auto simp: env_new_def split: if_splits payload.splits val.splits list.splits)

lemma lift_bigint_cases:
  "lift_bigint f r = sh \<Longrightarrow> (\<exists>b. r = Ok b \<and> sh = f b) \<or> (\<exists>e. sh = DRaise e)"
  by (cases r) (auto simp: lift_bigint_def)

lemma dclassify_cases:
  assumes "dclassify (t, p) = sh"
  shows "(\<exists>e. sh = DRaise e) \<or>
    (\<exists>v. sh = DPrim v \<and> (p = PVal v \<or> (p = PNone \<and> v = Undefined) \<or> (\<exists>b. v = BigInt b))) \<or>
    (\<exists>ob. sh = DNew ob \<and> \<not> is_buf ob) \<or>
    (\<exists>bs. sh = DBuffer bs \<and> t = StrTag ''ArrayBuffer'') \<or>
    (\<exists>bs. sh = DView bs \<and> t = StrTag ''DataView'') \<or>
    (\<exists>js. sh = DEach (ArrayO []) array_push js \<and> t = NumTag ARRAY \<and> p = PSlots js) \<or>
    (\<exists>js. sh = DEach (SetO []) set_add js \<and> t = NumTag SET \<and> p = PSlots js) \<or>
    (\<exists>ps. sh = DEntries (ObjectO [] None) set_prop ps \<and> t = NumTag OBJECT \<and> p = PPairs ps) \<or>
    (\<exists>ps. sh = DEntries (MapO []) map_set ps \<and> t = NumTag MAP \<and> p = PPairs ps)"
proof -
  have new: "(\<exists>e. lift_new (env_new name arg) = DRaise e) \<or>
      (\<exists>ob. lift_new (env_new name arg) = DNew ob \<and> \<not> is_buf ob)" for name arg
    using env_new_not_buf [of name arg]
    by (cases "env_new name arg") (auto simp: lift_new_def)
  consider "t = NumTag PRIMITIVE \<or> t = NumTag VOID" | "t = NumTag ARRAY" | "t = NumTag OBJECT"
    | "t = NumTag DATE" | "t = NumTag REGEXP" | "t = NumTag MAP" | "t = NumTag SET"
    | "t = NumTag ERROR" | "t = NumTag BIGINT" | "t = StrTag ''BigInt''"
    | "t = StrTag ''ArrayBuffer''" | "t = StrTag ''DataView''"
    | name where "t = StrTag name" "name \<noteq> ''BigInt''" "name \<noteq> ''ArrayBuffer''" "name \<noteq> ''DataView''"
    | n where "t = NumTag n" "n \<noteq> PRIMITIVE" "n \<noteq> VOID" "n \<noteq> ARRAY" "n \<noteq> OBJECT" "n \<noteq> DATE"
        "n \<noteq> REGEXP" "n \<noteq> MAP" "n \<noteq> SET" "n \<noteq> ERROR" "n \<noteq> BIGINT"
    by (cases t) auto
  then show ?thesis
  proof cases
    case 1
    with assms show ?thesis by (auto simp: dclassify_def split: payload.splits)
  next
    case 2
    with assms show ?thesis by (auto simp: dclassify_def tag_defs split: payload.splits)
  next
    case 3
    with assms show ?thesis by (auto simp: dclassify_def tag_defs split: payload.splits)
  next
    case 4
    with assms show ?thesis by (auto simp: dclassify_def tag_defs split: payload.splits)
  next
    case 5
    with assms show ?thesis by (auto simp: dclassify_def tag_defs split: payload.splits)
  next
    case 6
    with assms show ?thesis by (auto simp: dclassify_def tag_defs split: payload.splits)
  next
    case 7
    with assms show ?thesis by (auto simp: dclassify_def tag_defs split: payload.splits)
  next
    case 8
    with assms new show ?thesis
      by (auto simp: dclassify_def tag_defs split: payload.splits)
  next
    case 9
    with assms show ?thesis
      by (auto simp: dclassify_def tag_defs lift_bigint_def
          split: payload.splits val.splits result.splits)
  next
    case 10
    with assms show ?thesis
      by (auto simp: dclassify_def tag_defs lift_bigint_def
          split: payload.splits val.splits result.splits)
  next
    case 11
    with assms show ?thesis by (auto simp: dclassify_def tag_defs split: payload.splits)
  next
    case 12
    with assms show ?thesis by (auto simp: dclassify_def tag_defs split: payload.splits)
  next
    case 13
    with assms new [of name p] show ?thesis
      by (auto simp: dclassify_def tag_defs)
  next
    case 14
    with assms show ?thesis by (auto simp: dclassify_def tag_defs)
  qed
qed

lemma dclassify_DPrim:
  "json_safe r \<Longrightarrow> dclassify r = DPrim p \<Longrightarrow> p \<noteq> Ref a"
  by (cases r) (auto dest!: dclassify_cases)

lemma dclassify_DNew: "dclassify r = DNew ob \<Longrightarrow> \<not> is_buf ob"
  by (cases r) (auto dest!: dclassify_cases)

lemma array_push_not_buf: "array_push v ob = Ok ob' \<Longrightarrow> \<not> is_buf ob'"
  by (auto simp: array_push_def split: obj.splits)

lemma set_add_not_buf: "set_add v ob = Ok ob' \<Longrightarrow> \<not> is_buf ob'"
  by (auto simp: set_add_def split: obj.splits)

lemma map_set_not_buf: "map_set k v ob = Ok ob' \<Longrightarrow> \<not> is_buf ob'"
  by (auto simp: map_set_def split: obj.splits)

lemma set_prop_not_buf: "set_prop k v ob = Ok ob' \<Longrightarrow> \<not> is_buf ob'"
  by (auto simp: set_prop_def split: obj.splits val.splits if_splits)

lemma dclassify_DEach:
  "dclassify r = DEach ob put js \<Longrightarrow>
    \<not> is_buf ob \<and> (\<forall>v ob1 ob2. put v ob1 = Ok ob2 \<longrightarrow> \<not> is_buf ob2)"
  by (cases r) (auto dest!: dclassify_cases dest: array_push_not_buf set_add_not_buf)

lemma dclassify_DEntries:
  "dclassify r = DEntries ob put ps \<Longrightarrow>
    \<not> is_buf ob \<and> (\<forall>k v ob1 ob2. put k v ob1 = Ok ob2 \<longrightarrow> \<not> is_buf ob2)"
  by (cases r) (auto dest!: dclassify_cases dest: map_set_not_buf set_prop_not_buf)

subsection \<open>One call of unpair\<close>

lemma dinv_alloc:
  assumes "dinv W t" "i < length W" "\<not> is_buf ob"
  shows "dinv W \<lparr>reg = (reg t)(KIndex i \<mapsto> Ref (length (dheap t))), dheap = dheap t @ [ob]\<rparr>"
proof -
  let ?t = "\<lparr>reg = (reg t)(KIndex i \<mapsto> Ref (length (dheap t))), dheap = dheap t @ [ob]\<rparr>"
  from assms(1) have old: "j < length W \<and> valid (dheap t) v \<and> (\<forall>a. v = Ref a \<longrightarrow> \<not> is_buf (dheap t ! a))"
    if "reg t (KIndex j) = Some v" for j v
    using that unfolding dinv_def by blast
  from assms(1) have inj: "j = k"
    if "reg t (KIndex j) = Some (Ref a)" "reg t (KIndex k) = Some (Ref a)" for j k a
    using that unfolding dinv_def by blast
  have 1: "j < length W \<and> valid (dheap ?t) v \<and> (\<forall>a. v = Ref a \<longrightarrow> \<not> is_buf (dheap ?t ! a))"
    if "reg ?t (KIndex j) = Some v" for j v
  proof (cases "j = i")
    case True
    with that assms(2,3) show ?thesis by (auto simp: valid_def)
  next
    case False
    with that have "reg t (KIndex j) = Some v" by simp
    from old [OF this] show ?thesis by (cases v) (auto simp: valid_def nth_append)
  qed
  have 2: "j = k" if "reg ?t (KIndex j) = Some (Ref a)" "reg ?t (KIndex k) = Some (Ref a)" for j k a
  proof -
    have ne: "reg t (KIndex l) \<noteq> Some (Ref (length (dheap t)))" for l
      using old [of l "Ref (length (dheap t))"] by (auto simp: valid_def)
    from that ne show ?thesis
      by (cases "j = i"; cases "k = i") (auto dest: inj)
  qed
  from 1 2 show ?thesis unfolding dinv_def by blast
qed

lemma dkeeps_alloc:
  "reg t (KIndex i) = None \<Longrightarrow>
    dkeeps_on {} t \<lparr>reg = (reg t)(KIndex i \<mapsto> v), dheap = dheap t @ xs\<rparr>"
  by (auto simp: dkeeps_on_def nth_append)

lemma dinv_prim:
  assumes "dinv W t" "i < length W" "\<forall>a. p \<noteq> Ref a"
  shows "dinv W \<lparr>reg = (reg t)(KIndex i \<mapsto> p), dheap = dheap t\<rparr>"
proof -
  from assms(3) have "valid (dheap t) p" by (cases p) (simp_all add: valid_def)
  with assms show ?thesis unfolding dinv_def by (auto split: if_splits)
qed

lemma dinv_buf:
  assumes "dinv W t"
  shows "dinv W \<lparr>reg = (reg t)(KPayload i \<mapsto> v), dheap = dheap t @ xs\<rparr>"
proof -
  have "valid (dheap t @ xs) w \<and> (\<forall>a. w = Ref a \<longrightarrow> \<not> is_buf ((dheap t @ xs) ! a))"
    if "valid (dheap t) w \<and> (\<forall>a. w = Ref a \<longrightarrow> \<not> is_buf (dheap t ! a))" for w
    using that by (cases w) (auto simp: valid_def nth_append)
  with assms show ?thesis unfolding dinv_def by simp blast
qed

lemma dkeeps_buf_alloc:
  "dkeeps_on {} t \<lparr>reg = (reg t)(KPayload i \<mapsto> v), dheap = dheap t @ xs\<rparr>"
  by (auto simp: dkeeps_on_def nth_append)

lemma unpair_body_ok:
  assumes rec: "drec_ok W rec" and safe: "list_all json_safe W"
  shows "drec_ok W (unpair_body rec W)"
  unfolding drec_ok_def
proof (intro allI impI)
  fix i t v t'
  assume d: "dinv W t" and run: "unpair_body rec W i t = Ok (v, t')"
  let ?n = "length (dheap t)"
  let ?goal = "dinv W t' \<and> dkeeps_on {} t t' \<and> Rslot W t' i v \<and> valid (dheap t') v \<and>
       (reg t' (KIndex i) = Some v \<or> (\<exists>a. v = Ref a \<and> length (dheap t) \<le> a)) \<and>
       (\<forall>j. reg t (KIndex j) = None \<longrightarrow> reg t' (KIndex j) \<noteq> None \<longrightarrow>
          cdone W t' j \<and> (\<forall>a. reg t' (KIndex j) = Some (Ref a) \<longrightarrow> length (dheap t) \<le> a))"
  show ?goal
  proof (cases "reg t (KIndex i)")
    case (Some w)
    with run have e: "v = w" "t' = t" by (simp_all add: unpair_body_dclassify)
    from d Some have "valid (dheap t) w" unfolding dinv_def by blast
    with e d Some show ?thesis by (simp add: dkeeps_on_refl Rslot_def)
  next
    case None
    with run have i: "i < length W" and sh: "run_dshape rec i t (dclassify (W ! i)) = Ok (v, t')"
      by (simp_all add: unpair_body_dclassify split: if_splits)
    from safe i have js: "json_safe (W ! i)" by (simp add: list_all_length)
    show ?thesis
    proof (cases "dclassify (W ! i)")
      case (DPrim p)
      with sh have e: "v = p" "t' = \<lparr>reg = (reg t)(KIndex i \<mapsto> p), dheap = dheap t\<rparr>"
        by (auto simp: run_dshape_def)
      have np: "\<forall>a. p \<noteq> Ref a" using dclassify_DPrim [OF js DPrim] by blast
      then have vp: "valid (dheap t) p" by (cases p) (simp_all add: valid_def)
      have "dinv W t'" unfolding e using d i np by (rule dinv_prim)
      moreover have "dkeeps_on {} t t'" using dkeeps_alloc [OF None, of p "[]"] by (simp add: e)
      moreover have "Rslot W t' i v" by (simp add: Rslot_def e)
      moreover have "valid (dheap t') v" using vp by (simp add: e)
      moreover have "reg t' (KIndex i) = Some v" by (simp add: e)
      moreover have "cdone W t' j \<and> (\<forall>a. reg t' (KIndex j) = Some (Ref a) \<longrightarrow> ?n \<le> a)"
        if "reg t (KIndex j) = None" "reg t' (KIndex j) \<noteq> None" for j
      proof -
        from that have "j = i" by (auto simp: e split: if_splits)
        with i DPrim np show ?thesis by (simp add: cdone_def e)
      qed
      ultimately show ?thesis by blast
    next
      case (DNew ob)
      with sh have e: "v = Ref ?n" "t' = \<lparr>reg = (reg t)(KIndex i \<mapsto> Ref ?n), dheap = dheap t @ [ob]\<rparr>"
        by (auto simp: run_dshape_def)
      have nb: "\<not> is_buf ob" using dclassify_DNew [OF DNew] .
      have "dinv W t'" unfolding e using d i nb by (rule dinv_alloc)
      moreover have "dkeeps_on {} t t'" unfolding e using None by (rule dkeeps_alloc)
      moreover have "Rslot W t' i v" by (simp add: Rslot_def e)
      moreover have "valid (dheap t') v" by (simp add: e valid_def)
      moreover have "reg t' (KIndex i) = Some v" by (simp add: e)
      moreover have "cdone W t' j \<and> (\<forall>a. reg t' (KIndex j) = Some (Ref a) \<longrightarrow> ?n \<le> a)"
        if "reg t (KIndex j) = None" "reg t' (KIndex j) \<noteq> None" for j
      proof -
        from that have "j = i" by (auto simp: e split: if_splits)
        with i DNew show ?thesis by (simp add: cdone_def e)
      qed
      ultimately show ?thesis by blast
    next
      case (DBuffer bytes)
      with sh have e: "v = Ref ?n"
        "t' = \<lparr>reg = (reg t)(KPayload i \<mapsto> Ref ?n), dheap = dheap t @ [ArrayBufferO bytes]\<rparr>"
        by (auto simp: run_dshape_def)
      have "dinv W t'" unfolding e using d by (rule dinv_buf)
      moreover have "dkeeps_on {} t t'" unfolding e by (rule dkeeps_buf_alloc)
      moreover have "Rslot W t' i v" using i DBuffer by (simp add: Rslot_def bufrel_def e)
      moreover have "valid (dheap t') v" by (simp add: e valid_def)
      moreover have "\<exists>a. v = Ref a \<and> ?n \<le> a" by (simp add: e)
      moreover have "reg t' (KIndex j) = reg t (KIndex j)" for j by (simp add: e)
      ultimately show ?thesis by simp
    next
      case (DView bytes)
      with sh have e: "v = Ref (Suc ?n)"
        "t' = \<lparr>reg = (reg t)(KPayload i \<mapsto> Ref (Suc ?n)),
               dheap = dheap t @ [ArrayBufferO bytes, DataViewO ?n 0 (length bytes)]\<rparr>"
        by (auto simp: run_dshape_def)
      have "dinv W t'" unfolding e using d by (rule dinv_buf)
      moreover have "dkeeps_on {} t t'" unfolding e by (rule dkeeps_buf_alloc)
      moreover have "Rslot W t' i v" using i DView by (simp add: Rslot_def bufrel_def e nth_append)
      moreover have "valid (dheap t') v" by (simp add: e valid_def)
      moreover have "\<exists>a. v = Ref a \<and> ?n \<le> a" by (simp add: e)
      moreover have "reg t' (KIndex j) = reg t (KIndex j)" for j by (simp add: e)
      ultimately show ?thesis by simp
    next
      case (DRaise e)
      with sh show ?thesis by (simp add: run_dshape_def)
    next
      case (DEach ob put js)
      let ?t1 = "\<lparr>reg = (reg t)(KIndex i \<mapsto> Ref ?n), dheap = dheap t @ [ob]\<rparr>"
      from DEach sh have loop: "unpair_each rec put ?n js ?t1 = Ok t'" and e: "v = Ref ?n"
        by (auto simp: run_dshape_def rbind_Ok_iff)
      from dclassify_DEach [OF DEach] have nb: "\<not> is_buf ob"
        and putk: "\<And>v ob1 ob2. put v ob1 = Ok ob2 \<Longrightarrow> \<not> is_buf ob2"
        by blast+
      have d1: "dinv W ?t1" using d i nb by (rule dinv_alloc)
      have k1: "dkeeps_on {} t ?t1" using None by (rule dkeeps_alloc)
      have "dinv W t' \<and> dkeeps_on {?n} ?t1 t' \<and>
        (\<exists>vs. list_all2 (Rslot W t') ([] @ js) ([] @ vs) \<and> sep ([] @ js) ([] @ vs) \<and>
          puts put ([] @ vs) ob = Ok (dheap t' ! ?n)) \<and>
        (\<forall>j. reg ?t1 (KIndex j) = None \<longrightarrow> reg t' (KIndex j) \<noteq> None \<longrightarrow>
          cdone W t' j \<and> (\<forall>b. reg t' (KIndex j) = Some (Ref b) \<longrightarrow> length (dheap ?t1) \<le> b))"
        by (rule unpair_each_ok [OF rec putk d1 _ _ _ _ _ _ loop])
           (simp_all add: nb sep_def)
      then obtain vs where d': "dinv W t'" and k': "dkeeps_on {?n} ?t1 t'"
        and l: "list_all2 (Rslot W t') js vs" and sp: "sep js vs"
        and p: "puts put vs ob = Ok (dheap t' ! ?n)"
        and new1: "\<And>j. reg ?t1 (KIndex j) = None \<Longrightarrow> reg t' (KIndex j) \<noteq> None \<Longrightarrow>
          cdone W t' j \<and> (\<forall>b. reg t' (KIndex j) = Some (Ref b) \<longrightarrow> length (dheap ?t1) \<le> b)"
        by auto
      have r': "reg t' (KIndex i) = Some (Ref ?n)" using dkeeps_reg [OF k', of i "Ref ?n"] by simp
      have len': "Suc ?n \<le> length (dheap t')" using dkeeps_length [OF k'] by simp
      have k: "dkeeps_on {} t t'"
        unfolding dkeeps_on_def
      proof (intro conjI allI impI ballI)
        fix j w assume "reg t (KIndex j) = Some w"
        with None have "reg ?t1 (KIndex j) = Some w" by (auto split: if_splits)
        from dkeeps_reg [OF k' this] show "reg t' (KIndex j) = Some w" .
      next
        show "length (dheap t) \<le> length (dheap t')" using len' by simp
      next
        fix b assume b: "b < length (dheap t)" "b \<notin> {}"
        then have "dheap t' ! b = dheap ?t1 ! b" using dkeeps_nth [OF k', of b] by simp
        with b show "dheap t' ! b = dheap t ! b" by (simp add: nth_append)
      qed simp_all
      have new: "cdone W t' j \<and> (\<forall>a. reg t' (KIndex j) = Some (Ref a) \<longrightarrow> ?n \<le> a)"
        if j: "reg t (KIndex j) = None" "reg t' (KIndex j) \<noteq> None" for j
      proof (cases "j = i")
        case True
        with i DEach r' len' l sp p show ?thesis by (auto simp: cdone_def)
      next
        case False
        with j have "reg ?t1 (KIndex j) = None" by simp
        from new1 [OF this j(2)] show ?thesis by auto
      qed
      from d' k r' len' new e show ?thesis by (simp add: Rslot_def valid_def)
    next
      case (DEntries ob put ps)
      let ?t1 = "\<lparr>reg = (reg t)(KIndex i \<mapsto> Ref ?n), dheap = dheap t @ [ob]\<rparr>"
      let ?R = "\<lambda>t p kv. Rslot W t (fst p) (fst kv) \<and> Rslot W t (snd p) (snd kv)"
      from DEntries sh have loop: "unpair_entries rec put ?n ps ?t1 = Ok t'" and e: "v = Ref ?n"
        by (auto simp: run_dshape_def rbind_Ok_iff)
      from dclassify_DEntries [OF DEntries] have nb: "\<not> is_buf ob"
        and putk: "\<And>k v ob1 ob2. put k v ob1 = Ok ob2 \<Longrightarrow> \<not> is_buf ob2"
        by blast+
      have d1: "dinv W ?t1" using d i nb by (rule dinv_alloc)
      have "dinv W t' \<and> dkeeps_on {?n} ?t1 t' \<and>
        (\<exists>kvs. list_all2 (?R t') ([] @ ps) ([] @ kvs) \<and>
          sep (map fst ([] @ ps)) (map fst ([] @ kvs)) \<and>
          puts2 put ([] @ kvs) ob = Ok (dheap t' ! ?n)) \<and>
        (\<forall>j. reg ?t1 (KIndex j) = None \<longrightarrow> reg t' (KIndex j) \<noteq> None \<longrightarrow>
          cdone W t' j \<and> (\<forall>b. reg t' (KIndex j) = Some (Ref b) \<longrightarrow> length (dheap ?t1) \<le> b))"
        by (rule unpair_entries_ok [OF rec putk d1 _ _ _ _ _ _ loop])
           (simp_all add: nb sep_def)
      then obtain kvs where d': "dinv W t'" and k': "dkeeps_on {?n} ?t1 t'"
        and l: "list_all2 (?R t') ps kvs" and sp: "sep (map fst ps) (map fst kvs)"
        and p: "puts2 put kvs ob = Ok (dheap t' ! ?n)"
        and new1: "\<And>j. reg ?t1 (KIndex j) = None \<Longrightarrow> reg t' (KIndex j) \<noteq> None \<Longrightarrow>
          cdone W t' j \<and> (\<forall>b. reg t' (KIndex j) = Some (Ref b) \<longrightarrow> length (dheap ?t1) \<le> b)"
        by auto
      have r': "reg t' (KIndex i) = Some (Ref ?n)" using dkeeps_reg [OF k', of i "Ref ?n"] by simp
      have len': "Suc ?n \<le> length (dheap t')" using dkeeps_length [OF k'] by simp
      have k: "dkeeps_on {} t t'"
        unfolding dkeeps_on_def
      proof (intro conjI allI impI ballI)
        fix j w assume "reg t (KIndex j) = Some w"
        with None have "reg ?t1 (KIndex j) = Some w" by (auto split: if_splits)
        from dkeeps_reg [OF k' this] show "reg t' (KIndex j) = Some w" .
      next
        show "length (dheap t) \<le> length (dheap t')" using len' by simp
      next
        fix b assume b: "b < length (dheap t)" "b \<notin> {}"
        then have "dheap t' ! b = dheap ?t1 ! b" using dkeeps_nth [OF k', of b] by simp
        with b show "dheap t' ! b = dheap t ! b" by (simp add: nth_append)
      qed simp_all
      have new: "cdone W t' j \<and> (\<forall>a. reg t' (KIndex j) = Some (Ref a) \<longrightarrow> ?n \<le> a)"
        if j: "reg t (KIndex j) = None" "reg t' (KIndex j) \<noteq> None" for j
      proof (cases "j = i")
        case True
        with i DEntries r' len' l sp p show ?thesis by (auto simp: cdone_def)
      next
        case False
        with j have "reg ?t1 (KIndex j) = None" by simp
        from new1 [OF this j(2)] show ?thesis by auto
      qed
      from d' k r' len' new e show ?thesis by (simp add: Rslot_def valid_def)
    qed
  qed
qed

lemma unpair_ok: "list_all json_safe W \<Longrightarrow> drec_ok W (unpair n W)"
proof (induction n)
  case 0
  show ?case by (simp add: drec_ok_def)
next
  case (Suc n)
  then show ?case by (simp add: unpair_body_ok)
qed

subsection \<open>Termination and success of unpair\<close>

lemma finite_unreg: "finite (unreg W t)"
  by (simp add: unreg_def)

lemma unreg_mono: "dkeeps_on A t t' \<Longrightarrow> card (unreg W t') \<le> card (unreg W t)"
proof (rule card_mono [OF finite_unreg])
  assume k: "dkeeps_on A t t'"
  show "unreg W t' \<subseteq> unreg W t"
  proof
    fix i assume "i \<in> unreg W t'"
    then have i: "i < length W" "reg t' (KIndex i) = None" by (simp_all add: unreg_def)
    have "reg t (KIndex i) = None"
    proof (cases "reg t (KIndex i)")
      case (Some w)
      from dkeeps_reg [OF k this] i(2) show ?thesis by simp
    qed simp
    with i(1) show "i \<in> unreg W t" by (simp add: unreg_def)
  qed
qed

lemma fine_OkI [simp]: "fine g (Ok x)"
  by (simp add: fine_def)

lemma fine_rbind:
  assumes "fine g m" "\<And>x. m = Ok x \<Longrightarrow> fine g' (f x)" "g' \<Longrightarrow> g"
  shows "fine g' (rbind m f)"
  using assms by (cases m) (auto simp: fine_def)

lemma drec_step:
  assumes rec: "drec_ok W rec" and d: "dinv W t" and r: "rec i t = Ok (v, t1)"
    and p: "g \<longrightarrow> pdone W t"
  shows "dinv W t1" "dkeeps_on {} t t1" "g \<longrightarrow> pdone W t1"
    "card (unreg W t1) \<le> card (unreg W t)" "Rslot W t1 i v"
proof -
  from rec d r show d1: "dinv W t1" and k: "dkeeps_on {} t t1" and "Rslot W t1 i v"
    unfolding drec_ok_def by blast+
  from rec d r have new: "\<And>j. reg t (KIndex j) = None \<Longrightarrow> reg t1 (KIndex j) \<noteq> None \<Longrightarrow> cdone W t1 j"
    unfolding drec_ok_def by blast
  show "card (unreg W t1) \<le> card (unreg W t)" using k by (rule unreg_mono)
  show "g \<longrightarrow> pdone W t1"
  proof
    assume g
    with p have pd: "pdone W t" by simp
    show "pdone W t1"
      unfolding pdone_def
    proof (intro allI impI)
      fix j w q
      assume j: "reg t1 (KIndex j) = Some w" and c: "dclassify (W ! j) = DPrim q"
      show "w = q"
      proof (cases "reg t (KIndex j)")
        case None
        from new [OF None] j have "cdone W t1 j" by simp
        with j c show ?thesis by (simp add: cdone_def)
      next
        case (Some w')
        from dkeeps_reg [OF k Some] j have "w' = w" by simp
        with pd Some c show ?thesis by (auto simp: pdone_def)
      qed
    qed
  qed
qed

lemma modify_step:
  assumes d: "dinv W t" and a: "a < length (dheap t)" and nb: "\<not> is_buf ob'"
  shows "dinv W (t\<lparr>dheap := (dheap t)[a := ob']\<rparr>)"
    "pdone W t \<Longrightarrow> pdone W (t\<lparr>dheap := (dheap t)[a := ob']\<rparr>)"
    "unreg W (t\<lparr>dheap := (dheap t)[a := ob']\<rparr>) = unreg W t"
  using d nb by (simp_all add: dinv_modify pdone_def unreg_def)

lemma modify_fine:
  assumes "a < length (dheap t)" "fine g (f (dheap t ! a))"
  shows "fine g (modify a f t)"
  using assms by (cases "f (dheap t ! a)") (simp_all add: modify_def fine_def)

lemma unpair_each_fine:
  assumes rec: "drec_ok W rec" and rf: "drec_fine W g n rec"
    and Kb: "\<And>ob. K ob \<Longrightarrow> \<not> is_buf ob"
    and putK: "\<And>v ob ob'. K ob \<Longrightarrow> put v ob = Ok ob' \<Longrightarrow> K ob'"
    and putf: "\<And>v ob. K ob \<Longrightarrow> fine g (put v ob)"
  shows "dinv W t \<Longrightarrow> (g \<longrightarrow> pdone W t) \<Longrightarrow> a < length (dheap t) \<Longrightarrow> K (dheap t ! a) \<Longrightarrow>
    card (unreg W t) < n \<Longrightarrow> (g \<longrightarrow> (\<forall>j\<in>set js. j < length W)) \<Longrightarrow>
    fine g (unpair_each rec put a js t)"
proof (induction js arbitrary: t)
  case Nil
  show ?case by simp
next
  case (Cons i js)
  from rf Cons.prems(1,2,5) have f1: "fine (g \<and> i < length W) (rec i t)"
    unfolding drec_fine_def by blast
  show ?case
    unfolding unpair_each.simps
  proof (rule fine_rbind [OF f1])
    show "g \<Longrightarrow> g \<and> i < length W" using Cons.prems(6) by simp
    fix x assume x: "rec i t = Ok x"
    obtain v t1 where xe: "x = (v, t1)" by (cases x)
    note st = drec_step [OF rec Cons.prems(1) x [unfolded xe] Cons.prems(2)]
    have a1: "a < length (dheap t1)" using dkeeps_length [OF st(2)] Cons.prems(3) by simp
    have same: "dheap t1 ! a = dheap t ! a" using dkeeps_nth [OF st(2) Cons.prems(3)] by simp
    have K1: "K (dheap t1 ! a)" using Cons.prems(4) same by simp
    have "fine g (rbind (modify a (put v) t1) (unpair_each rec put a js))"
    proof (rule fine_rbind [OF modify_fine [of a t1 g "put v", OF a1 putf [OF K1]]])
      fix t2 assume "modify a (put v) t1 = Ok t2"
      then obtain ob' where p: "put v (dheap t1 ! a) = Ok ob'"
        and t2: "t2 = t1\<lparr>dheap := (dheap t1)[a := ob']\<rparr>"
        by (auto simp: modify_Ok)
      have K': "K ob'" using K1 p by (rule putK)
      note ms = modify_step [OF st(1) a1 Kb [OF K'], folded t2]
      show "fine g (unpair_each rec put a js t2)"
      proof (rule Cons.IH)
        show "dinv W t2" by (rule ms(1))
        show "g \<longrightarrow> pdone W t2" using st(3) ms(2) by blast
        show "a < length (dheap t2)" using a1 by (simp add: t2)
        show "K (dheap t2 ! a)" using K' a1 by (simp add: t2)
        show "card (unreg W t2) < n" using ms(3) st(4) Cons.prems(5) by simp
        show "g \<longrightarrow> (\<forall>j\<in>set js. j < length W)" using Cons.prems(6) by simp
      qed
    qed
    then show "fine g (case x of (v, s1) \<Rightarrow> rbind (modify a (put v) s1) (unpair_each rec put a js))"
      by (simp add: xe)
  qed
qed

lemma unpair_entries_fine:
  assumes rec: "drec_ok W rec" and rf: "drec_fine W g n rec"
    and Kb: "\<And>ob. K ob \<Longrightarrow> \<not> is_buf ob"
    and putK: "\<And>k v ob ob'. K ob \<Longrightarrow> put k v ob = Ok ob' \<Longrightarrow> K ob'"
    and putf: "\<And>k v ob. K ob \<Longrightarrow> fine (g \<and> P k) (put k v ob)"
    and kp: "\<And>p t k. g \<Longrightarrow> p \<in> set ps0 \<Longrightarrow> pdone W t \<Longrightarrow> dinv W t \<Longrightarrow>
        Rslot W t (fst p) k \<Longrightarrow> P k"
  shows "dinv W t \<Longrightarrow> (g \<longrightarrow> pdone W t) \<Longrightarrow> a < length (dheap t) \<Longrightarrow> K (dheap t ! a) \<Longrightarrow>
    card (unreg W t) < n \<Longrightarrow> set ps \<subseteq> set ps0 \<Longrightarrow>
    (g \<longrightarrow> (\<forall>p\<in>set ps. fst p < length W \<and> snd p < length W)) \<Longrightarrow>
    fine g (unpair_entries rec put a ps t)"
proof (induction ps arbitrary: t)
  case Nil
  show ?case by simp
next
  case (Cons p ps)
  from rf Cons.prems(1,2,5) have f1: "fine (g \<and> fst p < length W) (rec (fst p) t)"
    unfolding drec_fine_def by blast
  show ?case
    unfolding unpair_entries.simps
  proof (rule fine_rbind [OF f1])
    show "g \<Longrightarrow> g \<and> fst p < length W" using Cons.prems(7) by simp
    fix x assume x: "rec (fst p) t = Ok x"
    obtain k t1 where xe: "x = (k, t1)" by (cases x)
    note st = drec_step [OF rec Cons.prems(1) x [unfolded xe] Cons.prems(2)]
    have c1: "card (unreg W t1) < n" using st(4) Cons.prems(5) by simp
    from rf st(1,3) c1 have f2: "fine (g \<and> snd p < length W) (rec (snd p) t1)"
      unfolding drec_fine_def by blast
    have Pk: "P k" if g
    proof (rule kp [OF that])
      show "p \<in> set ps0" using Cons.prems(6) by simp
      show "pdone W t1" using st(3) that by simp
      show "dinv W t1" by (rule st(1))
      show "Rslot W t1 (fst p) k" by (rule st(5))
    qed
    have "fine g (rbind (rec (snd p) t1) (\<lambda>(v, s2).
        rbind (modify a (put k v) s2) (unpair_entries rec put a ps)))"
    proof (rule fine_rbind [OF f2])
      show "g \<Longrightarrow> g \<and> snd p < length W" using Cons.prems(7) by simp
      fix y assume y: "rec (snd p) t1 = Ok y"
      obtain v t2 where ye: "y = (v, t2)" by (cases y)
      note st2 = drec_step [OF rec st(1) y [unfolded ye] st(3)]
      have k02: "dkeeps_on {} t t2" using st(2) st2(2) by (rule dkeeps_on_trans)
      have a2: "a < length (dheap t2)" using dkeeps_length [OF k02] Cons.prems(3) by simp
      have same: "dheap t2 ! a = dheap t ! a" using dkeeps_nth [OF k02 Cons.prems(3)] by simp
      have K2: "K (dheap t2 ! a)" using Cons.prems(4) same by simp
      have "fine g (rbind (modify a (put k v) t2) (unpair_entries rec put a ps))"
      proof (rule fine_rbind [OF modify_fine [of a t2 "g \<and> P k" "put k v", OF a2 putf [OF K2]]])
        show "g \<Longrightarrow> g \<and> P k" using Pk by simp
        fix t3 assume "modify a (put k v) t2 = Ok t3"
        then obtain ob' where pt: "put k v (dheap t2 ! a) = Ok ob'"
          and t3: "t3 = t2\<lparr>dheap := (dheap t2)[a := ob']\<rparr>"
          by (auto simp: modify_Ok)
        have K': "K ob'" using K2 pt by (rule putK)
        note ms = modify_step [OF st2(1) a2 Kb [OF K'], folded t3]
        show "fine g (unpair_entries rec put a ps t3)"
        proof (rule Cons.IH)
          show "dinv W t3" by (rule ms(1))
          show "g \<longrightarrow> pdone W t3" using st2(3) ms(2) by blast
          show "a < length (dheap t3)" using a2 by (simp add: t3)
          show "K (dheap t3 ! a)" using K' a2 by (simp add: t3)
          show "card (unreg W t3) < n" using ms(3) st2(4) c1 by simp
          show "set ps \<subseteq> set ps0" using Cons.prems(6) by simp
          show "g \<longrightarrow> (\<forall>p\<in>set ps. fst p < length W \<and> snd p < length W)"
            using Cons.prems(7) by simp
        qed
      qed
      then show "fine g (case y of (v, s2) \<Rightarrow>
          rbind (modify a (put k v) s2) (unpair_entries rec put a ps))"
        by (simp add: ye)
    qed
    then show "fine g (case x of (k, s1) \<Rightarrow> rbind (rec (snd p) s1) (\<lambda>(v, s2).
        rbind (modify a (put k v) s2) (unpair_entries rec put a ps)))"
      by (simp add: xe)
  qed
qed

lemma dinv_empty: "dinv W \<lparr>reg = Map.empty, dheap = []\<rparr>"
  by (simp add: dinv_def)

lemma card_unreg_alloc:
  assumes "i < length W" "reg t (KIndex i) = None" "card (unreg W t) < Suc n"
  shows "card (unreg W \<lparr>reg = (reg t)(KIndex i \<mapsto> v), dheap = d\<rparr>) < n"
proof -
  have "unreg W \<lparr>reg = (reg t)(KIndex i \<mapsto> v), dheap = d\<rparr> = unreg W t - {i}"
    by (auto simp: unreg_def)
  moreover from assms have "i \<in> unreg W t" by (simp add: unreg_def)
  ultimately show ?thesis using assms(3) finite_unreg [of W t]
    by (simp add: card_Diff_singleton) (metis card_gt_0_iff empty_iff less_Suc_eq_le less_imp_diff_less
        Suc_pred less_Suc_eq not_less)
qed

lemma pdone_alloc:
  assumes "pdone W t" "\<And>p. dclassify (W ! i) = DPrim p \<Longrightarrow> v = p"
  shows "pdone W \<lparr>reg = (reg t)(KIndex i \<mapsto> v), dheap = d\<rparr>"
  using assms unfolding pdone_def by (auto split: if_splits)

lemma array_push_fine: "fine g (array_push v (ArrayO xs))"
  by (simp add: array_push_def)

lemma set_add_fine: "fine g (set_add v (SetO xs))"
  by (simp add: set_add_def)

lemma map_set_fine: "fine g (map_set k v (MapO kvs))"
  by (simp add: map_set_def)

lemma set_prop_fine:
  "fine (g \<and> (\<exists>key. k = Str key \<and> key \<noteq> ''__proto__'')) (set_prop k v (ObjectO props tj))"
  by (auto simp: set_prop_def fine_def split: val.splits)

lemma unpair_body_fine:
  assumes rec: "drec_ok W rec" and rf: "drec_fine W g n rec"
    and safe: "list_all json_safe W" and gw: "g \<longrightarrow> wgood W"
  shows "drec_fine W g (Suc n) (unpair_body rec W)"
  unfolding drec_fine_def
proof (intro allI impI)
  fix i t
  assume d: "dinv W t" and pd: "g \<longrightarrow> pdone W t" and c: "card (unreg W t) < Suc n"
  let ?n = "length (dheap t)"
  show "fine (g \<and> i < length W) (unpair_body rec W i t)"
  proof (cases "reg t (KIndex i)")
    case (Some w)
    then show ?thesis by (simp add: unpair_body_dclassify)
  next
    case None
    show ?thesis
    proof (cases "i < length W")
      case False
      with None show ?thesis by (simp add: unpair_body_dclassify fine_def)
    next
      case i: True
      with None have run: "unpair_body rec W i t = run_dshape rec i t (dclassify (W ! i))"
        by (simp add: unpair_body_dclassify)
      obtain tg pl where r: "W ! i = (tg, pl)" by (cases "W ! i")
      have wg: "g \<Longrightarrow> (case dclassify (W ! i) of
          DRaise e \<Rightarrow> False
        | DEach ob put js \<Rightarrow> \<forall>j\<in>set js. j < length W
        | DEntries ob put ps \<Rightarrow>
            \<forall>p\<in>set ps. fst p < length W \<and> snd p < length W \<and>
              (fst (W ! i) = NumTag OBJECT \<longrightarrow> strkey W (fst p))
        | _ \<Rightarrow> True)"
        using gw i unfolding wgood_def by blast
      let ?t1 = "\<lambda>ob. \<lparr>reg = (reg t)(KIndex i \<mapsto> Ref ?n), dheap = dheap t @ [ob]\<rparr>"
      have c1: "card (unreg W (?t1 ob)) < n" for ob using i None c by (rule card_unreg_alloc)
      have each: "fine g (unpair_each rec put ?n js (?t1 ob))"
        if sh: "dclassify (W ! i) = DEach ob put js" and K: "K ob"
          and Kb: "\<And>ob. K ob \<Longrightarrow> \<not> is_buf ob"
          and putK: "\<And>v ob ob'. K ob \<Longrightarrow> put v ob = Ok ob' \<Longrightarrow> K ob'"
          and putf: "\<And>v ob. K ob \<Longrightarrow> fine g (put v ob)" for ob put js K
      proof (rule unpair_each_fine [where K = K and put = put and W = W and rec = rec and g = g
            and n = n])
        show "drec_ok W rec" by (rule rec)
        show "drec_fine W g n rec" by (rule rf)
        show "\<And>ob. K ob \<Longrightarrow> \<not> is_buf ob" by (rule Kb)
        show "\<And>v ob ob'. K ob \<Longrightarrow> put v ob = Ok ob' \<Longrightarrow> K ob'" by (rule putK)
        show "\<And>v ob. K ob \<Longrightarrow> fine g (put v ob)" by (rule putf)
        show "dinv W (?t1 ob)" using d i Kb [OF K] by (rule dinv_alloc)
        show "g \<longrightarrow> pdone W (?t1 ob)" using pd sh by (auto intro: pdone_alloc)
        show "length (dheap t) < length (dheap (?t1 ob))" by simp
        show "K (dheap (?t1 ob) ! ?n)" using K by simp
        show "card (unreg W (?t1 ob)) < n" by (rule c1)
        show "g \<longrightarrow> (\<forall>j\<in>set js. j < length W)" using wg sh by auto
      qed
      have entries: "fine g (unpair_entries rec put ?n ps (?t1 ob))"
        if sh: "dclassify (W ! i) = DEntries ob put ps" and K: "K ob"
          and Kb: "\<And>ob. K ob \<Longrightarrow> \<not> is_buf ob"
          and putK: "\<And>k v ob ob'. K ob \<Longrightarrow> put k v ob = Ok ob' \<Longrightarrow> K ob'"
          and putf: "\<And>k v ob. K ob \<Longrightarrow> fine (g \<and> P k) (put k v ob)"
          and kp: "\<And>p t k. g \<Longrightarrow> p \<in> set ps \<Longrightarrow> pdone W t \<Longrightarrow> dinv W t \<Longrightarrow>
            Rslot W t (fst p) k \<Longrightarrow> P k" for ob put ps K P
      proof (rule unpair_entries_fine [where K = K and put = put and P = P and ?ps0.0 = ps
            and W = W and rec = rec and g = g and n = n])
        show "drec_ok W rec" by (rule rec)
        show "drec_fine W g n rec" by (rule rf)
        show "\<And>ob. K ob \<Longrightarrow> \<not> is_buf ob" by (rule Kb)
        show "\<And>k v ob ob'. K ob \<Longrightarrow> put k v ob = Ok ob' \<Longrightarrow> K ob'" by (rule putK)
        show "\<And>k v ob. K ob \<Longrightarrow> fine (g \<and> P k) (put k v ob)" by (rule putf)
        show "\<And>p t k. g \<Longrightarrow> p \<in> set ps \<Longrightarrow> pdone W t \<Longrightarrow> dinv W t \<Longrightarrow>
            Rslot W t (fst p) k \<Longrightarrow> P k" by (rule kp)
        show "dinv W (?t1 ob)" using d i Kb [OF K] by (rule dinv_alloc)
        show "g \<longrightarrow> pdone W (?t1 ob)" using pd sh by (auto intro: pdone_alloc)
        show "length (dheap t) < length (dheap (?t1 ob))" by simp
        show "K (dheap (?t1 ob) ! ?n)" using K by simp
        show "card (unreg W (?t1 ob)) < n" by (rule c1)
        show "set ps \<subseteq> set ps" by simp
        show "g \<longrightarrow> (\<forall>p\<in>set ps. fst p < length W \<and> snd p < length W)" using wg sh by auto
      qed
      from dclassify_cases [OF refl, of tg pl]
      consider e where "dclassify (W ! i) = DRaise e"
        | v where "dclassify (W ! i) = DPrim v"
        | ob where "dclassify (W ! i) = DNew ob"
        | bs where "dclassify (W ! i) = DBuffer bs"
        | bs where "dclassify (W ! i) = DView bs"
        | js where "dclassify (W ! i) = DEach (ArrayO []) array_push js"
        | js where "dclassify (W ! i) = DEach (SetO []) set_add js"
        | ps where "dclassify (W ! i) = DEntries (ObjectO [] None) set_prop ps" "tg = NumTag OBJECT"
        | ps where "dclassify (W ! i) = DEntries (MapO []) map_set ps"
        unfolding r by blast
      then show ?thesis
      proof cases
        case 1
        with wg run show ?thesis by (auto simp: fine_def run_dshape_def)
      next
        case 2
        with run show ?thesis by (simp add: run_dshape_def)
      next
        case 3
        with run show ?thesis by (simp add: run_dshape_def)
      next
        case 4
        with run show ?thesis by (simp add: run_dshape_def)
      next
        case 5
        with run show ?thesis by (simp add: run_dshape_def)
      next
        case 6
        have "fine g (unpair_each rec array_push ?n js (?t1 (ArrayO [])))"
          by (rule each [OF 6, where K = "\<lambda>ob. \<exists>xs. ob = ArrayO xs"])
             (auto simp: array_push_def)
        then show ?thesis unfolding run 6 run_dshape_def
          by (auto intro!: fine_rbind [where g = g])
      next
        case 7
        have "fine g (unpair_each rec set_add ?n js (?t1 (SetO [])))"
          by (rule each [OF 7, where K = "\<lambda>ob. \<exists>xs. ob = SetO xs"])
             (auto simp: set_add_def)
        then show ?thesis unfolding run 7 run_dshape_def
          by (auto intro!: fine_rbind [where g = g])
      next
        case 8
        have kp: "\<exists>key. k = Str key \<and> key \<noteq> ''__proto__''"
          if g "p \<in> set ps" "pdone W t'" "dinv W t'" "Rslot W t' (fst p) k" for p t' k
        proof -
          from wg [OF \<open>g\<close>] 8 that(2) r have "strkey W (fst p)" by auto
          then obtain key where key: "dclassify (W ! fst p) = DPrim (Str key)" "key \<noteq> ''__proto__''"
            by (auto simp: strkey_def)
          from that(5) key(1) have "reg t' (KIndex (fst p)) = Some k"
            by (auto simp: Rslot_def bufrel_def)
          with that(3) key(1) have "k = Str key" by (auto simp: pdone_def)
          with key(2) show ?thesis by simp
        qed
        have "fine g (unpair_entries rec set_prop ?n ps (?t1 (ObjectO [] None)))"
        proof (rule entries [OF 8(1), where K = "\<lambda>ob. \<exists>props tj. ob = ObjectO props tj"
              and P = "\<lambda>k. \<exists>key. k = Str key \<and> key \<noteq> ''__proto__''"])
          show "\<exists>props tj. ObjectO [] None = ObjectO props tj" by simp
          show "\<And>ob. \<exists>props tj. ob = ObjectO props tj \<Longrightarrow> \<not> is_buf ob" by auto
          show "\<And>k v ob ob'. \<exists>props tj. ob = ObjectO props tj \<Longrightarrow> set_prop k v ob = Ok ob' \<Longrightarrow>
              \<exists>props tj. ob' = ObjectO props tj"
            by (auto simp: set_prop_def split: val.splits if_splits)
          show "\<And>k v ob. \<exists>props tj. ob = ObjectO props tj \<Longrightarrow>
              fine (g \<and> (\<exists>key. k = Str key \<and> key \<noteq> ''__proto__'')) (set_prop k v ob)"
            using set_prop_fine by auto
        qed (rule kp)
        then show ?thesis unfolding run 8 run_dshape_def
          by (auto intro!: fine_rbind [where g = g])
      next
        case 9
        have "fine g (unpair_entries rec map_set ?n ps (?t1 (MapO [])))"
          by (rule entries [OF 9, where K = "\<lambda>ob. \<exists>kvs. ob = MapO kvs" and P = "\<lambda>k. True"])
             (auto simp: map_set_def)
        then show ?thesis unfolding run 9 run_dshape_def
          by (auto intro!: fine_rbind [where g = g])
      qed
    qed
  qed
qed

lemma unpair_fine:
  assumes "list_all json_safe W" "g \<longrightarrow> wgood W"
  shows "drec_fine W g n (unpair n W)"
proof (induction n)
  case 0
  show ?case by (simp add: drec_fine_def)
next
  case (Suc n)
  from unpair_body_fine [OF unpair_ok [OF assms(1)] Suc assms] show ?case by simp
qed

lemma deserialize_fine:
  assumes "list_all json_safe W" "g \<longrightarrow> wgood W \<and> W \<noteq> []"
  shows "fine g (deserialize (Suc (length W)) W)"
proof -
  let ?t0 = "\<lparr>reg = Map.empty, dheap = []\<rparr>"
  have "unreg W ?t0 = {..<length W}" by (auto simp: unreg_def)
  then have "card (unreg W ?t0) < Suc (length W)" by simp
  moreover have "pdone W ?t0" by (simp add: pdone_def)
  ultimately have "fine (g \<and> 0 < length W) (unpair (Suc (length W)) W 0 ?t0)"
    using unpair_fine [of W g "Suc (length W)"] assms dinv_empty [of W]
    unfolding drec_fine_def by blast
  with assms(2) show ?thesis
    unfolding deserialize_def by (auto intro!: fine_rbind [where g = "g \<and> 0 < length W"])
qed

subsection \<open>What the decoder makes of an encoded record\<close>

lemma filter_ta_kinds: "filter (\<lambda>k'. ta_name k' = ta_name k) ta_kinds = [k]"
  by (cases k) (simp_all add: ta_kinds_def)

lemma ta_name_not_error: "ta_name k \<notin> set error_names"
  by (cases k) (simp_all add: error_names_def)

lemma ta_name_not_boxed:
  "ta_name k \<noteq> ''Boolean''" "ta_name k \<noteq> ''Number''" "ta_name k \<noteq> ''String''"
  "ta_name k \<noteq> ''BigInt''"
  by (cases k; simp)+

lemma env_new_typed: "env_new (ta_name k) (PItems xs) = Ok (TypedArrayO k (map (ta_conv k) xs))"
  by (simp add: env_new_def ta_name_not_error ta_name_not_boxed filter_ta_kinds)

lemma dclassify_typed:
  "dclassify (StrTag (ta_name k), PItems xs) = DNew (TypedArrayO k (map (ta_conv k) xs))"
  by (simp add: dclassify_def env_new_typed lift_new_def ta_name_neq ta_name_not_boxed)

lemma map_word_uint:
  "map word_of_int (map uint (bytes :: 8 word list)) = bytes"
  "map (word_of_int \<circ> uint) bytes = bytes"
  by (induction bytes) simp_all

lemma expect_obj_not_prim [simp]: "expect_obj h m ob \<noteq> DPrim p"
  by (cases ob) (simp_all add: expect_obj_def split: option.splits obj.splits)

lemma dclassify_enc_prim:
  "\<not> is_fs x \<Longrightarrow> \<forall>a. x \<noteq> Ref a \<Longrightarrow> dclassify (enc h True False m x) = DPrim x"
  by (cases x)
    (simp_all add: enc_def classify_def dclassify_def tag_defs lift_bigint_def
      string_to_bigint_toString)

lemma dclassify_enc_obj:
  assumes "a < length h" "\<forall>e. classify h True False (Ref a) \<noteq> Raise e"
  shows "dclassify (enc h True False m (Ref a)) = expect_obj h m (h ! a)"
proof (cases "h ! a")
  case (TypedArrayO k xs)
  with assms show ?thesis
    by (simp add: enc_def classify_def classify_obj_def expect_obj_def dclassify_typed)
next
  case (DataViewO b off len)
  with assms show ?thesis
    by (auto simp: enc_def classify_def classify_obj_def expect_obj_def dclassify_def tag_defs
        map_word_uint split: obj.splits if_splits)
next
  case (DateO t)
  with assms show ?thesis
    by (cases t)
      (simp_all add: enc_def classify_def classify_obj_def expect_obj_def dclassify_def tag_defs)
next
  case (ErrorO name message)
  with assms show ?thesis
    by (simp add: enc_def classify_def classify_obj_def expect_obj_def dclassify_def tag_defs
        env_new_def lift_new_def error_names_def)
qed (use assms in \<open>simp_all add: enc_def classify_def classify_obj_def expect_obj_def
    dclassify_def tag_defs env_new_def lift_new_def lift_bigint_def string_to_bigint_toString
    map_word_uint\<close>)

subsection \<open>Filling a container\<close>

lemma puts_array_push: "puts array_push vs (ArrayO xs0) = Ok (ArrayO (xs0 @ vs))"
  by (induction vs arbitrary: xs0) (simp_all add: array_push_def)

lemma puts_set_add:
  "distinct vs \<Longrightarrow> set vs \<inter> set xs0 = {} \<Longrightarrow> puts set_add vs (SetO xs0) = Ok (SetO (xs0 @ vs))"
  by (induction vs arbitrary: xs0) (auto simp: set_add_def)

lemma alist_set_fresh: "k \<notin> fst ` set kvs \<Longrightarrow> alist_set k v kvs = kvs @ [(k, v)]"
  by (induction kvs) auto

lemma map_set_MapO: "map_set k v (MapO acc) = Ok (MapO (alist_set k v acc))"
  by (simp add: map_set_def)

lemma set_prop_ObjectO:
  "key \<noteq> ''__proto__'' \<Longrightarrow>
    set_prop (Str key) v (ObjectO acc tj) = Ok (ObjectO (alist_set key v acc) tj)"
  by (simp add: set_prop_def)

lemma puts2_map_set:
  "distinct (map fst kvs) \<Longrightarrow> fst ` set kvs \<inter> fst ` set acc = {} \<Longrightarrow>
    puts2 map_set kvs (MapO acc) = Ok (MapO (acc @ kvs))"
proof (induction kvs arbitrary: acc)
  case Nil
  show ?case by simp
next
  case (Cons kv kvs)
  from Cons.prems have f: "fst kv \<notin> fst ` set acc" by auto
  have "puts2 map_set kvs (MapO (acc @ [kv])) = Ok (MapO ((acc @ [kv]) @ kvs))"
    using Cons.prems by (intro Cons.IH) auto
  then show ?case by (simp add: map_set_MapO alist_set_fresh [OF f])
qed

lemma puts2_set_prop:
  "distinct (map fst props) \<Longrightarrow> ''__proto__'' \<notin> fst ` set props \<Longrightarrow>
    fst ` set props \<inter> fst ` set acc = {} \<Longrightarrow>
    puts2 set_prop (map (\<lambda>kv. (Str (fst kv), snd kv)) props) (ObjectO acc tj) =
      Ok (ObjectO (acc @ props) tj)"
proof (induction props arbitrary: acc)
  case Nil
  show ?case by simp
next
  case (Cons kv props)
  from Cons.prems have f: "fst kv \<notin> fst ` set acc" and np: "fst kv \<noteq> ''__proto__''" by auto
  have "puts2 set_prop (map (\<lambda>kv. (Str (fst kv), snd kv)) props) (ObjectO (acc @ [kv]) tj) =
      Ok (ObjectO ((acc @ [kv]) @ props) tj)"
    using Cons.prems by (intro Cons.IH) auto
  then show ?case using np by (simp add: set_prop_ObjectO alist_set_fresh [OF f])
qed

lemma entries_of_distinct:
  "distinct (map fst props) \<Longrightarrow> entries_of props = map (\<lambda>kv. (Str (fst kv), snd kv)) props"
  by (auto simp: entries_of_def keys_def get_prop_def)

subsection \<open>The records of a finished serialization\<close>

lemma enc_facts:
  assumes e: "encoded h s" and x: "ids s x = Some i"
  shows "i < length (recs s)" "recs s ! i = enc h True False (ids s) x" "\<not> is_fs x"
    "\<And>a. x = Ref a \<Longrightarrow> a < length h \<and> good_obj h (h ! a)"
    "\<forall>e. classify h True False x \<noteq> Raise e"
proof -
  from e x have d: "done_at h True False s x" by (simp add: encoded_def)
  with x show "i < length (recs s)" "recs s ! i = enc h True False (ids s) x"
    and nr: "\<forall>e. classify h True False x \<noteq> Raise e"
    by (auto simp: done_at_def)
  from nr classify_fs_strict [of x h False] show "\<not> is_fs x" by blast
  show "a < length h \<and> good_obj h (h ! a)" if "x = Ref a" for a
  proof -
    from nr that have "a < length h" by (auto simp: classify_def split: if_splits)
    with e x that show ?thesis by (auto simp: encoded_def)
  qed
qed

lemma enc_dclassify:
  assumes e: "encoded h s" and x: "ids s x = Some i"
  shows "dclassify (recs s ! i) = (case x of Ref a \<Rightarrow> expect_obj h (ids s) (h ! a) | _ \<Rightarrow> DPrim x)"
proof (cases "\<exists>a. x = Ref a")
  case True
  then obtain a where a: "x = Ref a" by blast
  from enc_facts(4) [OF e x a] enc_facts(5) [OF e x] a
  have "dclassify (enc h True False (ids s) (Ref a)) = expect_obj h (ids s) (h ! a)"
    by (intro dclassify_enc_obj) simp_all
  with enc_facts(2) [OF e x] a show ?thesis by simp
next
  case False
  then have "dclassify (enc h True False (ids s) x) = DPrim x"
    using enc_facts(3) [OF e x] by (intro dclassify_enc_prim) simp_all
  with enc_facts(2) [OF e x] False show ?thesis by (cases x) simp_all
qed

lemma enc_children:
  assumes e: "encoded h s" and x: "ids s (Ref a) = Some i" and c: "c \<in> set (children (h ! a))"
  shows "\<exists>j. ids s c = Some j \<and> j < length (recs s) \<and> slot (ids s) c = j"
proof -
  from e x have d: "done_at h True False s (Ref a)" by (simp add: encoded_def)
  from enc_facts(4) [OF e x] have a: "a < length h" by simp
  from d have "\<forall>c. classify h True False (Ref a) \<noteq> Collapse c"
    unfolding done_at_def by blast
  from kept_all [OF a this] c have "c \<in> set (kept h True False (Ref a))" by auto
  with d have "ids s c \<noteq> None" by (auto simp: done_at_def)
  then obtain j where j: "ids s c = Some j" by blast
  from enc_facts(1) [OF e j] j show ?thesis by simp
qed

lemma enc_onto:
  assumes e: "encoded h s" and i: "i < length (recs s)"
  shows "\<exists>x. ids s x = Some i"
  using e i by (auto simp: encoded_def sinv_def)

lemma encoded_wgood:
  assumes e: "encoded h s"
  shows "wgood (recs s)"
  unfolding wgood_def
proof (intro allI impI)
  fix i assume i: "i < length (recs s)"
  let ?W = "recs s" and ?m = "ids s"
  from enc_onto [OF e i] obtain x where x: "ids s x = Some i" by blast
  note dc = enc_dclassify [OF e x]
  let ?goal = "case dclassify (?W ! i) of
        DRaise e \<Rightarrow> False
      | DEach ob put js \<Rightarrow> \<forall>j\<in>set js. j < length ?W
      | DEntries ob put ps \<Rightarrow>
          \<forall>p\<in>set ps. fst p < length ?W \<and> snd p < length ?W \<and>
            (fst (?W ! i) = NumTag OBJECT \<longrightarrow> strkey ?W (fst p))
      | _ \<Rightarrow> True"
  show ?goal
  proof (cases "\<exists>a. x = Ref a")
    case False
    with dc have "dclassify (?W ! i) = DPrim x" by (cases x) simp_all
    then show ?thesis by simp
  next
    case True
    then obtain a where a: "x = Ref a" by blast
    from enc_facts(4) [OF e x a] have al: "a < length h" and go: "good_obj h (h ! a)" by simp_all
    from dc a have dc': "dclassify (?W ! i) = expect_obj h ?m (h ! a)" by simp
    have ch: "slot ?m c < length ?W" if "c \<in> set (children (h ! a))" for c
    proof -
      from enc_children [OF e x [unfolded a] that] obtain j where
        "j < length ?W" "slot ?m c = j" by blast
      then show ?thesis by simp
    qed
    show ?thesis
    proof (cases "h ! a")
      case (ArrayO xs)
      then have "dclassify (?W ! i) = DEach (ArrayO []) array_push (map (slot ?m) xs)"
        using dc' by (simp add: expect_obj_def)
      moreover have "\<forall>c\<in>set xs. slot ?m c < length ?W" using ch ArrayO by simp
      ultimately show ?thesis by simp
    next
      case (SetO xs)
      then have "dclassify (?W ! i) = DEach (SetO []) set_add (map (slot ?m) xs)"
        using dc' by (simp add: expect_obj_def)
      moreover have "\<forall>c\<in>set xs. slot ?m c < length ?W" using ch SetO by simp
      ultimately show ?thesis by simp
    next
      case (MapO kvs)
      have tg: "fst (?W ! i) \<noteq> NumTag OBJECT"
        using enc_facts(2) [OF e x] a al MapO
        by (simp add: enc_def classify_def classify_obj_def tag_defs)
      have "slot ?m (fst kv) < length ?W \<and> slot ?m (snd kv) < length ?W"
        if "kv \<in> set kvs" for kv
      proof -
        from that have "fst kv \<in> set (pairs_flat kvs)" "snd kv \<in> set (pairs_flat kvs)"
          by (auto simp: pairs_flat_def)
        with MapO ch [of "fst kv"] ch [of "snd kv"] show ?thesis by simp
      qed
      then have "\<forall>kv\<in>set kvs. slot ?m (fst kv) < length ?W \<and> slot ?m (snd kv) < length ?W"
        by blast
      moreover have "dclassify (?W ! i) =
          DEntries (MapO []) map_set (map (\<lambda>kv. (slot ?m (fst kv), slot ?m (snd kv))) kvs)"
        using dc' MapO by (simp add: expect_obj_def)
      ultimately show ?thesis using tg by simp
    next
      case (ObjectO props tj)
      from go ObjectO have di: "distinct (map fst props)" and np: "''__proto__'' \<notin> fst ` set props"
        by (simp_all add: good_obj_def)
      have "\<forall>kv\<in>set (map (\<lambda>kv. (slot ?m (fst kv), slot ?m (snd kv))) (entries_of props)).
          fst kv < length ?W \<and> snd kv < length ?W \<and> strkey ?W (fst kv)"
      proof
        fix kv
        assume kv: "kv \<in> set (map (\<lambda>kv. (slot ?m (fst kv), slot ?m (snd kv))) (entries_of props))"
        from kv entries_of_distinct [OF di] obtain key w where
          kw: "(key, w) \<in> set props" "kv = (slot ?m (Str key), slot ?m w)"
          by auto
        from kw(1) have "(Str key, w) \<in> set (entries_of props)"
          unfolding entries_of_distinct [OF di] by force
        then have "Str key \<in> set (pairs_flat (entries_of props))"
          "w \<in> set (pairs_flat (entries_of props))"
          unfolding pairs_flat_def by force+
        with ObjectO have c: "Str key \<in> set (children (h ! a))" "w \<in> set (children (h ! a))"
          by simp_all
        from enc_children [OF e x [unfolded a] c(1)] obtain j where
          j: "ids s (Str key) = Some j" "j < length ?W" "slot ?m (Str key) = j"
          by blast
        from enc_dclassify [OF e j(1)] have "dclassify (?W ! j) = DPrim (Str key)" by simp
        moreover from kw(1) np have "key \<noteq> ''__proto__''" by force
        ultimately have "strkey ?W j" by (auto simp: strkey_def)
        with j ch [OF c(2)] kw(2)
        show "fst kv < length ?W \<and> snd kv < length ?W \<and> strkey ?W (fst kv)" by simp
      qed
      moreover have "dclassify (?W ! i) = DEntries (ObjectO [] None) set_prop
          (map (\<lambda>kv. (slot ?m (fst kv), slot ?m (snd kv))) (entries_of props))"
        using dc' ObjectO by (simp add: expect_obj_def)
      ultimately show ?thesis by simp
    next
      case (DateO t)
      with dc' go show ?thesis by (auto simp: expect_obj_def good_obj_def)
    next
      case (DataViewO b off len)
      with dc' go show ?thesis by (auto simp: expect_obj_def good_obj_def split: obj.splits)
    next
      case (RegExpO source flags)
      then have "dclassify (?W ! i) = DNew (RegExpO source flags)"
        using dc' by (simp add: expect_obj_def)
      then show ?thesis by simp
    next
      case (ErrorO name message)
      then have "dclassify (?W ! i) = DNew (ErrorO ''Error'' message)"
        using dc' by (simp add: expect_obj_def)
      then show ?thesis by simp
    next
      case (BooleanO b)
      then have "dclassify (?W ! i) = DNew (BooleanO b)"
        using dc' by (simp add: expect_obj_def)
      then show ?thesis by simp
    next
      case (NumberO n)
      then have "dclassify (?W ! i) = DNew (NumberO n)"
        using dc' by (simp add: expect_obj_def)
      then show ?thesis by simp
    next
      case (StringO str)
      then have "dclassify (?W ! i) = DNew (StringO str)"
        using dc' by (simp add: expect_obj_def)
      then show ?thesis by simp
    next
      case (BigIntO b)
      then have "dclassify (?W ! i) = DNew (BigIntO b)"
        using dc' by (simp add: expect_obj_def)
      then show ?thesis by simp
    next
      case (TypedArrayO k xs)
      then have "dclassify (?W ! i) = DNew (TypedArrayO k (map (ta_conv k) xs))"
        using dc' by (simp add: expect_obj_def)
      then show ?thesis by simp
    next
      case (ArrayBufferO bytes)
      then have "dclassify (?W ! i) = DBuffer bytes"
        using dc' by (simp add: expect_obj_def)
      then show ?thesis by simp
    qed
  qed
qed

subsection \<open>The correspondence between the values and their copies\<close>

lemma corr_shape:
  assumes e: "encoded h s" and d: "decoded (recs s) t" and c: "corr s t x y"
  shows "case x of Ref a \<Rightarrow> \<exists>b. y = Ref b \<and> b < length (dheap t) | _ \<Rightarrow> y = x"
proof -
  let ?W = "recs s"
  from c obtain i where x: "ids s x = Some i" and R: "Rslot ?W t i y" by (auto simp: corr_def)
  note dc = enc_dclassify [OF e x]
  have reg: "cdone ?W t i" if "reg t (KIndex i) = Some y"
    using d that by (auto simp: decoded_def)
  show ?thesis
  proof (cases "\<exists>a. x = Ref a")
    case False
    with dc have p: "dclassify (?W ! i) = DPrim x" by (cases x) simp_all
    with R have r: "reg t (KIndex i) = Some y" by (auto simp: Rslot_def bufrel_def)
    from reg [OF r] r p have "y = x" by (auto simp: cdone_def)
    with False show ?thesis by (cases x) simp_all
  next
    case True
    then obtain a where a: "x = Ref a" by blast
    from enc_facts(4) [OF e x a] have go: "good_obj h (h ! a)" by simp
    from dc a have dc': "dclassify (?W ! i) = expect_obj h (ids s) (h ! a)" by simp
    have "\<exists>b. y = Ref b \<and> b < length (dheap t)"
    proof (cases "reg t (KIndex i) = Some y")
      case True
      have "\<forall>p. dclassify (?W ! i) \<noteq> DPrim p" using dc' by simp
      with reg [OF True] True show ?thesis
        by (cases "dclassify (?W ! i)") (auto simp: cdone_def)
    next
      case False
      with R have "bufrel ?W t i y" by (simp add: Rslot_def)
      then show ?thesis
        by (cases "dclassify (?W ! i)") (auto simp: bufrel_def)
    qed
    with a show ?thesis by simp
  qed
qed

lemma Rslot_each:
  assumes "decoded W t" "Rslot W t i y" "dclassify (W ! i) = DEach ob put js"
  shows "\<exists>b vs. y = Ref b \<and> b < length (dheap t) \<and> list_all2 (Rslot W t) js vs \<and> sep js vs \<and>
    puts put vs ob = Ok (dheap t ! b)"
proof -
  from assms(2,3) have r: "reg t (KIndex i) = Some y" by (auto simp: Rslot_def bufrel_def)
  with assms(1) have "cdone W t i" by (auto simp: decoded_def)
  with r assms(3) show ?thesis by (auto simp: cdone_def)
qed

lemma Rslot_entries:
  assumes "decoded W t" "Rslot W t i y" "dclassify (W ! i) = DEntries ob put ps"
  shows "\<exists>b kvs. y = Ref b \<and> b < length (dheap t) \<and>
    list_all2 (\<lambda>p kv. Rslot W t (fst p) (fst kv) \<and> Rslot W t (snd p) (snd kv)) ps kvs \<and>
    sep (map fst ps) (map fst kvs) \<and> puts2 put kvs ob = Ok (dheap t ! b)"
proof -
  from assms(2,3) have r: "reg t (KIndex i) = Some y" by (auto simp: Rslot_def bufrel_def)
  with assms(1) have "cdone W t i" by (auto simp: decoded_def)
  with r assms(3) show ?thesis by (auto simp: cdone_def)
qed

lemma Rslot_new:
  assumes "decoded W t" "Rslot W t i y" "dclassify (W ! i) = DNew ob"
  shows "\<exists>b. y = Ref b \<and> b < length (dheap t) \<and> dheap t ! b = ob"
proof -
  from assms(2,3) have r: "reg t (KIndex i) = Some y" by (auto simp: Rslot_def bufrel_def)
  with assms(1) have "cdone W t i" by (auto simp: decoded_def)
  with r assms(3) show ?thesis by (auto simp: cdone_def)
qed

lemma Rslot_buffer:
  assumes "decoded W t" "Rslot W t i y" "dclassify (W ! i) = DBuffer bytes"
  shows "\<exists>b. y = Ref b \<and> b < length (dheap t) \<and> dheap t ! b = ArrayBufferO bytes"
proof (cases "reg t (KIndex i) = Some y")
  case True
  with assms(1) have "cdone W t i" by (auto simp: decoded_def)
  with assms(3) show ?thesis by (auto simp: cdone_def)
next
  case False
  with assms(2) have "bufrel W t i y" by (simp add: Rslot_def)
  with assms(3) show ?thesis by (auto simp: bufrel_def)
qed

lemma Rslot_view:
  assumes "decoded W t" "Rslot W t i y" "dclassify (W ! i) = DView bytes"
  shows "\<exists>a b. y = Ref a \<and> a < length (dheap t) \<and> dheap t ! a = DataViewO b 0 (length bytes) \<and>
    b < length (dheap t) \<and> dheap t ! b = ArrayBufferO bytes"
proof (cases "reg t (KIndex i) = Some y")
  case True
  with assms(1) have "cdone W t i" by (auto simp: decoded_def)
  with assms(3) show ?thesis by (auto simp: cdone_def)
next
  case False
  with assms(2) have "bufrel W t i y" by (simp add: Rslot_def)
  with assms(3) show ?thesis by (auto simp: bufrel_def)
qed

lemma corr_children:
  assumes e: "encoded h s" and x: "ids s (Ref a) = Some i"
    and sub: "set xs \<subseteq> set (children (h ! a))"
    and l: "list_all2 (Rslot (recs s) t) (map (slot (ids s)) xs) vs"
  shows "list_all2 (corr s t) xs vs"
proof (rule list_all2_all_nthI)
  from l show "length xs = length vs" by (auto dest: list_all2_lengthD)
  fix k assume k: "k < length xs"
  with sub have "xs ! k \<in> set (children (h ! a))" by auto
  from enc_children [OF e x this] obtain j where j: "ids s (xs ! k) = Some j" by blast
  from list_all2_nthD [OF l, of k] k have "Rslot (recs s) t (slot (ids s) (xs ! k)) (vs ! k)" by simp
  with j show "corr s t (xs ! k) (vs ! k)" by (auto simp: corr_def)
qed

lemma corr_distinct:
  assumes e: "encoded h s" and d: "decoded (recs s) t" and x: "ids s (Ref a) = Some i"
    and sub: "set xs \<subseteq> set (children (h ! a))" and di: "distinct xs"
    and l: "list_all2 (Rslot (recs s) t) (map (slot (ids s)) xs) vs"
    and sp: "sep (map (slot (ids s)) xs) vs"
  shows "distinct vs"
proof -
  note c = corr_children [OF e x sub l]
  have len: "length xs = length vs" using c by (rule list_all2_lengthD)
  have ne: "vs ! k \<noteq> vs ! l" if k: "k < length vs" and l: "l < length vs" and kl: "k \<noteq> l" for k l
  proof
    assume eq: "vs ! k = vs ! l"
    from k l len have xk: "xs ! k \<in> set xs" and xl: "xs ! l \<in> set xs" by simp_all
    from di k l kl len have xne: "xs ! k \<noteq> xs ! l" by (simp add: nth_eq_iff_index_eq)
    from enc_children [OF e x] sub xk obtain jk where jk: "ids s (xs ! k) = Some jk" by blast
    from enc_children [OF e x] sub xl obtain jl where jl: "ids s (xs ! l) = Some jl" by blast
    from e have "sinv s" by (simp add: encoded_def)
    from sinv_inj [OF this jk] jl xne have jne: "jk \<noteq> jl" by auto
    have sk: "case xs ! k of Ref a \<Rightarrow> \<exists>b. vs ! k = Ref b \<and> b < length (dheap t) | _ \<Rightarrow> vs ! k = xs ! k"
      using corr_shape [OF e d list_all2_nthD [OF c]] k len by simp
    have sl: "case xs ! l of Ref a \<Rightarrow> \<exists>b. vs ! l = Ref b \<and> b < length (dheap t) | _ \<Rightarrow> vs ! l = xs ! l"
      using corr_shape [OF e d list_all2_nthD [OF c]] l len by simp
    show False
    proof (cases "\<exists>b. vs ! k = Ref b")
      case True
      with sp k l len jk jl jne have "vs ! k \<noteq> vs ! l"
        unfolding sep_def by (auto dest!: spec [of _ k] spec [of _ l])
      with eq show False by simp
    next
      case False
      with sk have "vs ! k = xs ! k" by (cases "xs ! k") auto
      moreover from False eq sl have "vs ! l = xs ! l" by (cases "xs ! l") auto
      ultimately show False using eq xne by simp
    qed
  qed
  then show ?thesis by (auto simp: distinct_conv_nth)
qed

lemma corr_simulation:
  assumes e: "encoded h s" and d: "decoded (recs s) t"
  shows "simulation (corr s t) h (dheap t)"
  unfolding simulation_def
proof (intro allI impI)
  fix x y
  assume c: "corr s t x y"
  let ?W = "recs s" and ?m = "ids s" and ?H = "dheap t" and ?R = "corr s t"
  let ?goal = "case x of
      Ref a \<Rightarrow> a < length h \<and> (\<exists>b. y = Ref b \<and> b < length ?H \<and> related_obj ?R h ?H (h ! a) (?H ! b))
    | _ \<Rightarrow> y = x"
  from c obtain i where x: "ids s x = Some i" and R: "Rslot ?W t i y" by (auto simp: corr_def)
  show ?goal
  proof (cases "\<exists>a. x = Ref a")
    case False
    with corr_shape [OF e d c] show ?thesis by (cases x) simp_all
  next
    case True
    then obtain a where a: "x = Ref a" by blast
    note xa = x [unfolded a]
    from enc_facts(4) [OF e x a] have al: "a < length h" and go: "good_obj h (h ! a)" by simp_all
    from enc_dclassify [OF e x] a have dc: "dclassify (?W ! i) = expect_obj h ?m (h ! a)" by simp
    have "\<exists>b. y = Ref b \<and> b < length ?H \<and> related_obj ?R h ?H (h ! a) (?H ! b)"
    proof (cases "h ! a")
      case (ArrayO xs)
      then have "dclassify (?W ! i) = DEach (ArrayO []) array_push (map (slot ?m) xs)"
        using dc by (simp add: expect_obj_def)
      from Rslot_each [OF d R this] obtain b vs where b: "y = Ref b" "b < length ?H"
        and l: "list_all2 (Rslot ?W t) (map (slot ?m) xs) vs"
        and p: "puts array_push vs (ArrayO []) = Ok (?H ! b)"
        by blast
      from p have "?H ! b = ArrayO vs" by (simp add: puts_array_push)
      moreover have "list_all2 ?R xs vs" using e xa _ l by (rule corr_children) (simp add: ArrayO)
      ultimately show ?thesis using b ArrayO by (simp add: related_obj_def)
    next
      case (SetO xs)
      then have "dclassify (?W ! i) = DEach (SetO []) set_add (map (slot ?m) xs)"
        using dc by (simp add: expect_obj_def)
      from Rslot_each [OF d R this] obtain b vs where b: "y = Ref b" "b < length ?H"
        and l: "list_all2 (Rslot ?W t) (map (slot ?m) xs) vs"
        and sp: "sep (map (slot ?m) xs) vs"
        and p: "puts set_add vs (SetO []) = Ok (?H ! b)"
        by blast
      have sub: "set xs \<subseteq> set (children (h ! a))" by (simp add: SetO)
      from go SetO have "distinct xs" by (simp add: good_obj_def)
      from corr_distinct [OF e d xa sub this l sp] have "distinct vs" .
      with p have "?H ! b = SetO vs" by (simp add: puts_set_add)
      moreover have "list_all2 ?R xs vs" using e xa sub l by (rule corr_children)
      ultimately show ?thesis using b SetO by (simp add: related_obj_def)
    next
      case (MapO kvs)
      let ?ps = "map (\<lambda>kv. (slot ?m (fst kv), slot ?m (snd kv))) kvs"
      from MapO have "dclassify (?W ! i) = DEntries (MapO []) map_set ?ps"
        using dc by (simp add: expect_obj_def)
      from Rslot_entries [OF d R this] obtain b kvs' where b: "y = Ref b" "b < length ?H"
        and l: "list_all2 (\<lambda>p kv. Rslot ?W t (fst p) (fst kv) \<and> Rslot ?W t (snd p) (snd kv)) ?ps kvs'"
        and sp: "sep (map fst ?ps) (map fst kvs')"
        and p: "puts2 map_set kvs' (MapO []) = Ok (?H ! b)"
        by blast
      have lk: "list_all2 (Rslot ?W t) (map (slot ?m) (map fst kvs)) (map fst kvs')"
        and lv: "list_all2 (Rslot ?W t) (map (slot ?m) (map snd kvs)) (map snd kvs')"
        using l by (simp_all add: list_all2_conv_all_nth)
      have subk: "set (map fst kvs) \<subseteq> set (children (h ! a))"
        and subv: "set (map snd kvs) \<subseteq> set (children (h ! a))"
        by (auto simp: MapO pairs_flat_def)
      from go MapO have "distinct (map fst kvs)" by (simp add: good_obj_def)
      moreover from sp have "sep (map (slot ?m) (map fst kvs)) (map fst kvs')" by (simp add: comp_def)
      ultimately have "distinct (map fst kvs')" using corr_distinct [OF e d xa subk _ lk] by blast
      with p have "?H ! b = MapO kvs'" by (simp add: puts2_map_set)
      moreover have "list_all2 (\<lambda>kv kv'. ?R (fst kv) (fst kv') \<and> ?R (snd kv) (snd kv')) kvs kvs'"
        using corr_children [OF e xa subk lk] corr_children [OF e xa subv lv]
        by (auto simp: list_all2_map1 list_all2_map2 list_all2_conv_all_nth)
      ultimately show ?thesis using b MapO by (simp add: related_obj_def)
    next
      case (ObjectO props tj)
      from go ObjectO have di: "distinct (map fst props)" and np: "''__proto__'' \<notin> fst ` set props"
        by (simp_all add: good_obj_def)
      let ?kvs = "entries_of props"
      let ?ps = "map (\<lambda>kv. (slot ?m (fst kv), slot ?m (snd kv))) ?kvs"
      note eo = entries_of_distinct [OF di]
      from ObjectO have "dclassify (?W ! i) = DEntries (ObjectO [] None) set_prop ?ps"
        using dc by (simp add: expect_obj_def)
      from Rslot_entries [OF d R this] obtain b kvs' where b: "y = Ref b" "b < length ?H"
        and l: "list_all2 (\<lambda>p kv. Rslot ?W t (fst p) (fst kv) \<and> Rslot ?W t (snd p) (snd kv)) ?ps kvs'"
        and p: "puts2 set_prop kvs' (ObjectO [] None) = Ok (?H ! b)"
        by blast
      have lk: "list_all2 (Rslot ?W t) (map (slot ?m) (map fst ?kvs)) (map fst kvs')"
        and lv: "list_all2 (Rslot ?W t) (map (slot ?m) (map snd ?kvs)) (map snd kvs')"
        using l by (simp_all add: list_all2_conv_all_nth)
      have subk: "set (map fst ?kvs) \<subseteq> set (children (h ! a))"
        and subv: "set (map snd ?kvs) \<subseteq> set (children (h ! a))"
        by (auto simp: ObjectO pairs_flat_def)
      note ck = corr_children [OF e xa subk lk] and cv = corr_children [OF e xa subv lv]
      have len: "length kvs' = length props" using ck by (auto simp: eo dest: list_all2_lengthD)
      have keys: "fst (kvs' ! k) = Str (fst (props ! k))" if "k < length props" for k
      proof -
        from list_all2_nthD [OF ck, of k] that
        have "?R (Str (fst (props ! k))) (fst (kvs' ! k))" by (simp add: eo len)
        from corr_shape [OF e d this] show ?thesis by simp
      qed
      let ?props' = "zip (map fst props) (map snd kvs')"
      have "kvs' = map (\<lambda>kv. (Str (fst kv), snd kv)) ?props'"
        using len keys by (auto simp: list_eq_iff_nth_eq prod_eq_iff)
      moreover have "distinct (map fst ?props')" "''__proto__'' \<notin> fst ` set ?props'"
        using di np len by (auto dest: set_zip_leftD)
      ultimately have "puts2 set_prop kvs' (ObjectO [] None) = Ok (ObjectO ([] @ ?props') None)"
        using puts2_set_prop [of ?props' "[]" None] by simp
      with p have "?H ! b = ObjectO ?props' None" by simp
      moreover have "map fst ?props' = map fst props" using len by simp
      moreover have "list_all2 ?R (map snd props) (map snd ?props')"
        using cv len by (simp add: eo comp_def)
      ultimately show ?thesis using b ObjectO by (simp add: related_obj_def)
    next
      case (DateO dt)
      with go obtain dd where dd: "dt = Some dd" by (auto simp: good_obj_def)
      with DateO have "dclassify (?W ! i) = DNew (DateO (Some dd))"
        using dc by (simp add: expect_obj_def)
      from Rslot_new [OF d R this] DateO dd show ?thesis by (auto simp: related_obj_def)
    next
      case (RegExpO source flags)
      then have "dclassify (?W ! i) = DNew (RegExpO source flags)"
        using dc by (simp add: expect_obj_def)
      from Rslot_new [OF d R this] RegExpO show ?thesis by (auto simp: related_obj_def)
    next
      case (ErrorO name message)
      from go ErrorO have "name = ''Error''" by (simp add: good_obj_def)
      with ErrorO have "dclassify (?W ! i) = DNew (ErrorO name message)"
        using dc by (simp add: expect_obj_def)
      from Rslot_new [OF d R this] ErrorO show ?thesis by (auto simp: related_obj_def)
    next
      case (BooleanO bb)
      then have "dclassify (?W ! i) = DNew (BooleanO bb)"
        using dc by (simp add: expect_obj_def)
      from Rslot_new [OF d R this] BooleanO show ?thesis by (auto simp: related_obj_def)
    next
      case (NumberO n)
      then have "dclassify (?W ! i) = DNew (NumberO n)"
        using dc by (simp add: expect_obj_def)
      from Rslot_new [OF d R this] NumberO show ?thesis by (auto simp: related_obj_def)
    next
      case (StringO str)
      then have "dclassify (?W ! i) = DNew (StringO str)"
        using dc by (simp add: expect_obj_def)
      from Rslot_new [OF d R this] StringO show ?thesis by (auto simp: related_obj_def)
    next
      case (BigIntO bi)
      then have "dclassify (?W ! i) = DNew (BigIntO bi)"
        using dc by (simp add: expect_obj_def)
      from Rslot_new [OF d R this] BigIntO show ?thesis by (auto simp: related_obj_def)
    next
      case (TypedArrayO k xs)
      from go TypedArrayO have "map (ta_conv k) xs = xs"
        by (simp add: good_obj_def list_all_iff map_idI)
      with TypedArrayO have "dclassify (?W ! i) = DNew (TypedArrayO k xs)"
        using dc by (simp add: expect_obj_def)
      from Rslot_new [OF d R this] TypedArrayO show ?thesis by (auto simp: related_obj_def)
    next
      case (ArrayBufferO bytes)
      then have "dclassify (?W ! i) = DBuffer bytes"
        using dc by (simp add: expect_obj_def)
      from Rslot_buffer [OF d R this] ArrayBufferO show ?thesis by (auto simp: related_obj_def)
    next
      case (DataViewO bf off len)
      with go obtain bytes where bf: "bf < length h" "h ! bf = ArrayBufferO bytes"
        by (auto simp: good_obj_def split: obj.splits)
      with DataViewO have "dclassify (?W ! i) = DView bytes"
        using dc by (simp add: expect_obj_def)
      from Rslot_view [OF d R this] DataViewO bf show ?thesis by (auto simp: related_obj_def)
    qed
    with a al show ?thesis by simp
  qed
qed

lemma corr_functional:
  assumes e: "encoded h s" and d: "decoded (recs s) t"
    and c: "corr s t (Ref a) y" "corr s t (Ref a) y'" and nb: "\<not> is_buf (h ! a)"
  shows "y = y'"
proof -
  from c obtain i where x: "ids s (Ref a) = Some i"
    and R: "Rslot (recs s) t i y" "Rslot (recs s) t i y'"
    by (auto simp: corr_def)
  from enc_facts(4) [OF e x] have go: "good_obj h (h ! a)" by simp
  from enc_dclassify [OF e x] have dc: "dclassify (recs s ! i) = expect_obj h (ids s) (h ! a)" by simp
  have "\<not> bufrel (recs s) t i z" for z
    using nb dc by (cases "h ! a") (auto simp: bufrel_def expect_obj_def split: option.splits)
  with R show ?thesis by (auto simp: Rslot_def)
qed

subsection \<open>From the source value to its copy\<close>

lemma good_obj_children:
  assumes "good_obj h ob" "c \<in> set (children ob)"
  shows "vok h c"
proof (cases ob)
  case (ArrayO xs)
  with assms show ?thesis by (auto simp: good_obj_def list_all_iff)
next
  case (SetO xs)
  with assms show ?thesis by (auto simp: good_obj_def list_all_iff)
next
  case (MapO kvs)
  with assms show ?thesis by (auto simp: good_obj_def list_all_iff pairs_flat_def)
next
  case (ObjectO props tj)
  with assms have di: "distinct (map fst props)" and ok: "\<forall>kv\<in>set props. vok h (snd kv)"
    by (auto simp: good_obj_def list_all_iff)
  from assms(2) ObjectO have "c \<in> set (pairs_flat (map (\<lambda>kv. (Str (fst kv), snd kv)) props))"
    by (simp add: entries_of_distinct [OF di])
  then obtain kv where "kv \<in> set props" "c = Str (fst kv) \<or> c = snd kv"
    by (auto simp: pairs_flat_def)
  with ok show ?thesis by (auto simp: vok_def valid_def)
qed (use assms in simp_all)

lemma good_reach:
  assumes "good h v"
  shows "reach h v x \<Longrightarrow> vok h x"
proof (induction rule: reach.induct)
  case reach_root
  from assms show ?case by (simp add: good_def)
next
  case (reach_child a c)
  from assms reach_child.hyps(1,2) have "good_obj h (h ! a)" by (simp add: good_def)
  then show ?case using reach_child.hyps(3) by (rule good_obj_children)
qed

lemma good_no_raise:
  assumes "\<And>a. x = Ref a \<Longrightarrow> a < length h \<Longrightarrow> good_obj h (h ! a)" "vok h x"
  shows "classify h True False x \<noteq> Raise e"
proof (cases x)
  case (Ref a)
  with assms(2) have a: "a < length h" by (simp add: vok_def valid_def)
  with assms(1) Ref have "good_obj h (h ! a)" by simp
  then have "classify_obj h True False (h ! a) \<noteq> Raise e"
    by (cases "h ! a") (auto simp: classify_obj_def good_obj_def split: obj.splits)
  with Ref a show ?thesis by (simp add: classify_def)
qed (use assms(2) in \<open>simp_all add: classify_def vok_def\<close>)

subsection \<open>What is registered is reachable\<close>

lemma pair_each_ok3:
  assumes "rec_ok3 h rec"
  shows "pair_each rec keep index xs s = Ok s' \<Longrightarrow> ids s x = None \<Longrightarrow> ids s' x \<noteq> None \<Longrightarrow>
    \<exists>c\<in>set xs. reach h c x"
proof (induction xs arbitrary: s)
  case Nil
  then show ?case by simp
next
  case (Cons c xs)
  show ?case
  proof (cases "keep c")
    case False
    with Cons.prems Cons.IH [of s] show ?thesis by simp
  next
    case True
    with Cons.prems(1) obtain i s1 where r: "rec c s = Ok (i, s1)"
      and rest: "pair_each rec keep index xs (push_slot index i s1) = Ok s'"
      by (auto simp: rbind_Ok_iff)
    show ?thesis
    proof (cases "ids s1 x")
      case None
      with Cons.IH [OF rest _ Cons.prems(3)] show ?thesis by simp
    next
      case (Some j)
      with assms r Cons.prems(2) have "reach h c x" unfolding rec_ok3_def by blast
      then show ?thesis by simp
    qed
  qed
qed

lemma pair_entries_ok3:
  assumes "rec_ok3 h rec"
  shows "pair_entries rec keep index kvs s = Ok s' \<Longrightarrow> ids s x = None \<Longrightarrow> ids s' x \<noteq> None \<Longrightarrow>
    \<exists>kv\<in>set kvs. reach h (fst kv) x \<or> reach h (snd kv) x"
proof (induction kvs arbitrary: s)
  case Nil
  then show ?case by simp
next
  case (Cons kv kvs)
  show ?case
  proof (cases "keep (fst kv) (snd kv)")
    case False
    with Cons.prems Cons.IH [of s] show ?thesis by simp
  next
    case True
    with Cons.prems(1) obtain k s1 e s2 where r1: "rec (fst kv) s = Ok (k, s1)"
      and r2: "rec (snd kv) s1 = Ok (e, s2)"
      and rest: "pair_entries rec keep index kvs (push_pair index (k, e) s2) = Ok s'"
      by (auto simp: rbind_Ok_iff)
    show ?thesis
    proof (cases "ids s1 x")
      case (Some j)
      with assms r1 Cons.prems(2) have "reach h (fst kv) x" unfolding rec_ok3_def by blast
      then show ?thesis by simp
    next
      case None
      show ?thesis
      proof (cases "ids s2 x")
        case (Some j)
        with assms r2 None have "reach h (snd kv) x" unfolding rec_ok3_def by blast
        then show ?thesis by simp
      next
        case None
        with Cons.IH [OF rest _ Cons.prems(3)] show ?thesis by simp
      qed
    qed
  qed
qed

lemma pair_body_ok3:
  assumes "rec_ok3 h rec"
  shows "rec_ok3 h (pair_body rec h strict False)"
  unfolding rec_ok3_def
proof (intro allI impI)
  fix v s i s' x
  assume run: "pair_body rec h strict False v s = Ok (i, s')"
    and old: "ids s x = None" and new: "ids s' x \<noteq> None"
  show "reach h v x"
  proof (cases "ids s v")
    case (Some j)
    with run old new show ?thesis by (simp add: pair_body_classify)
  next
    case None
    with run have sh: "run_shape rec v s (classify h strict False v) = Ok (i, s')"
      by (simp add: pair_body_classify)
    show ?thesis
    proof (cases "x = v")
      case True
      then show ?thesis by (simp add: reach_root)
    next
      case False
      show ?thesis
      proof (cases "classify h strict False v")
        case (Leaf r)
        with sh old new False show ?thesis by (auto simp: run_shape_def as_s_simp)
      next
        case (Raise e)
        with sh show ?thesis by (simp add: run_shape_def)
      next
        case (Collapse r)
        from classify_Collapse_js [OF this] show ?thesis by simp
      next
        case (Each t keep xs)
        with sh obtain s2 where
          loop: "pair_each rec keep (length (recs s)) xs (snd (as_s (t, PSlots []) v s)) = Ok s2"
          and s2: "s' = s2"
          by (auto simp: run_shape_def rbind_Ok_iff)
        from old False have "ids (snd (as_s (t, PSlots []) v s)) x = None" by (simp add: as_s_simp)
        from pair_each_ok3 [OF assms loop this] new s2 obtain c where
          c: "c \<in> set xs" "reach h c x" by auto
        from reach_Each [OF Each reach_root c(1)] c(2) show ?thesis by (rule reach_trans)
      next
        case (Entries t keep kvs)
        with sh obtain s2 where
          loop: "pair_entries rec keep (length (recs s)) kvs (snd (as_s (t, PPairs []) v s)) = Ok s2"
          and s2: "s' = s2"
          by (auto simp: run_shape_def rbind_Ok_iff)
        from old False have "ids (snd (as_s (t, PPairs []) v s)) x = None" by (simp add: as_s_simp)
        from pair_entries_ok3 [OF assms loop this] new s2 obtain kv where
          kv: "kv \<in> set kvs" "reach h (fst kv) x \<or> reach h (snd kv) x" by auto
        from reach_Entries [OF Entries reach_root kv(1)] kv(2) show ?thesis
          by (auto intro: reach_trans)
      qed
    qed
  qed
qed

lemma pair_ok3: "rec_ok3 h (pair n h strict False)"
proof (induction n)
  case 0
  show ?case by (simp add: rec_ok3_def)
next
  case (Suc n)
  then show ?case by (simp add: pair_body_ok3)
qed

lemma pair_registered_reach:
  assumes "pair n h strict False v \<lparr>ids = Map.empty, recs = []\<rparr> = Ok (i, s)" "ids s x \<noteq> None"
  shows "reach h v x"
  using pair_ok3 [of h n strict] assms unfolding rec_ok3_def by fastforce

lemma good_heapI: "vok h v \<Longrightarrow> list_all (good_obj h) h \<Longrightarrow> good h v"
  by (simp add: good_def list_all_length)

lemma no_toJSON_heapI:
  "list_all (\<lambda>ob. case ob of ObjectO props tj \<Rightarrow> tj = None | _ \<Rightarrow> True) h \<Longrightarrow> no_toJSON h v"
  by (auto simp: no_toJSON_def list_all_length)

lemma good_serialize:
  assumes g: "good h v"
  shows "\<exists>s. pair (Suc (card {x. reach h v x})) h True False v \<lparr>ids = Map.empty, recs = []\<rparr> = Ok (0, s) \<and>
    encoded h s \<and> ids s v = Some 0"
proof -
  let ?run = "pair (Suc (card {x. reach h v x})) h True False v \<lparr>ids = Map.empty, recs = []\<rparr>"
  have "?run \<noteq> OutOfFuel" using nc_not_js by (rule serialize_terminates)
  moreover have "?run \<noteq> Throw e" for e
  proof
    assume "?run = Throw e"
    from pair_Throw_reach [OF this] obtain x where x: "reach h v x"
      "classify h True False x = Raise e" by blast
    from g x(1) have "\<And>a. x = Ref a \<Longrightarrow> a < length h \<Longrightarrow> good_obj h (h ! a)"
      by (simp add: good_def)
    from good_no_raise [OF this good_reach [OF g x(1)], of e] x(2) show False by simp
  qed
  ultimately obtain i s where run: "?run = Ok (i, s)" by (cases ?run) auto
  note fin = pair_from_empty_done [OF run nc_not_js]
  from fin(3) fin(1) have "0 < length (recs s)" by (auto simp: sinv_def)
  have "i = 0" using pair_first_slot [OF _ _ run] by simp
  moreover have "encoded h s"
    using fin g pair_registered_reach [OF run] by (simp add: encoded_def good_def)
  ultimately show ?thesis using run fin(1) by simp
qed

lemma decode_encoded:
  assumes e: "encoded h s" and v: "ids s v = Some 0"
  shows "\<exists>r t. unpair (Suc (length (recs s))) (recs s) 0 \<lparr>reg = Map.empty, dheap = []\<rparr> = Ok (r, t) \<and>
    decoded (recs s) t \<and> corr s t v r"
proof -
  let ?W = "recs s" and ?t0 = "\<lparr>reg = Map.empty, dheap = []\<rparr>"
  from e have safe: "list_all json_safe ?W" by (simp add: encoded_def sinv_def)
  from enc_facts(1) [OF e v] have ne: "0 < length ?W" .
  have "unreg ?W ?t0 = {..<length ?W}" by (auto simp: unreg_def)
  then have "card (unreg ?W ?t0) < Suc (length ?W)" by simp
  moreover have "pdone ?W ?t0" by (simp add: pdone_def)
  ultimately have "fine (True \<and> 0 < length ?W) (unpair (Suc (length ?W)) ?W 0 ?t0)"
    using unpair_fine [of ?W True "Suc (length ?W)"] safe encoded_wgood [OF e] dinv_empty [of ?W]
    unfolding drec_fine_def by blast
  with ne obtain r t where run: "unpair (Suc (length ?W)) ?W 0 ?t0 = Ok (r, t)"
    by (cases "unpair (Suc (length ?W)) ?W 0 ?t0") (auto simp: fine_def)
  from unpair_ok [OF safe, of "Suc (length ?W)"] dinv_empty [of ?W] run
  have "dinv ?W t" "Rslot ?W t 0 r"
    and "\<And>j. reg ?t0 (KIndex j) = None \<Longrightarrow> reg t (KIndex j) \<noteq> None \<Longrightarrow> cdone ?W t j"
    unfolding drec_ok_def by blast+
  then have "decoded ?W t" "corr s t v r" using v by (auto simp: decoded_def corr_def)
  with run show ?thesis by blast
qed

lemma roundtrip_core:
  assumes g: "good h v"
  shows "\<exists>W r H R. serialize (Suc (card {x. reach h v x})) h v no_options = Ok W \<and>
     deserialize (Suc (length W)) W = Ok (r, H) \<and> R v r \<and> simulation R h H \<and>
     (\<forall>a y y'. \<not> is_buf (h ! a) \<longrightarrow> R (Ref a) y \<longrightarrow> R (Ref a) y' \<longrightarrow> y = y')"
proof -
  from good_serialize [OF g] obtain s where
    run: "pair (Suc (card {x. reach h v x})) h True False v \<lparr>ids = Map.empty, recs = []\<rparr> = Ok (0, s)"
    and e: "encoded h s" and v: "ids s v = Some 0"
    by blast
  from decode_encoded [OF e v] obtain r t where
    dec: "unpair (Suc (length (recs s))) (recs s) 0 \<lparr>reg = Map.empty, dheap = []\<rparr> = Ok (r, t)"
    and d: "decoded (recs s) t" and c: "corr s t v r"
    by blast
  have "serialize (Suc (card {x. reach h v x})) h v no_options = Ok (recs s)"
    using run by (simp add: serialize_eq no_options_def)
  moreover have "deserialize (Suc (length (recs s))) (recs s) = Ok (r, dheap t)"
    using dec by (simp add: deserialize_def)
  moreover note c corr_simulation [OF e d]
  moreover have "\<forall>a y y'. \<not> is_buf (h ! a) \<longrightarrow> corr s t (Ref a) y \<longrightarrow> corr s t (Ref a) y' \<longrightarrow> y = y'"
    using corr_functional [OF e d] by blast
  ultimately show ?thesis by blast
qed

lemma good_h_ex: "good h_ex (Ref 0)"
  by (rule good_heapI; code_simp)

lemma serialize_h_ex: "serialize 10 h_ex (Ref 0) no_options = Ok W_ex"
  by code_simp

lemma deserialize_W_ex: "deserialize (Suc (length W_ex)) W_ex = Ok (Ref 0, h_ex)"
  by code_simp

lemma good_h_self: "good h_self (Ref 0)"
  by (rule good_heapI; code_simp)

lemma serialize_h_self: "serialize 2 h_self (Ref 0) no_options = Ok W_self"
  by code_simp

lemma deserialize_W_self: "deserialize 3 W_self = Ok (Ref 0, h_self)"
  by code_simp

lemma serialize_json_safe:
  assumes "serialize n h v opts = Ok W"
  shows "list_all json_safe W"
proof -
  from assms obtain i s where
    run: "pair n h (\<not> (json opts \<or> lossy opts)) (json opts) v \<lparr>ids = Map.empty, recs = []\<rparr> = Ok (i, s)"
    and W: "W = recs s"
    by (auto simp: serialize_eq rbind_Ok_iff)
  from pair_sinv(1) [OF sinv_empty run] W show ?thesis by (simp add: sinv_def)
qed

subsection \<open>The relaxed mode on a value without functions, symbols and toJSON\<close>

lemma pair_each_cong:
  "(\<And>x. x \<in> set xs \<Longrightarrow> keep x = keep' x) \<Longrightarrow> (\<And>x s. x \<in> set xs \<Longrightarrow> rec x s = rec' x s) \<Longrightarrow>
    pair_each rec keep i xs s = pair_each rec' keep' i xs s"
proof (induction xs arbitrary: s)
  case Nil
  show ?case by simp
next
  case (Cons x xs)
  have "pair_each rec keep i xs s' = pair_each rec' keep' i xs s'" for s'
    using Cons.prems by (intro Cons.IH) simp_all
  with Cons.prems show ?case by simp
qed

lemma pair_entries_cong:
  "(\<And>kv. kv \<in> set kvs \<Longrightarrow> keep (fst kv) (snd kv) = keep' (fst kv) (snd kv)) \<Longrightarrow>
   (\<And>kv s. kv \<in> set kvs \<Longrightarrow> rec (fst kv) s = rec' (fst kv) s \<and> rec (snd kv) s = rec' (snd kv) s) \<Longrightarrow>
    pair_entries rec keep i kvs s = pair_entries rec' keep' i kvs s"
proof (induction kvs arbitrary: s)
  case Nil
  show ?case by simp
next
  case (Cons kv kvs)
  have "pair_entries rec keep i kvs s' = pair_entries rec' keep' i kvs s'" for s'
    using Cons.prems by (intro Cons.IH) simp_all
  with Cons.prems show ?case by simp
qed

lemma run_shape_relaxed:
  assumes g: "\<And>a. v = Ref a \<Longrightarrow> a < length h \<Longrightarrow> good_obj h (h ! a)"
    and nt: "\<And>a props r. v = Ref a \<Longrightarrow> a < length h \<Longrightarrow> h ! a \<noteq> ObjectO props (Some r)"
    and v: "vok h v"
    and rec: "\<And>a x s. v = Ref a \<Longrightarrow> x \<in> set (children (h ! a)) \<Longrightarrow> rec x s = rec' x s"
  shows "run_shape rec v s (classify h strict js v) = run_shape rec' v s (classify h True False v)"
proof (cases v)
  case (Ref a)
  with v have a: "a < length h" by (simp add: vok_def valid_def)
  with g Ref have go: "good_obj h (h ! a)" by simp
  note ch = good_obj_children [OF go]
  note rec = rec [OF Ref]
  have cl: "classify h st j v = classify_obj h st j (h ! a)" for st j
    using Ref a by (simp add: classify_def)
  show ?thesis
  proof (cases "h ! a")
    case (ArrayO xs)
    have "pair_each rec (\<lambda>entry. True) i xs s' = pair_each rec' (\<lambda>entry. True) i xs s'" for i s'
      using ArrayO rec by (intro pair_each_cong) simp_all
    with ArrayO show ?thesis by (simp add: cl classify_obj_def run_shape_def)
  next
    case (SetO xs)
    have "pair_each rec (\<lambda>entry. strict \<or> \<not> is_fs entry) i xs s' =
        pair_each rec' (\<lambda>entry. True \<or> \<not> is_fs entry) i xs s'" for i s'
      using ch SetO rec by (intro pair_each_cong) (auto simp: vok_def)
    with SetO show ?thesis by (simp add: cl classify_obj_def run_shape_def)
  next
    case (MapO kvs)
    have in_ch: "fst kv \<in> set (children (h ! a)) \<and> snd kv \<in> set (children (h ! a))"
      if "kv \<in> set kvs" for kv
      using that MapO by (auto simp: pairs_flat_def)
    have "pair_entries rec (\<lambda>key entry. strict \<or> \<not> (is_fs key \<or> is_fs entry)) i kvs s' =
        pair_entries rec' (\<lambda>key entry. True \<or> \<not> (is_fs key \<or> is_fs entry)) i kvs s'" for i s'
    proof (rule pair_entries_cong)
      fix kv assume "kv \<in> set kvs"
      note c = in_ch [OF this]
      from c ch have k: "vok h (fst kv)" "vok h (snd kv)" by blast+
      then show "(strict \<or> \<not> (is_fs (fst kv) \<or> is_fs (snd kv))) =
          (True \<or> \<not> (is_fs (fst kv) \<or> is_fs (snd kv)))"
        by (simp add: vok_def)
      fix s'' from c show "rec (fst kv) s'' = rec' (fst kv) s'' \<and> rec (snd kv) s'' = rec' (snd kv) s''"
        by (simp add: rec)
    qed
    with MapO show ?thesis by (simp add: cl classify_obj_def run_shape_def)
  next
    case (ObjectO props tj)
    from nt [OF Ref a] ObjectO have tj: "tj = None" by (cases tj) auto
    have in_ch: "fst kv \<in> set (children (h ! a)) \<and> snd kv \<in> set (children (h ! a))"
      if "kv \<in> set (entries_of props)" for kv
      using that ObjectO by (auto simp: pairs_flat_def)
    have "pair_entries rec (\<lambda>key entry. strict \<or> \<not> is_fs entry) i (entries_of props) s' =
        pair_entries rec' (\<lambda>key entry. True \<or> \<not> is_fs entry) i (entries_of props) s'" for i s'
    proof (rule pair_entries_cong)
      fix kv assume "kv \<in> set (entries_of props)"
      note c = in_ch [OF this]
      from c ch have k: "vok h (fst kv)" "vok h (snd kv)" by blast+
      then show "(strict \<or> \<not> is_fs (snd kv)) = (True \<or> \<not> is_fs (snd kv))"
        by (simp add: vok_def)
      fix s'' from c show "rec (fst kv) s'' = rec' (fst kv) s'' \<and> rec (snd kv) s'' = rec' (snd kv) s''"
        by (simp add: rec)
    qed
    with ObjectO tj show ?thesis by (simp add: cl classify_obj_def run_shape_def)
  qed (simp_all add: cl classify_obj_def run_shape_def split: option.splits obj.splits)
qed (use v in \<open>simp_all add: classify_def run_shape_def vok_def\<close>)

lemma pair_relaxed_eq:
  assumes g: "good h r0" and nt: "no_toJSON h r0"
  shows "reach h r0 v \<Longrightarrow> pair n h strict js v s = pair n h True False v s"
proof (induction n arbitrary: v s)
  case 0
  show ?case by simp
next
  case (Suc n)
  have v: "vok h v" using g Suc.prems by (rule good_reach)
  have "run_shape (pair n h strict js) v s (classify h strict js v) =
      run_shape (pair n h True False) v s (classify h True False v)"
  proof (rule run_shape_relaxed [OF _ _ v])
    fix a assume a: "v = Ref a" "a < length h"
    with g Suc.prems show "good_obj h (h ! a)" by (simp add: good_def)
    fix props r
    from a nt Suc.prems show "h ! a \<noteq> ObjectO props (Some r)" by (simp add: no_toJSON_def)
  next
    fix a x s'
    assume a: "v = Ref a" and x: "x \<in> set (children (h ! a))"
    from v a have "a < length h" by (simp add: vok_def valid_def)
    with Suc.prems a x have "reach h r0 x" by (auto intro: reach_child)
    then show "pair n h strict js x s' = pair n h True False x s'" by (rule Suc.IH)
  qed
  then show ?case by (cases "ids s v") (simp_all add: pair_body_classify)
qed

lemma serialize_json_eq:
  assumes "good h v" "no_toJSON h v"
  shows "serialize n h v opts = serialize n h v no_options"
  using pair_relaxed_eq [OF assms reach_root, of n "\<not> (json opts \<or> lossy opts)" "json opts"]
  by (simp add: serialize_eq no_options_def)

subsection \<open>The records through the text\<close>

lemma those_map_nat: "those_map json_nat (map (\<lambda>i. JNum (int i)) js) = Some js"
  by (induction js) simp_all

lemma those_map_pair:
  "those_map json_pair (map (\<lambda>p. JArr [JNum (int (fst p)), JNum (int (snd p))]) ps) = Some ps"
  by (induction ps) simp_all

lemma those_map_int: "those_map json_int (map JNum xs) = Some xs"
  by (induction xs) simp_all

lemma tag_of_json_tag [simp]: "tag_of_json (tag_json t) = Some t"
  by (cases t) (simp_all add: tag_of_json_def)

lemma record_through_text:
  assumes "json_safe r"
  shows "\<exists>j. record_json r = Ok j \<and> record_of_json j = Some r"
proof -
  obtain t p where r: "r = (t, p)" by (cases r)
  show ?thesis
  proof (cases p)
    case (PVal v)
    with assms r show ?thesis
      by (cases v) (simp_all add: record_of_json_def payload_of_json_def)
  next
    case (PSlots js)
    with assms r show ?thesis
      by (auto simp: record_of_json_def payload_of_json_def those_map_nat)
  next
    case (PPairs ps)
    with assms r show ?thesis
      by (auto simp: record_of_json_def payload_of_json_def those_map_pair tag_defs)
  next
    case (PItems xs)
    with assms r show ?thesis
      by (auto simp: record_of_json_def payload_of_json_def those_map_int)
  qed (use r in \<open>simp_all add: record_of_json_def payload_of_json_def\<close>)
qed

lemma records_through_text:
  "list_all json_safe W \<Longrightarrow> \<exists>js. records_json W = Ok js \<and> those_map record_of_json js = Some W"
proof (induction W)
  case Nil
  show ?case by simp
next
  case (Cons r W)
  from Cons.prems record_through_text [of r] obtain j where
    j: "record_json r = Ok j" "record_of_json j = Some r" by auto
  from Cons obtain js where js: "records_json W = Ok js" "those_map record_of_json js = Some W"
    by auto
  from j js show ?case by simp
qed

lemma wire_through_text:
  assumes "list_all json_safe W"
  shows "\<exists>text. stringify_wire W = Ok text \<and> parse_wire text = Ok W"
proof -
  from records_through_text [OF assms] obtain js where
    "records_json W = Ok js" "those_map record_of_json js = Some W" by blast
  then show ?thesis by (simp add: stringify_wire_def parse_wire_def)
qed

lemma stringify_h_map: "stringifyJSON 3 h_map (Ref 0) = Ok J_map"
  by code_simp

lemma parse_J_map: "parseJSON 4 J_map = Ok (Ref 0, h_map)"
  by code_simp

lemma stringify_invalid_date:
  "stringifyJSON 2 [DateO None] (Ref 0) = Throw (RangeError ''Invalid time value'')"
  by code_simp

text \<open>
  C7 (as amended). \<^verbatim>\<open>stringify\<close> serializes with \<open>jsonOptions\<close>, the relaxed mode, and
  so never throws one of the two \<^verbatim>\<open>unable to serialize\<close> TypeErrors. The text carries
  the records without loss: \<^verbatim>\<open>parse\<close> of the text is \<^verbatim>\<open>deserialize\<close> of the records
  that were stringified (numbers are integers, as in all of this embedding). A well-formed
  value (\<open>good\<close>, as for the round trip without text) in which no object has a
  \<^verbatim>\<open>toJSON\<close> comes back from \<^verbatim>\<open>parse(stringify(v))\<close> as a copy of itself, a DataView
  as a view of the whole of a copy of its buffer. \<^verbatim>\<open>new Map([[1, "a"]])\<close> comes back as
  a Map with the one entry from 1 to \<^verbatim>\<open>"a"\<close>.
\<close>

theorem stringify_parse:
  "(stringifyJSON n h v = Throw e \<longrightarrow> \<not> tns e) \<and>
   (serialize n h v jsonOptions = Ok W \<longrightarrow>
      (\<exists>text. stringifyJSON n h v = Ok text \<and> (\<forall>m. parseJSON m text = deserialize m W))) \<and>
   (good h v \<and> no_toJSON h v \<longrightarrow>
      (\<exists>k m text r H. stringifyJSON k h v = Ok text \<and> parseJSON m text = Ok (r, H) \<and>
         clone_of h v H r)) \<and>
   stringifyJSON 3 h_map (Ref 0) = Ok J_map \<and> parseJSON 4 J_map = Ok (Ref 0, h_map)"
proof -
  have thru: "\<exists>text. stringifyJSON n h v = Ok text \<and> (\<forall>m. parseJSON m text = deserialize m W)"
    if s: "serialize n h v jsonOptions = Ok W" for n h v W
  proof -
    from wire_through_text [OF serialize_json_safe [OF s]] obtain jtext where
      "stringify_wire W = Ok jtext" "parse_wire jtext = Ok W" by blast
    with s show ?thesis by (simp add: stringifyJSON_def parseJSON_def)
  qed
  have 1: "\<not> tns e" if t: "stringifyJSON n h v = Throw e"
  proof (cases "serialize n h v jsonOptions")
    case (Throw e')
    with t have "serialize n h v jsonOptions = Throw e" by (simp add: stringifyJSON_def)
    then have "pair n h False True v \<lparr>ids = Map.empty, recs = []\<rparr> = Throw e"
      by (simp add: serialize_Throw_iff jsonOptions_def)
    then show ?thesis by (rule pair_relaxed_no_tns)
  next
    case (Ok W')
    from thru [OF this] t show ?thesis by auto
  next
    case OutOfFuel
    with t show ?thesis by (simp add: stringifyJSON_def)
  qed
  have 3: "\<exists>k m text r H. stringifyJSON k h v = Ok text \<and> parseJSON m text = Ok (r, H) \<and>
         clone_of h v H r" if g: "good h v" "no_toJSON h v"
  proof -
    from roundtrip_core [OF g(1)] obtain W' r H R where
      s: "serialize (Suc (card {x. reach h v x})) h v no_options = Ok W'"
      and d: "deserialize (Suc (length W')) W' = Ok (r, H)" and R: "R v r" "simulation R h H"
      by blast
    from s have "serialize (Suc (card {x. reach h v x})) h v jsonOptions = Ok W'"
      by (simp only: serialize_json_eq [OF g, of _ jsonOptions])
    from thru [OF this] d obtain jtext where
      "stringifyJSON (Suc (card {x. reach h v x})) h v = Ok jtext"
      "parseJSON (Suc (length W')) jtext = Ok (r, H)"
      by auto
    moreover from R have "clone_of h v H r" by (auto simp: clone_of_def)
    ultimately show ?thesis by blast
  qed
  from 1 thru [of n h v W] 3 stringify_h_map parse_J_map show ?thesis by blast
qed

lemma good_h_map: "good h_map (Ref 0) \<and> no_toJSON h_map (Ref 0)"
  by (intro conjI good_heapI no_toJSON_heapI; code_simp)

lemma serialize_h_map: "serialize 3 h_map (Ref 0) jsonOptions = Ok W_map"
  by code_simp

theorem stringify_parse_witness:
  "stringifyJSON 2 [DateO None] (Ref 0) = Throw (RangeError ''Invalid time value'') \<and>
   \<not> tns (RangeError ''Invalid time value'') \<and>
   serialize 3 h_map (Ref 0) jsonOptions = Ok W_map \<and>
   (\<exists>text. stringifyJSON 3 h_map (Ref 0) = Ok text \<and> (\<forall>m. parseJSON m text = deserialize m W_map)) \<and>
   good h_map (Ref 0) \<and> no_toJSON h_map (Ref 0) \<and>
   (\<exists>k m text r H. stringifyJSON k h_map (Ref 0) = Ok text \<and> parseJSON m text = Ok (r, H) \<and>
         clone_of h_map (Ref 0) H r)"
proof -
  note a = stringify_parse [of 2 "[DateO None]" "Ref 0" "RangeError ''Invalid time value''" W_map]
  note b = stringify_parse [of 3 h_map "Ref 0" "RangeError ''Invalid time value''" W_map]
  from a have "stringifyJSON 2 [DateO None] (Ref 0) = Throw (RangeError ''Invalid time value'') \<longrightarrow>
      \<not> tns (RangeError ''Invalid time value'')"
    by (rule conjunct1)
  moreover from b have "serialize 3 h_map (Ref 0) jsonOptions = Ok W_map \<longrightarrow>
      (\<exists>text. stringifyJSON 3 h_map (Ref 0) = Ok text \<and> (\<forall>m. parseJSON m text = deserialize m W_map))"
    by (rule conjunct1 [OF conjunct2])
  moreover from b have "good h_map (Ref 0) \<and> no_toJSON h_map (Ref 0) \<longrightarrow>
      (\<exists>k m text r H. stringifyJSON k h_map (Ref 0) = Ok text \<and> parseJSON m text = Ok (r, H) \<and>
         clone_of h_map (Ref 0) H r)"
    by (rule conjunct1 [OF conjunct2 [OF conjunct2]])
  ultimately show ?thesis
    using stringify_invalid_date serialize_h_map good_h_map by blast
qed

subsection \<open>Object.fromEntries\<close>














text \<open>
  The assignment \<^verbatim>\<open>obj['__proto__'] = 1\<close> goes to the setter inherited from
  \<^verbatim>\<open>Object.prototype\<close> and adds no property.
\<close>

lemma proto_entry_adds_nothing:
  "fromEntries [ArrayO [Ref 1], ArrayO [Str ''__proto__'', Num 1]] (Ref 0) =
    Ok (Ref 2, [ArrayO [Ref 1], ArrayO [Str ''__proto__'', Num 1], ObjectO [] None])"
  by code_simp

subsection \<open>Round trip\<close>

text \<open>
  C1 (as amended). Let every object reachable from \<open>v\<close> be of a supported kind and well formed
  (\<open>good\<close>: no function or symbol, no invalid Date, no property named \<^verbatim>\<open>__proto__\<close>, an
  Error of the class \<^verbatim>\<open>Error\<close> itself, the keys of a Map and the elements of a Set
  distinct, the elements of a typed array in its range; numbers are integers and arrays
  have no holes, as in all of this embedding). Then \<^verbatim>\<open>serialize(v)\<close> returns a sequence
  \<open>W\<close> for every fuel from some point on, \<^verbatim>\<open>deserialize(W)\<close> returns a value \<open>r\<close>, and
  \<open>r\<close> is a copy of \<open>v\<close> (\<open>clone_of\<close>): the two graphs are related node by node, a
  primitive to itself, an object to an object of the same kind with the same contents and
  related children, where a DataView comes back as a view of the whole of a copy of its
  buffer.
\<close>

theorem structured_clone_roundtrip:
  assumes "good h v"
  shows "\<exists>n W r H. (\<forall>m\<ge>n. serialize m h v no_options = Ok W) \<and>
    deserialize (Suc (length W)) W = Ok (r, H) \<and> clone_of h v H r"
proof -
  from roundtrip_core [OF assms] obtain W r H R where
    s: "serialize (Suc (card {x. reach h v x})) h v no_options = Ok W"
    and d: "deserialize (Suc (length W)) W = Ok (r, H)" and R: "R v r" "simulation R h H"
    by blast
  have "serialize m h v no_options = Ok W" if "Suc (card {x. reach h v x}) \<le> m" for m
    using serialize_mono [OF that, of h v no_options] s by simp
  moreover from R have "clone_of h v H r" by (auto simp: clone_of_def)
  ultimately show ?thesis using d by blast
qed

text \<open>
  An object that holds itself, an array twice, a Date, a Map and a Set that holds the
  object.
\<close>

theorem structured_clone_roundtrip_witness:
  "good h_ex (Ref 0) \<and> serialize 10 h_ex (Ref 0) no_options = Ok W_ex \<and>
   deserialize (Suc (length W_ex)) W_ex = Ok (Ref 0, h_ex) \<and> clone_of h_ex (Ref 0) h_ex (Ref 0)"
proof -
  from structured_clone_roundtrip [OF good_h_ex] obtain n W r H where
    s: "\<forall>m\<ge>n. serialize m h_ex (Ref 0) no_options = Ok W"
    and d: "deserialize (Suc (length W)) W = Ok (r, H)" and c: "clone_of h_ex (Ref 0) H r"
    by blast
  from s have "serialize (max n 10) h_ex (Ref 0) no_options = Ok W" by simp
  moreover have "serialize (max n 10) h_ex (Ref 0) no_options = serialize 10 h_ex (Ref 0) no_options"
    by (rule serialize_mono) (simp_all add: serialize_h_ex)
  ultimately have W: "W = W_ex" by (simp add: serialize_h_ex)
  from d have "r = Ref 0" "H = h_ex" unfolding W deserialize_W_ex by simp_all
  with c good_h_ex serialize_h_ex deserialize_W_ex show ?thesis by simp
qed

text \<open>
  C1 as stated fails on a DataView of one byte at offset 1 of a buffer of three bytes: the
  record holds the three bytes of the buffer, and the value that comes back is a view of
  three bytes at offset 0.
\<close>

theorem dataview_window_lost:
  "serialize 1 h_view (Ref 0) no_options = Ok [(StrTag ''DataView'', PItems [1, 2, 3])] \<and>
   deserialize 1 [(StrTag ''DataView'', PItems [1, 2, 3])] =
     Ok (Ref 1, [ArrayBufferO [1, 2, 3], DataViewO 0 0 3])"
  by code_simp

text \<open>
  The record of an Error holds the class name that \<^verbatim>\<open>Object.prototype.toString\<close>
  reports, not the \<^verbatim>\<open>name\<close> of the error.
\<close>

lemma error_record_name:
  "serialize 2 [ErrorO ''TypeError'' ''x''] (Ref 0) no_options =
     Ok [(NumTag ERROR, PError ''Error'' ''x'')]"
  by code_simp

subsection \<open>Cycles\<close>

lemma no_collapse_nc:
  assumes "js \<longrightarrow> no_toJSON h v"
  shows "nc h strict js v"
proof (cases js)
  case False
  then show ?thesis by (simp add: nc_not_js)
next
  case True
  show ?thesis
    unfolding nc_def
  proof (intro allI impI)
    fix x c
    assume r: "reach h v x"
    show "classify h strict js x \<noteq> Collapse c"
    proof
      assume c: "classify h strict js x = Collapse c"
      then obtain a where a: "x = Ref a" "a < length h"
        and co: "classify_obj h strict js (h ! a) = Collapse c"
        by (cases x) (auto simp: classify_def split: if_splits)
      from co obtain props where "h ! a = ObjectO props (Some c)"
        by (cases "h ! a") (auto simp: classify_obj_def split: if_splits option.splits obj.splits)
      with assms True r a show False unfolding no_toJSON_def by blast
    qed
  qed
qed

lemma pair_loop: "pair n h_loop False True (Ref 0) \<lparr>ids = Map.empty, recs = []\<rparr> = OutOfFuel"
proof (induction n)
  case 0
  show ?case by simp
next
  case (Suc n)
  have "classify h_loop False True (Ref 0) = Collapse (Ref 0)"
    by (simp add: classify_def classify_obj_def h_loop_def)
  with Suc show ?case by (simp add: pair_body_classify run_shape_def)
qed

text \<open>
  C3 (as amended). \<^verbatim>\<open>serialize\<close> terminates on every input, cyclic or not, when the
  option \<^verbatim>\<open>json\<close> is off, and when it is on and no ordinary object with a \<^verbatim>\<open>toJSON\<close>
  is reachable: a value is registered before its children are visited, so every call of
  \<^verbatim>\<open>pair\<close> that goes past the register adds one of the finitely many reachable values
  to it. \<^verbatim>\<open>deserialize\<close> terminates on every sequence that \<^verbatim>\<open>serialize\<close> returned,
  for the same reason on the slots. When the value is well formed and no object
  reachable from it has a \<^verbatim>\<open>toJSON\<close>, the copy is related to it node by node by a relation that gives each
  object other than a buffer exactly one copy, so a cycle of the value closes on the one
  copy of the object it starts from. For \<^verbatim>\<open>a = {}; a.self = a\<close> the result is an
  object whose \<^verbatim>\<open>self\<close> is the object itself.
\<close>

theorem cycles_terminate:
  "((json opts \<longrightarrow> no_toJSON h v) \<longrightarrow>
      (\<forall>m>card {x. reach h v x}. serialize m h v opts \<noteq> OutOfFuel)) \<and>
   (serialize n h v opts = Ok W \<longrightarrow> deserialize (Suc (length W)) W \<noteq> OutOfFuel) \<and>
   (good h v \<and> no_toJSON h v \<longrightarrow>
     (\<exists>W r H R. serialize (Suc (card {x. reach h v x})) h v opts = Ok W \<and>
        deserialize (Suc (length W)) W = Ok (r, H) \<and> R v r \<and> simulation R h H \<and>
        (\<forall>a y y'. \<not> is_buf (h ! a) \<longrightarrow> R (Ref a) y \<longrightarrow> R (Ref a) y' \<longrightarrow> y = y'))) \<and>
   serialize 2 h_self (Ref 0) no_options = Ok W_self \<and>
   deserialize 3 W_self = Ok (Ref 0, h_self)"
proof -
  have 1: "serialize m h v opts \<noteq> OutOfFuel"
    if c: "json opts \<longrightarrow> no_toJSON h v" and m: "card {x. reach h v x} < m" for m
  proof -
    have "serialize (Suc (card {x. reach h v x})) h v opts \<noteq> OutOfFuel"
      using serialize_terminates [OF no_collapse_nc [OF c]]
      by (simp add: serialize_OutOfFuel_iff)
    moreover from m have "Suc (card {x. reach h v x}) \<le> m" by simp
    ultimately show ?thesis using serialize_mono [of _ m h v opts] by metis
  qed
  have 2: "deserialize (Suc (length W)) W \<noteq> OutOfFuel" if "serialize n h v opts = Ok W"
    using deserialize_fine [OF serialize_json_safe [OF that], of False] by (simp add: fine_def)
  have 3: "\<exists>W r H R. serialize (Suc (card {x. reach h v x})) h v opts = Ok W \<and>
        deserialize (Suc (length W)) W = Ok (r, H) \<and> R v r \<and> simulation R h H \<and>
        (\<forall>a y y'. \<not> is_buf (h ! a) \<longrightarrow> R (Ref a) y \<longrightarrow> R (Ref a) y' \<longrightarrow> y = y')"
    if g: "good h v \<and> no_toJSON h v"
  proof -
    from g have e: "serialize (Suc (card {x. reach h v x})) h v opts =
        serialize (Suc (card {x. reach h v x})) h v no_options"
      by (intro serialize_json_eq) simp_all
    from g roundtrip_core [of h v] show ?thesis unfolding e by blast
  qed
  from 1 2 3 serialize_h_self deserialize_W_self show ?thesis by blast
qed

lemma no_toJSON_h_self: "no_toJSON h_self (Ref 0)"
  by (rule no_toJSON_heapI) code_simp

text \<open>\<^verbatim>\<open>a = {}; a.self = a\<close>, with the default options and in lossy mode.\<close>

theorem cycles_terminate_witness:
  "serialize (Suc (card {x. reach h_self (Ref 0) x})) h_self (Ref 0) \<lparr>json = False, lossy = True\<rparr> \<noteq>
     OutOfFuel \<and>
   serialize 2 h_self (Ref 0) no_options = Ok W_self \<and>
   deserialize (Suc (length W_self)) W_self \<noteq> OutOfFuel \<and>
   good h_self (Ref 0) \<and> no_toJSON h_self (Ref 0) \<and>
   (\<exists>W r H R. serialize (Suc (card {x. reach h_self (Ref 0) x})) h_self (Ref 0) no_options = Ok W \<and>
        deserialize (Suc (length W)) W = Ok (r, H) \<and> R (Ref 0) r \<and> simulation R h_self H \<and>
        (\<forall>a y y'. \<not> is_buf (h_self ! a) \<longrightarrow> R (Ref a) y \<longrightarrow> R (Ref a) y' \<longrightarrow> y = y'))"
proof -
  note l = cycles_terminate [of "\<lparr>json = False, lossy = True\<rparr>" h_self "Ref 0" 2 W_self]
  note t = cycles_terminate [of no_options h_self "Ref 0" 2 W_self]
  from l have "\<forall>m>card {x. reach h_self (Ref 0) x}.
      serialize m h_self (Ref 0) \<lparr>json = False, lossy = True\<rparr> \<noteq> OutOfFuel"
    by simp
  then have a: "serialize (Suc (card {x. reach h_self (Ref 0) x})) h_self (Ref 0)
      \<lparr>json = False, lossy = True\<rparr> \<noteq> OutOfFuel"
    by simp
  from t have "serialize 2 h_self (Ref 0) no_options = Ok W_self \<longrightarrow>
      deserialize (Suc (length W_self)) W_self \<noteq> OutOfFuel"
    by (rule conjunct1 [OF conjunct2])
  moreover from t have "good h_self (Ref 0) \<and> no_toJSON h_self (Ref 0) \<longrightarrow>
     (\<exists>W r H R. serialize (Suc (card {x. reach h_self (Ref 0) x})) h_self (Ref 0) no_options = Ok W \<and>
        deserialize (Suc (length W)) W = Ok (r, H) \<and> R (Ref 0) r \<and> simulation R h_self H \<and>
        (\<forall>a y y'. \<not> is_buf (h_self ! a) \<longrightarrow> R (Ref a) y \<longrightarrow> R (Ref a) y' \<longrightarrow> y = y'))"
    by (rule conjunct1 [OF conjunct2 [OF conjunct2]])
  ultimately show ?thesis using a good_h_self no_toJSON_h_self serialize_h_self by blast
qed

text \<open>
  C3 as stated fails in json mode on an object that holds itself and whose \<^verbatim>\<open>toJSON\<close>
  returns the object: \<^verbatim>\<open>pair\<close> calls itself on the result of \<^verbatim>\<open>toJSON\<close> before the
  object has a slot, at every depth of the call stack.
\<close>

theorem toJSON_self_never_returns:
  "reach h_loop (Ref 0) (Ref 0) \<and>
   (\<forall>n. serialize n h_loop (Ref 0) \<lparr>json = True, lossy = False\<rparr> = OutOfFuel)"
  using pair_loop by (simp add: serialize_OutOfFuel_iff reach_root)

subsection \<open>Functions and symbols\<close>

lemma pair_each_filter:
  "pair_each rec keep i xs s = pair_each rec (\<lambda>e. True) i (filter keep xs) s"
  by (induction xs arbitrary: s) simp_all

lemma pair_entries_filter:
  "pair_entries rec keep i kvs s =
    pair_entries rec (\<lambda>k e. True) i (filter (\<lambda>kv. keep (fst kv) (snd kv)) kvs) s"
  by (induction kvs arbitrary: s) simp_all

lemma classify_fs_tns: "is_fs y \<Longrightarrow> classify h True js y = Raise e \<Longrightarrow> tns e"
  by (cases y) (auto simp: classify_def tns_def)

lemma strict_fs_throws:
  assumes fs: "reach h v x" "is_fs x"
    and run: "pair n h True False v \<lparr>ids = Map.empty, recs = []\<rparr> \<noteq> OutOfFuel"
  shows "\<exists>e y. pair n h True False v \<lparr>ids = Map.empty, recs = []\<rparr> = Throw e \<and> reach h v y \<and>
    classify h True False y = Raise e"
proof (cases "pair n h True False v \<lparr>ids = Map.empty, recs = []\<rparr>")
  case OutOfFuel
  with run show ?thesis by simp
next
  case (Throw e)
  from pair_Throw_reach [OF Throw] Throw show ?thesis by blast
next
  case (Ok r)
  obtain i s where r: "r = (i, s)" by (cases r)
  note d = pair_from_empty_done [OF Ok [unfolded r] nc_not_js]
  from reach_registered [of s h True False v x] d fs(1) have "ids s x \<noteq> None" by auto
  from d(2) [OF this] have "\<forall>e. classify h True False x \<noteq> Raise e" by (auto simp: done_at_def)
  with classify_fs_strict [OF fs(2), of h False] show ?thesis by simp
qed

text \<open>
  Claim C4, as amended. (1) When \<^verbatim>\<open>serialize\<close> throws the TypeError
  \<^verbatim>\<open>unable to serialize function\<close> or \<^verbatim>\<open>unable to serialize symbol\<close>, the mode is
  strict and a function or a symbol is reachable from the root. (2) In strict mode, when a
  function or a symbol is reachable and nothing reachable throws another error (no invalid
  Date, whose \<^verbatim>\<open>toISOString\<close> throws a RangeError, and no object outside the
  embedding), \<^verbatim>\<open>serialize\<close> returns with enough fuel, and whenever it returns it throws
  that TypeError. (3) In relaxed mode it never throws it. (4) In relaxed mode \<^verbatim>\<open>pair\<close>
  gives a function or a symbol that has no slot yet the record \<^verbatim>\<open>[PRIMITIVE, null]\<close>.
  (5) In relaxed mode, when no \<^verbatim>\<open>toJSON\<close> is called and \<^verbatim>\<open>serialize\<close> returns
  \<open>W\<close>, there is a register \<open>m\<close> with the root in slot 0 such that the record of an
  ordinary object, a Map or a Set holds the slots of exactly those entries that hold no
  function and no symbol (for a Map: as key or as value), the record of an array holds the
  slots of all its elements, and the slot of a function or symbol holds
  \<^verbatim>\<open>[PRIMITIVE, null]\<close>. (6) In strict mode, when a function or a symbol is reachable,
  \<^verbatim>\<open>serialize\<close> returns with enough fuel and never returns a sequence: it throws the
  error that one of the reachable values raises, and this is that TypeError exactly when
  the value is a function or a symbol. (7) In relaxed mode, toJSON or not, the loop of
  \<^verbatim>\<open>pair\<close> over the elements of a Set, the entries of a Map and the properties of an
  ordinary object (one that is not replaced by its \<^verbatim>\<open>toJSON\<close>) runs as on the list
  without the functions and symbols.
\<close>

theorem type_not_serializable:
  "((\<exists>e. serialize n h v opts = Throw e \<and> tns e) \<longrightarrow>
      \<not> (json opts \<or> lossy opts) \<and> (\<exists>x. reach h v x \<and> is_fs x)) \<and>
   (\<not> (json opts \<or> lossy opts) \<and> (\<exists>x. reach h v x \<and> is_fs x) \<and>
      (\<forall>y e. reach h v y \<longrightarrow> classify h True False y = Raise e \<longrightarrow> tns e) \<longrightarrow>
      serialize (Suc (card {x. reach h v x})) h v opts \<noteq> OutOfFuel \<and>
      (serialize n h v opts \<noteq> OutOfFuel \<longrightarrow> (\<exists>e. serialize n h v opts = Throw e \<and> tns e))) \<and>
   (json opts \<or> lossy opts \<longrightarrow> (\<forall>e. serialize n h v opts = Throw e \<longrightarrow> \<not> tns e)) \<and>
   (is_fs x \<and> ids s x = None \<longrightarrow>
      pair (Suc n) h False js x s = Ok (as_s (NumTag PRIMITIVE, PVal Null) x s)) \<and>
   ((json opts \<or> lossy opts) \<and> nc h False (json opts) v \<and> serialize n h v opts = Ok W \<longrightarrow>
      (\<exists>m. m v = Some 0 \<and>
        (\<forall>a i. m (Ref a) = Some i \<and> a < length h \<longrightarrow>
          (case h ! a of
            ArrayO xs \<Rightarrow> W ! i = (NumTag ARRAY, PSlots (map (slot m) xs))
          | SetO xs \<Rightarrow> W ! i = (NumTag SET, PSlots (map (slot m) (filter (\<lambda>e. \<not> is_fs e) xs)))
          | MapO kvs \<Rightarrow>
              W ! i = (NumTag MAP, PPairs (map (\<lambda>kv. (slot m (fst kv), slot m (snd kv)))
                (filter (\<lambda>kv. \<not> (is_fs (fst kv) \<or> is_fs (snd kv))) kvs)))
          | ObjectO props tj \<Rightarrow>
              W ! i = (NumTag OBJECT, PPairs (map (\<lambda>kv. (slot m (fst kv), slot m (snd kv)))
                (filter (\<lambda>kv. \<not> is_fs (snd kv)) (entries_of props))))
          | _ \<Rightarrow> True)) \<and>
        (\<forall>y i. is_fs y \<and> m y = Some i \<longrightarrow> W ! i = (NumTag PRIMITIVE, PVal Null)))) \<and>
   (\<not> (json opts \<or> lossy opts) \<and> (\<exists>x. reach h v x \<and> is_fs x) \<longrightarrow>
      serialize (Suc (card {x. reach h v x})) h v opts \<noteq> OutOfFuel \<and>
      (serialize n h v opts \<noteq> OutOfFuel \<longrightarrow>
        (\<exists>e y. serialize n h v opts = Throw e \<and> reach h v y \<and>
           classify h True False y = Raise e \<and> (tns e \<longleftrightarrow> is_fs y)))) \<and>
   (ids s (Ref a) = None \<and> a < length h \<longrightarrow>
      (case h ! a of
        SetO xs \<Rightarrow>
          pair (Suc n) h False js (Ref a) s =
            rbind (pair_each (pair n h False js) (\<lambda>e. True) (length (recs s))
                    (filter (\<lambda>e. \<not> is_fs e) xs) (snd (as_s (NumTag SET, PSlots []) (Ref a) s)))
              (\<lambda>s2. Ok (length (recs s), s2))
      | MapO kvs \<Rightarrow>
          pair (Suc n) h False js (Ref a) s =
            rbind (pair_entries (pair n h False js) (\<lambda>k e. True) (length (recs s))
                    (filter (\<lambda>kv. \<not> (is_fs (fst kv) \<or> is_fs (snd kv))) kvs)
                    (snd (as_s (NumTag MAP, PPairs []) (Ref a) s)))
              (\<lambda>s2. Ok (length (recs s), s2))
      | ObjectO props tj \<Rightarrow>
          \<not> (js \<and> tj \<noteq> None) \<longrightarrow>
          pair (Suc n) h False js (Ref a) s =
            rbind (pair_entries (pair n h False js) (\<lambda>k e. True) (length (recs s))
                    (filter (\<lambda>kv. \<not> is_fs (snd kv)) (entries_of props))
                    (snd (as_s (NumTag OBJECT, PPairs []) (Ref a) s)))
              (\<lambda>s2. Ok (length (recs s), s2))
      | _ \<Rightarrow> True))"
proof -
  let ?strict = "\<not> (json opts \<or> lossy opts)"
  let ?s0 = "\<lparr>ids = Map.empty, recs = []\<rparr>"
  have p1: "\<not> (json opts \<or> lossy opts) \<and> (\<exists>x. reach h v x \<and> is_fs x)"
    if "\<exists>e. serialize n h v opts = Throw e \<and> tns e"
  proof -
    from that obtain e where e: "pair n h ?strict (json opts) v ?s0 = Throw e" "tns e"
      by (auto simp: serialize_Throw_iff)
    have st: "?strict"
    proof (rule ccontr)
      assume "\<not> ?strict"
      then have "?strict = False" by simp
      with e(1) have "pair n h False (json opts) v ?s0 = Throw e" by (simp only:)
      from pair_relaxed_no_tns [OF this] e(2) show False by simp
    qed
    with e(1) have "pair n h True False v ?s0 = Throw e" by simp
    from pair_Throw_reach [OF this] obtain y where "reach h v y" "classify h True False y = Raise e"
      by blast
    with classify_Raise_tns [OF this(2) e(2)] st show ?thesis by blast
  qed
  have p2: "serialize (Suc (card {x. reach h v x})) h v opts \<noteq> OutOfFuel \<and>
      (serialize n h v opts \<noteq> OutOfFuel \<longrightarrow> (\<exists>e. serialize n h v opts = Throw e \<and> tns e))"
    if "\<not> (json opts \<or> lossy opts) \<and> (\<exists>x. reach h v x \<and> is_fs x) \<and>
      (\<forall>y e. reach h v y \<longrightarrow> classify h True False y = Raise e \<longrightarrow> tns e)"
  proof -
    from that have st: "?strict" "\<not> json opts" by auto
    from that obtain y where y: "reach h v y" "is_fs y" by blast
    from that have only: "\<forall>y e. reach h v y \<longrightarrow> classify h True False y = Raise e \<longrightarrow> tns e"
      by blast
    from serialize_terminates [OF nc_not_js [of h True v]] st
    have "serialize (Suc (card {x. reach h v x})) h v opts \<noteq> OutOfFuel"
      by (simp add: serialize_OutOfFuel_iff)
    moreover have "\<exists>e. serialize n h v opts = Throw e \<and> tns e"
      if "serialize n h v opts \<noteq> OutOfFuel"
      using serialize_strict_raises [OF y only, of n] that st
      by (simp add: serialize_OutOfFuel_iff serialize_Throw_iff)
    ultimately show ?thesis by blast
  qed
  have p3: "\<forall>e. serialize n h v opts = Throw e \<longrightarrow> \<not> tns e" if "json opts \<or> lossy opts"
    using that pair_relaxed_no_tns [of n h "json opts" v ?s0]
    by (auto simp: serialize_Throw_iff)
  have p4: "pair (Suc n) h False js x s = Ok (as_s (NumTag PRIMITIVE, PVal Null) x s)"
    if "is_fs x \<and> ids s x = None"
    using that by (simp add: pair_body_classify classify_fs_relaxed run_shape_def)
  have p5: "\<exists>m. m v = Some 0 \<and>
        (\<forall>a i. m (Ref a) = Some i \<and> a < length h \<longrightarrow>
          (case h ! a of
            ArrayO xs \<Rightarrow> W ! i = (NumTag ARRAY, PSlots (map (slot m) xs))
          | SetO xs \<Rightarrow> W ! i = (NumTag SET, PSlots (map (slot m) (filter (\<lambda>e. \<not> is_fs e) xs)))
          | MapO kvs \<Rightarrow>
              W ! i = (NumTag MAP, PPairs (map (\<lambda>kv. (slot m (fst kv), slot m (snd kv)))
                (filter (\<lambda>kv. \<not> (is_fs (fst kv) \<or> is_fs (snd kv))) kvs)))
          | ObjectO props tj \<Rightarrow>
              W ! i = (NumTag OBJECT, PPairs (map (\<lambda>kv. (slot m (fst kv), slot m (snd kv)))
                (filter (\<lambda>kv. \<not> is_fs (snd kv)) (entries_of props))))
          | _ \<Rightarrow> True)) \<and>
        (\<forall>y i. is_fs y \<and> m y = Some i \<longrightarrow> W ! i = (NumTag PRIMITIVE, PVal Null))"
    if "(json opts \<or> lossy opts) \<and> nc h False (json opts) v \<and> serialize n h v opts = Ok W"
  proof -
    from that have rel: "\<not> ?strict" and ncv: "nc h False (json opts) v" by auto
    from that obtain i s where run: "pair n h False (json opts) v ?s0 = Ok (i, s)"
      and W: "recs s = W"
      by (auto simp: serialize_def rbind_Ok_iff)
    note d = pair_from_empty_done [OF run ncv]
    have rec: "W ! i = enc h False (json opts) (ids s) y" if "ids s y = Some i" for y i
      using d(2) [of y] that W by (auto simp: done_at_def)
    have ncol: "\<forall>c. classify h False (json opts) y \<noteq> Collapse c" if "ids s y = Some i" for y i
      using d(2) [of y] that by (auto simp: done_at_def)
    have "W ! i = (NumTag PRIMITIVE, PVal Null)" if "is_fs y \<and> ids s y = Some i" for y i
      using rec [of y i] that by (simp add: enc_def classify_fs_relaxed)
    moreover have "case h ! a of
            ArrayO xs \<Rightarrow> W ! i = (NumTag ARRAY, PSlots (map (slot (ids s)) xs))
          | SetO xs \<Rightarrow> W ! i = (NumTag SET, PSlots (map (slot (ids s)) (filter (\<lambda>e. \<not> is_fs e) xs)))
          | MapO kvs \<Rightarrow>
              W ! i = (NumTag MAP, PPairs (map (\<lambda>kv. (slot (ids s) (fst kv), slot (ids s) (snd kv)))
                (filter (\<lambda>kv. \<not> (is_fs (fst kv) \<or> is_fs (snd kv))) kvs)))
          | ObjectO props tj \<Rightarrow>
              W ! i = (NumTag OBJECT, PPairs (map (\<lambda>kv. (slot (ids s) (fst kv), slot (ids s) (snd kv)))
                (filter (\<lambda>kv. \<not> is_fs (snd kv)) (entries_of props))))
          | _ \<Rightarrow> True"
      if "ids s (Ref a) = Some i \<and> a < length h" for a i
      using rec [of "Ref a" i] ncol [of "Ref a" i] that
      by (cases "h ! a") (auto simp: enc_def classify_def classify_obj_def split: if_splits)
    ultimately show ?thesis using d(1) by (intro exI [of _ "ids s"]) blast
  qed
  have p6: "serialize (Suc (card {x. reach h v x})) h v opts \<noteq> OutOfFuel \<and>
      (serialize n h v opts \<noteq> OutOfFuel \<longrightarrow>
        (\<exists>e y. serialize n h v opts = Throw e \<and> reach h v y \<and>
           classify h True False y = Raise e \<and> (tns e \<longleftrightarrow> is_fs y)))"
    if "\<not> (json opts \<or> lossy opts) \<and> (\<exists>x. reach h v x \<and> is_fs x)"
  proof -
    from that have st: "?strict" "\<not> json opts" by auto
    from that obtain x where x: "reach h v x" "is_fs x" by blast
    from serialize_terminates [OF nc_not_js [of h True v]] st
    have "serialize (Suc (card {x. reach h v x})) h v opts \<noteq> OutOfFuel"
      by (simp add: serialize_OutOfFuel_iff)
    moreover have "\<exists>e y. serialize n h v opts = Throw e \<and> reach h v y \<and>
           classify h True False y = Raise e \<and> (tns e \<longleftrightarrow> is_fs y)"
      if "serialize n h v opts \<noteq> OutOfFuel"
    proof -
      from that st have run: "pair n h True False v ?s0 \<noteq> OutOfFuel"
        by (simp add: serialize_OutOfFuel_iff)
      from strict_fs_throws [OF x run] obtain e y where
        e: "pair n h True False v ?s0 = Throw e" "reach h v y" "classify h True False y = Raise e"
        by blast
      from e(3) have "tns e \<longleftrightarrow> is_fs y"
        using classify_Raise_tns [of h True False y e] classify_fs_tns [of y h False e] by blast
      with e st show ?thesis by (auto simp: serialize_Throw_iff)
    qed
    ultimately show ?thesis by blast
  qed
  have p7: "case h ! a of
        SetO xs \<Rightarrow>
          pair (Suc n) h False js (Ref a) s =
            rbind (pair_each (pair n h False js) (\<lambda>e. True) (length (recs s))
                    (filter (\<lambda>e. \<not> is_fs e) xs) (snd (as_s (NumTag SET, PSlots []) (Ref a) s)))
              (\<lambda>s2. Ok (length (recs s), s2))
      | MapO kvs \<Rightarrow>
          pair (Suc n) h False js (Ref a) s =
            rbind (pair_entries (pair n h False js) (\<lambda>k e. True) (length (recs s))
                    (filter (\<lambda>kv. \<not> (is_fs (fst kv) \<or> is_fs (snd kv))) kvs)
                    (snd (as_s (NumTag MAP, PPairs []) (Ref a) s)))
              (\<lambda>s2. Ok (length (recs s), s2))
      | ObjectO props tj \<Rightarrow>
          \<not> (js \<and> tj \<noteq> None) \<longrightarrow>
          pair (Suc n) h False js (Ref a) s =
            rbind (pair_entries (pair n h False js) (\<lambda>k e. True) (length (recs s))
                    (filter (\<lambda>kv. \<not> is_fs (snd kv)) (entries_of props))
                    (snd (as_s (NumTag OBJECT, PPairs []) (Ref a) s)))
              (\<lambda>s2. Ok (length (recs s), s2))
      | _ \<Rightarrow> True"
    if "ids s (Ref a) = None \<and> a < length h"
  proof (cases "h ! a")
    case (SetO xs)
    with that show ?thesis
      by (simp add: pair_body_classify classify_def classify_obj_def run_shape_def
          pair_each_filter [of _ "\<lambda>e. \<not> is_fs e"])
  next
    case (MapO kvs)
    with that show ?thesis
      by (simp add: pair_body_classify classify_def classify_obj_def run_shape_def
          pair_entries_filter [of _ "\<lambda>k e. \<not> is_fs k \<and> \<not> is_fs e"])
  next
    case (ObjectO props tj)
    with that show ?thesis
      by (auto simp: pair_body_classify classify_def classify_obj_def run_shape_def
          pair_entries_filter [of _ "\<lambda>k e. \<not> is_fs e"])
  qed simp_all
  from p1 p2 p3 p4 p5 p6 p7 show ?thesis by blast
qed

text \<open>
  \<^verbatim>\<open>[1, function () {}]\<close> and \<^verbatim>\<open>[function () {}, new Date(NaN)]\<close> in strict mode,
  \<^verbatim>\<open>function () {}\<close> in lossy mode, and a Set that holds a function in relaxed mode.
\<close>

theorem type_not_serializable_witness:
  "serialize 2 [ArrayO [Num 1, Func 0]] (Ref 0) no_options =
     Throw (TypeError ''unable to serialize function'') \<and>
   (\<exists>e. serialize 2 [ArrayO [Num 1, Func 0]] (Ref 0) no_options = Throw e \<and> tns e) \<and>
   reach [ArrayO [Num 1, Func 0]] (Ref 0) (Func 0) \<and>
   pair 1 [] False False (Func 0) \<lparr>ids = Map.empty, recs = []\<rparr> =
     Ok (0, \<lparr>ids = [Func 0 \<mapsto> 0], recs = [(NumTag 0, PVal Null)]\<rparr>) \<and>
   serialize 1 [] (Func 0) \<lparr>json = False, lossy = True\<rparr> = Ok [(NumTag 0, PVal Null)] \<and>
   deserialize 1 [(NumTag 0, PVal Null)] = Ok (Null, []) \<and>
   serialize 2 h_fn_date (Ref 0) no_options = Throw (TypeError ''unable to serialize function'') \<and>
   (\<exists>e y. serialize 2 h_fn_date (Ref 0) no_options = Throw e \<and> reach h_fn_date (Ref 0) y \<and>
      classify h_fn_date True False y = Raise e \<and> (tns e \<longleftrightarrow> is_fs y)) \<and>
   pair 2 h_set_fn False False (Ref 0) \<lparr>ids = Map.empty, recs = []\<rparr> =
     rbind (pair_each (pair 1 h_set_fn False False) (\<lambda>e. True) 0 [Num 1, Num 2]
             (snd (as_s (NumTag SET, PSlots []) (Ref 0) \<lparr>ids = Map.empty, recs = []\<rparr>)))
       (\<lambda>s2. Ok (0, s2))"
proof -
  let ?h = "[ArrayO [Num 1, Func 0]]"
  have r: "reach ?h (Ref 0) (Func 0)"
    by (rule reach_child [OF reach_root, of 0]) simp_all
  have e2: "serialize 2 ?h (Ref 0) no_options = Throw (TypeError ''unable to serialize function'')"
    by code_simp
  have only: "\<forall>y e. reach ?h (Ref 0) y \<longrightarrow> classify ?h True False y = Raise e \<longrightarrow> tns e"
  proof (intro allI impI)
    fix y e
    assume "reach ?h (Ref 0) y" and c: "classify ?h True False y = Raise e"
    from reach_in_heap [OF this(1)] have "y = Ref 0 \<or> y = Num 1 \<or> y = Func 0" by auto
    with c show "tns e" by (auto simp: classify_def classify_obj_def tns_def)
  qed
  note t = type_not_serializable [of 2 ?h "Ref 0" no_options "Func 0"
      "\<lparr>ids = Map.empty, recs = []\<rparr>" False "[]"]
  note t0 = type_not_serializable [of 0 "[]" "Func 0" no_options "Func 0"
      "\<lparr>ids = Map.empty, recs = []\<rparr>" False "[]"]
  have st: "\<not> (json no_options \<or> lossy no_options)" by (simp add: no_options_def)
  have hyp: "\<not> (json no_options \<or> lossy no_options) \<and> (\<exists>x. reach ?h (Ref 0) x \<and> is_fs x) \<and>
      (\<forall>y e. reach ?h (Ref 0) y \<longrightarrow> classify ?h True False y = Raise e \<longrightarrow> tns e)"
    using st r only by (intro conjI exI [of _ "Func 0"]) simp_all
  note t2 = conjunct2 [OF mp [OF conjunct1 [OF conjunct2 [OF t]] hyp]]
  from e2 have "serialize 2 ?h (Ref 0) no_options \<noteq> OutOfFuel" by simp
  from mp [OF t2 this] have a: "\<exists>e. serialize 2 ?h (Ref 0) no_options = Throw e \<and> tns e" .
  note t4 = conjunct1 [OF conjunct2 [OF conjunct2 [OF conjunct2 [OF t0]]]]
  have "is_fs (Func 0) \<and> ids \<lparr>ids = Map.empty, recs = []\<rparr> (Func 0) = None" by simp
  from mp [OF t4 this] have b: "pair 1 [] False False (Func 0) \<lparr>ids = Map.empty, recs = []\<rparr> =
     Ok (0, \<lparr>ids = [Func 0 \<mapsto> 0], recs = [(NumTag 0, PVal Null)]\<rparr>)"
    by (simp add: as_s_simp PRIMITIVE_def)
  have c: "serialize 1 [] (Func 0) \<lparr>json = False, lossy = True\<rparr> = Ok [(NumTag 0, PVal Null)]"
    by code_simp
  have d: "deserialize 1 [(NumTag 0, PVal Null)] = Ok (Null, [])"
    by code_simp
  have f2: "serialize 2 h_fn_date (Ref 0) no_options = Throw (TypeError ''unable to serialize function'')"
    by code_simp
  have rf: "reach h_fn_date (Ref 0) (Func 0)"
    by (rule reach_child [OF reach_root, of 0]) (simp_all add: h_fn_date_def)
  note u = type_not_serializable [of 2 h_fn_date "Ref 0" no_options "Func 0"
      "\<lparr>ids = Map.empty, recs = []\<rparr>" False "[]" 0]
  have hyp6: "\<not> (json no_options \<or> lossy no_options) \<and> (\<exists>x. reach h_fn_date (Ref 0) x \<and> is_fs x)"
    using st rf by (intro conjI exI [of _ "Func 0"]) simp_all
  note u6 = conjunct2 [OF mp [OF conjunct1 [OF conjunct2 [OF conjunct2 [OF conjunct2 [OF conjunct2
      [OF conjunct2 [OF u]]]]]] hyp6]]
  from f2 have "serialize 2 h_fn_date (Ref 0) no_options \<noteq> OutOfFuel" by simp
  from mp [OF u6 this] have g: "\<exists>e y. serialize 2 h_fn_date (Ref 0) no_options = Throw e \<and>
      reach h_fn_date (Ref 0) y \<and> classify h_fn_date True False y = Raise e \<and> (tns e \<longleftrightarrow> is_fs y)" .
  note w = type_not_serializable [of 1 h_set_fn "Ref 0" no_options "Func 0"
      "\<lparr>ids = Map.empty, recs = []\<rparr>" False "[]" 0]
  note w7 = conjunct2 [OF conjunct2 [OF conjunct2 [OF conjunct2 [OF conjunct2 [OF conjunct2 [OF w]]]]]]
  have "ids \<lparr>ids = Map.empty, recs = []\<rparr> (Ref 0) = None \<and> 0 < length h_set_fn"
    by (simp add: h_set_fn_def)
  from mp [OF w7 this] have k: "pair 2 h_set_fn False False (Ref 0) \<lparr>ids = Map.empty, recs = []\<rparr> =
     rbind (pair_each (pair 1 h_set_fn False False) (\<lambda>e. True) 0 [Num 1, Num 2]
             (snd (as_s (NumTag SET, PSlots []) (Ref 0) \<lparr>ids = Map.empty, recs = []\<rparr>)))
       (\<lambda>s2. Ok (0, s2))"
    by (simp add: h_set_fn_def numeral_2_eq_2)
  from a b c d e2 r f2 g k show ?thesis by blast
qed

subsection \<open>The option json in the body of pair\<close>

lemma classify_json_flag:
  assumes "\<forall>b ps t. v = Ref b \<longrightarrow> h ! b \<noteq> ObjectO ps (Some t)"
  shows "classify h strict True v = classify h strict False v"
proof (cases v)
  case (Ref b)
  with assms have "classify_obj h strict True (h ! b) = classify_obj h strict False (h ! b)"
    by (cases "h ! b") (auto simp: classify_obj_def)
  with Ref show ?thesis by (simp add: classify_def)
qed (simp_all add: classify_def)

text \<open>
  Claim C6, as amended. In json mode \<^verbatim>\<open>pair\<close> replaces a value by the result of its
  \<^verbatim>\<open>toJSON\<close> only in the \<open>OBJECT\<close> case, after the boxed primitives: an ordinary
  object that has a \<^verbatim>\<open>toJSON\<close> is encoded as \<^verbatim>\<open>pair(value.toJSON())\<close>. A Date
  is encoded by its \<open>DATE\<close> record in every mode. On every value that is not an ordinary
  object with a \<^verbatim>\<open>toJSON\<close> (a primitive, an array, a Date, a RegExp, a Map, a Set, an
  Error, a boxed primitive, a typed array, a buffer, an ordinary object without
  \<^verbatim>\<open>toJSON\<close>) the body of \<^verbatim>\<open>pair\<close> is the same with the option as without it.
\<close>

theorem toJSON_only_ordinary_objects:
  "(a < length h \<and> h ! a = ObjectO props (Some r) \<and> ids s (Ref a) = None \<longrightarrow>
      pair (Suc n) h strict True (Ref a) s = pair n h strict True r s) \<and>
   (a < length h \<and> h ! a = DateO (Some d) \<and> ids s (Ref a) = None \<longrightarrow>
      pair (Suc n) h strict js (Ref a) s = Ok (as_s (NumTag DATE, PIso d) (Ref a) s)) \<and>
   ((\<forall>b ps t. v = Ref b \<longrightarrow> h ! b \<noteq> ObjectO ps (Some t)) \<longrightarrow>
      pair_body rec h strict True v s = pair_body rec h strict False v s)"
proof -
  have "pair_body rec h strict True v s = pair_body rec h strict False v s"
    if "\<forall>b ps t. v = Ref b \<longrightarrow> h ! b \<noteq> ObjectO ps (Some t)"
    using classify_json_flag [OF that, of strict]
    by (cases "ids s v") (simp_all add: pair_body_classify)
  then show ?thesis
    by (simp add: pair_body_def valid_def typeOf_def tag_defs deref_def)
qed

text \<open>
  An object whose \<^verbatim>\<open>toJSON\<close> returns a string, a Date, and a boxed string.
\<close>

theorem toJSON_only_ordinary_objects_witness:
  "pair 2 [ObjectO [(''x'', Num 1)] (Some (Str ''seven'')), DateO (Some 7)] False True (Ref 0)
      \<lparr>ids = Map.empty, recs = []\<rparr> =
     Ok (0, \<lparr>ids = [Str ''seven'' \<mapsto> 0], recs = [(NumTag 0, PVal (Str ''seven''))]\<rparr>) \<and>
   pair 2 [ObjectO [(''x'', Num 1)] (Some (Str ''seven'')), DateO (Some 7)] False True (Ref 1)
      \<lparr>ids = Map.empty, recs = []\<rparr> =
     Ok (0, \<lparr>ids = [Ref 1 \<mapsto> 0], recs = [(NumTag 3, PIso 7)]\<rparr>) \<and>
   pair_body (\<lambda>v s. OutOfFuel) [StringO ''s''] False True (Ref 0) \<lparr>ids = Map.empty, recs = []\<rparr> =
     pair_body (\<lambda>v s. OutOfFuel) [StringO ''s''] False False (Ref 0) \<lparr>ids = Map.empty, recs = []\<rparr>"
proof -
  let ?h = "[ObjectO [(''x'', Num 1)] (Some (Str ''seven'')), DateO (Some 7)]"
  let ?s0 = "\<lparr>ids = Map.empty, recs = []\<rparr>"
  note t0 = toJSON_only_ordinary_objects [of 0 ?h "[(''x'', Num 1)]" "Str ''seven''" ?s0 1 False 7 True]
  note t1 = toJSON_only_ordinary_objects [of 1 ?h "[(''x'', Num 1)]" "Str ''seven''" ?s0 1 False 7 True]
  note t2 = toJSON_only_ordinary_objects [of 0 "[StringO ''s'']" "[]" Null ?s0 0 False 0 True
      "Ref 0" "\<lambda>v s. OutOfFuel"]
  from t0 have a: "pair 2 ?h False True (Ref 0) ?s0 =
      Ok (0, \<lparr>ids = [Str ''seven'' \<mapsto> 0], recs = [(NumTag 0, PVal (Str ''seven''))]\<rparr>)"
    by (simp add: as_s_simp pair_body_def valid_def typeOf_def tag_defs deref_def numeral_2_eq_2)
  from t1 have b: "pair 2 ?h False True (Ref 1) ?s0 =
      Ok (0, \<lparr>ids = [Ref 1 \<mapsto> 0], recs = [(NumTag 3, PIso 7)]\<rparr>)"
    by (simp add: as_s_simp tag_defs numeral_2_eq_2)
  from t2 have c: "pair_body (\<lambda>v s. OutOfFuel) [StringO ''s''] False True (Ref 0) ?s0 =
      pair_body (\<lambda>v s. OutOfFuel) [StringO ''s''] False False (Ref 0) ?s0"
    by simp
  from a b c show ?thesis by blast
qed

subsection \<open>A view through the text\<close>

text \<open>
  C7 as stated fails on a DataView of one byte at offset 1 of a buffer of three bytes:
  what \<^verbatim>\<open>parse(stringify(v))\<close> returns is a view of three bytes at offset 0.
\<close>

theorem dataview_window_lost_in_text:
  "stringifyJSON 1 h_view (Ref 0) =
     Ok (JArr [JArr [JStr ''DataView'', JArr [JNum 1, JNum 2, JNum 3]]]) \<and>
   parseJSON 1 (JArr [JArr [JStr ''DataView'', JArr [JNum 1, JNum 2, JNum 3]]]) =
     Ok (Ref 1, [ArrayBufferO [1, 2, 3], DataViewO 0 0 3])"
  by code_simp

end
